(* ===== verification/Substrate_Prelude.thy ===== *)
theory Substrate_Prelude
  imports Main "HOL-Library.Word"
begin

text \<open>
  Shared vocabulary of the development: the machine integers of the Rust sources with the
  overflow-aware operations of \<open>core\<close> and \<open>num_traits\<close>, results as sums, sums of balances over
  finitely many accounts, and one locale for the reachable states of a component.
\<close>

section \<open>Lemma collections\<close>

named_theorems word_arith_iff \<open>overflow-aware word operations, read through unat\<close>
named_theorems frame_simps \<open>which parts of a state an operation leaves alone\<close>

section \<open>Machine integers\<close>

type_synonym u8 = "8 word"
type_synonym u32 = "32 word"
type_synonym u64 = "64 word"
type_synonym u128 = "128 word"
type_synonym bytes = "u8 list"

definition checked_add :: "'a::len word \<Rightarrow> 'a word \<Rightarrow> 'a word option" where
  "checked_add a b = (if unat a + unat b < 2 ^ LENGTH('a) then Some (a + b) else None)"

definition checked_sub :: "'a::len word \<Rightarrow> 'a word \<Rightarrow> 'a word option" where
  "checked_sub a b = (if b \<le> a then Some (a - b) else None)"

definition checked_mul :: "'a::len word \<Rightarrow> 'a word \<Rightarrow> 'a word option" where
  "checked_mul a b = (if unat a * unat b < 2 ^ LENGTH('a) then Some (a * b) else None)"

definition saturating_add :: "'a::len word \<Rightarrow> 'a word \<Rightarrow> 'a word" where
  "saturating_add a b = (if unat a + unat b < 2 ^ LENGTH('a) then a + b else - 1)"

definition saturating_sub :: "'a::len word \<Rightarrow> 'a word \<Rightarrow> 'a word" where
  "saturating_sub a b = (if b \<le> a then a - b else 0)"

lemma unat_lt_pow: "unat (x::'a::len word) < 2 ^ LENGTH('a)"
  by (rule unsigned_less)

lemma unat_add_no_wrap:
  "unat a + unat b < 2 ^ LENGTH('a) \<Longrightarrow> unat (a + b :: 'a::len word) = unat a + unat b"
  by (simp add: unat_word_ariths)

lemma unat_sub_no_wrap: "b \<le> a \<Longrightarrow> unat (a - b) = unat a - unat b"
  by (rule unat_sub)

lemma word_eq_unatI: "unat a = unat b \<Longrightarrow> a = b"
  by (simp add: word_unat_eq_iff)

lemma checked_add_Some_iff [word_arith_iff]:
  "checked_add a b = Some c \<longleftrightarrow> unat c = unat a + unat b"
  unfolding checked_add_def
  by (metis option.distinct(1) option.inject unat_lt_pow unat_add_no_wrap word_eq_unatI)

lemma checked_add_None_iff [word_arith_iff]:
  "checked_add (a::'a::len word) b = None \<longleftrightarrow> 2 ^ LENGTH('a) \<le> unat a + unat b"
  by (simp add: checked_add_def not_less)

lemma checked_sub_Some_iff [word_arith_iff]:
  "checked_sub a b = Some c \<longleftrightarrow> unat a = unat c + unat b"
proof
  assume "checked_sub a b = Some c"
  then have "b \<le> a" "c = a - b" by (auto simp: checked_sub_def split: if_splits)
  then show "unat a = unat c + unat b"
    by (simp add: unat_sub_no_wrap word_le_nat_alt)
next
  assume eq: "unat a = unat c + unat b"
  then have le: "b \<le> a" by (simp add: word_le_nat_alt)
  with eq have "a - b = c" by (intro word_eq_unatI) (simp add: unat_sub_no_wrap)
  with le show "checked_sub a b = Some c" by (simp add: checked_sub_def)
qed

lemma checked_sub_None_iff [word_arith_iff]: "checked_sub a b = None \<longleftrightarrow> unat a < unat b"
  by (simp add: checked_sub_def word_le_nat_alt not_le)

lemma checked_mul_None_iff [word_arith_iff]:
  "checked_mul (a::'a::len word) b = None \<longleftrightarrow> 2 ^ LENGTH('a) \<le> unat a * unat b"
  by (simp add: checked_mul_def not_less)

lemma checked_mul_Some_iff [word_arith_iff]:
  "checked_mul a b = Some c \<longleftrightarrow> unat c = unat a * unat b"
proof
  assume "checked_mul a b = Some c"
  then show "unat c = unat a * unat b"
    by (auto simp: checked_mul_def unat_word_ariths split: if_splits)
next
  assume eq: "unat c = unat a * unat b"
  then have lt: "unat a * unat b < 2 ^ LENGTH('a)"
    using unat_lt_pow [of c] by simp
  with eq have "a * b = c" by (intro word_eq_unatI) (simp add: unat_word_ariths)
  with lt show "checked_mul a b = Some c" by (simp add: checked_mul_def)
qed

lemma unat_saturating_add:
  "unat (saturating_add a (b::'a::len word)) = min (unat a + unat b) (2 ^ LENGTH('a) - 1)"
proof (cases "unat a + unat b < 2 ^ LENGTH('a)")
  case True
  then show ?thesis by (simp add: saturating_add_def unat_add_no_wrap)
next
  case False
  have "unat (- 1 :: 'a word) = 2 ^ LENGTH('a) - 1"
    by (simp add: unsigned_minus_1_eq_mask mask_eq_exp_minus_1)
  with False show ?thesis by (simp add: saturating_add_def)
qed

lemma unat_saturating_sub: "unat (saturating_sub a b) = unat a - unat b"
  by (simp add: saturating_sub_def unat_sub_no_wrap word_le_nat_alt)

lemma unat_min: "unat (min a b) = min (unat a) (unat b)"
  by (simp add: min_def word_le_nat_alt)

lemma unat_max: "unat (max a b) = max (unat a) (unat b)"
  by (simp add: max_def word_le_nat_alt)

lemmas unat_simps = unat_saturating_add unat_saturating_sub unat_min unat_max

lemma unat_ucast_fits:
  "unat (x :: 'a::len word) < 2 ^ LENGTH('b) \<Longrightarrow> unat (ucast x :: 'b::len word) = unat x"
  by (simp add: unsigned_ucast_eq take_bit_nat_eq_self)

lemma unat_ucast_up:
  "LENGTH('a) \<le> LENGTH('b) \<Longrightarrow> unat (ucast (x :: 'a::len word) :: 'b::len word) = unat x"
  by (rule unat_ucast_fits)
    (metis unat_lt_pow order_less_le_trans one_less_numeral_iff power_increasing_iff semiring_norm(76))

lemma unat_of_nat_fits: "n < 2 ^ LENGTH('a) \<Longrightarrow> unat (of_nat n :: 'a::len word) = n"
  by (simp add: unsigned_of_nat take_bit_nat_eq_self)

lemma len_u32: "LENGTH(32) = 32" and len_u64: "LENGTH(64) = 64" and len_u128: "LENGTH(128) = 128"
  by simp_all

lemma unat_push_bit_fits:
  "unat (w :: 'a::len word) * 2 ^ n < 2 ^ LENGTH('a) \<Longrightarrow> unat (push_bit n w) = unat w * 2 ^ n"
  by (simp only: unsigned_push_bit_eq) (simp only: push_bit_eq_mult take_bit_nat_eq_self)

lemma ucast_of_unat: "(ucast (x :: 'a::len word) :: 'b::len word) = of_nat (unat x)"
  by simp

lemma unat_div_mult: "unat ((a :: 'a::len word) div b * b) = unat a div unat b * unat b"
proof -
  have "unat a div unat b * unat b < 2 ^ LENGTH('a)"
    by (rule le_less_trans [OF div_times_less_eq_dividend unat_lt_pow])
  then show ?thesis by (simp add: unat_word_ariths(2) unat_div)
qed

section \<open>Powers of two\<close>

lemma pow2_min: "min ((2::nat) ^ i) (2 ^ j) = 2 ^ min i j"
  by (simp add: min_def)

lemma pow2_max: "max ((2::nat) ^ i) (2 ^ j) = 2 ^ max i j"
  by (simp add: max_def)

fun bit_len :: "nat \<Rightarrow> nat" where
  "bit_len n = (if n = 0 then 0 else Suc (bit_len (n div 2)))"

declare bit_len.simps [simp del]

definition next_power_of_two :: "nat \<Rightarrow> nat" where
  "next_power_of_two n = (if n \<le> 1 then 1 else 2 ^ bit_len (n - 1))"

fun nat_ctz :: "nat \<Rightarrow> nat" where
  "nat_ctz n = (if n = 0 \<or> odd n then 0 else Suc (nat_ctz (n div 2)))"

declare nat_ctz.simps [simp del]

definition trailing_zeros :: "'a::len word \<Rightarrow> u32" where
  "trailing_zeros w = of_nat (if w = 0 then LENGTH('a) else nat_ctz (unat w))"

lemma bit_len_lower: "n < 2 ^ bit_len n"
proof (induction n rule: bit_len.induct)
  case (1 n)
  then show ?case by (subst bit_len.simps) (auto simp: not_less)
qed

lemma bit_len_upper: "0 < n \<Longrightarrow> 2 ^ bit_len n \<le> 2 * n"
proof (induction n rule: bit_len.induct)
  case (1 n)
  show ?case
  proof (cases "n = 1")
    case True
    then show ?thesis by (simp add: bit_len.simps)
  next
    case False
    with "1.prems" have "2 ^ bit_len (n div 2) \<le> 2 * (n div 2)" by (intro "1.IH") auto
    then show ?thesis using "1.prems" by (subst bit_len.simps) simp
  qed
qed

lemma next_power_of_two_ge: "n \<le> next_power_of_two n"
  using bit_len_lower [of "n - 1"] by (auto simp: next_power_of_two_def)

lemma next_power_of_two_lt: "0 < n \<Longrightarrow> next_power_of_two n < 2 * n"
  using bit_len_upper [of "n - 1"] by (auto simp: next_power_of_two_def)

lemma next_power_of_two_pow: "\<exists>k. next_power_of_two n = 2 ^ k"
  by (auto simp: next_power_of_two_def intro: exI [of _ 0])

lemma nat_ctz_pow [simp]: "nat_ctz (2 ^ k) = k"
  by (induction k) (simp_all add: nat_ctz.simps)

lemma trailing_zeros_pow:
  "unat (w :: 'a::len word) = 2 ^ k \<Longrightarrow> k < 2 ^ 32 \<Longrightarrow> unat (trailing_zeros w) = k"
  by (auto simp: trailing_zeros_def unat_of_nat_fits)

section \<open>Results\<close>

definition is_ok :: "'e + 'a \<Rightarrow> bool" where
  "is_ok r = (case r of Inl _ \<Rightarrow> False | Inr _ \<Rightarrow> True)"

lemma is_ok_simps [simp]: "is_ok (Inr x)" "\<not> is_ok (Inl e)"
  by (simp_all add: is_ok_def)

lemma is_ok_iff: "is_ok r \<longleftrightarrow> (\<exists>x. r = Inr x)"
  by (cases r) simp_all

section \<open>Association lists\<close>

lemma map_of_rev_distinct: "distinct (map fst kvs) \<Longrightarrow> map_of (rev kvs) = map_of kvs"
proof
  fix x assume d: "distinct (map fst kvs)"
  then have "distinct (map fst (rev kvs))" by (simp add: rev_map [symmetric])
  with d have "map_of (rev kvs) x = Some y \<longleftrightarrow> map_of kvs x = Some y" for y by simp
  then show "map_of (rev kvs) x = map_of kvs x" by (metis not_None_eq)
qed

lemma map_of_update_key:
  "map_of (map (\<lambda>(k', w). if k' = k then (k, v) else (k', w)) kvs)
    = (if k \<in> fst ` set kvs then (map_of kvs)(k \<mapsto> v) else map_of kvs)"
  by (induction kvs) (auto simp: fun_eq_iff)

lemma map_of_filter_key: "map_of (filter (\<lambda>kv. fst kv \<noteq> k) kvs) = (map_of kvs)(k := None)"
  by (induction kvs) (auto simp: fun_eq_iff)

section \<open>Sums over the accounts that hold something\<close>

definition supp_sum :: "('a \<Rightarrow> nat) \<Rightarrow> nat" where
  "supp_sum f = sum f {a. f a \<noteq> 0}"

lemma supp_sum_zero [simp]: "supp_sum (\<lambda>_. 0) = 0"
  by (simp add: supp_sum_def)

lemma supp_sum_superset:
  assumes "finite A" and "{a. f a \<noteq> 0} \<subseteq> A"
  shows "supp_sum f = sum f A"
  unfolding supp_sum_def using assms by (intro sum.mono_neutral_left) auto

lemma supp_sum_update:
  assumes "finite {a. f a \<noteq> 0}"
  shows "supp_sum (f(a := v)) + f a = supp_sum f + v"
proof -
  let ?A = "insert a {x. f x \<noteq> 0}"
  have fin: "finite ?A" using assms by simp
  have 1: "supp_sum (f(a := v)) = sum (f(a := v)) ?A"
    by (rule supp_sum_superset [OF fin]) auto
  have 2: "supp_sum f = sum f ?A"
    by (rule supp_sum_superset [OF fin]) auto
  have 3: "sum (f(a := v)) ?A = v + sum f (?A - {a})"
    using fin by (simp add: sum.remove [of _ a])
  have 4: "sum f ?A = f a + sum f (?A - {a})"
    using fin by (simp add: sum.remove [of _ a])
  show ?thesis unfolding 1 2 3 4 by simp
qed

lemma finite_supp_update [simp]:
  "finite {a. f a \<noteq> (0::nat)} \<Longrightarrow> finite {a. (f(b := v)) a \<noteq> 0}"
  by (rule finite_subset [of _ "insert b {a. f a \<noteq> 0}"]) auto

lemma supp_sum_ge: "finite {a. f a \<noteq> 0} \<Longrightarrow> f a \<le> supp_sum f"
  using supp_sum_update [of f a 0] by simp

section \<open>Reachable states of a component\<close>

text \<open>
  A component is a set of initial states and a step relation.  An invariant that the initial
  states satisfy and every step keeps holds in every reachable state.
\<close>

locale guarded_system =
  fixes init :: "'s \<Rightarrow> bool"
    and step :: "'s \<Rightarrow> 's \<Rightarrow> bool"
    and inv :: "'s \<Rightarrow> bool"
  assumes inv_init: "init s \<Longrightarrow> inv s"
    and inv_step: "inv s \<Longrightarrow> step s t \<Longrightarrow> inv t"
begin

lemma inv_steps: "step\<^sup>*\<^sup>* s t \<Longrightarrow> inv s \<Longrightarrow> inv t"
  by (induction rule: rtranclp_induct) (auto intro: inv_step)

lemma inv_reachable: "init s \<Longrightarrow> step\<^sup>*\<^sup>* s t \<Longrightarrow> inv t"
  by (blast intro: inv_steps inv_init)

end

end
