(* ===== verification/Raw_Storage.thy ===== *)
theory Raw_Storage
  imports Substrate_Prelude
begin

text \<open>
  The raw storage of the chain and the two simple storage generators above it:
  \<open>frame/support/src/storage/unhashed.rs\<close>, \<open>storage/generator/value.rs\<close> and
  \<open>storage/generator/map.rs\<close>.  The codec and the hashers are code of other packages: they are
  fields of a format record, and what the generators rely on is the predicate \<open>map_format_ok\<close>.
\<close>

section \<open>Unhashed access\<close>

type_synonym raw_storage = "bytes \<rightharpoonup> bytes"

definition unhashed_get :: "(bytes \<Rightarrow> 'v option) \<Rightarrow> bytes \<Rightarrow> raw_storage \<Rightarrow> 'v option" where
  "unhashed_get dec key st = (case st key of None \<Rightarrow> None | Some b \<Rightarrow> dec b)"

definition unhashed_get_or :: "(bytes \<Rightarrow> 'v option) \<Rightarrow> bytes \<Rightarrow> 'v \<Rightarrow> raw_storage \<Rightarrow> 'v" where
  "unhashed_get_or dec key default_value st =
     (case unhashed_get dec key st of None \<Rightarrow> default_value | Some v \<Rightarrow> v)"

definition unhashed_put :: "('v \<Rightarrow> bytes) \<Rightarrow> bytes \<Rightarrow> 'v \<Rightarrow> raw_storage \<Rightarrow> raw_storage" where
  "unhashed_put enc key v st = st(key \<mapsto> enc v)"

definition unhashed_kill :: "bytes \<Rightarrow> raw_storage \<Rightarrow> raw_storage" where
  "unhashed_kill key st = st(key := None)"

definition unhashed_take ::
  "(bytes \<Rightarrow> 'v option) \<Rightarrow> bytes \<Rightarrow> raw_storage \<Rightarrow> 'v option \<times> raw_storage" where
  "unhashed_take dec key st =
     (let r = unhashed_get dec key st
      in (r, if r \<noteq> None then unhashed_kill key st else st))"

definition unhashed_take_or ::
  "(bytes \<Rightarrow> 'v option) \<Rightarrow> bytes \<Rightarrow> 'v \<Rightarrow> raw_storage \<Rightarrow> 'v \<times> raw_storage" where
  "unhashed_take_or dec key default_value st =
     (case unhashed_take dec key st of (r, st') \<Rightarrow>
        (case r of None \<Rightarrow> default_value | Some v \<Rightarrow> v, st'))"

definition unhashed_exists :: "bytes \<Rightarrow> raw_storage \<Rightarrow> bool" where
  "unhashed_exists key st \<longleftrightarrow> st key \<noteq> None"

definition unhashed_kill_prefix :: "bytes \<Rightarrow> raw_storage \<Rightarrow> raw_storage" where
  "unhashed_kill_prefix prefix st = (\<lambda>k. if take (length prefix) k = prefix then None else st k)"

definition unhashed_get_raw :: "bytes \<Rightarrow> raw_storage \<Rightarrow> bytes option" where
  "unhashed_get_raw key st = st key"

definition unhashed_put_raw :: "bytes \<Rightarrow> bytes \<Rightarrow> raw_storage \<Rightarrow> raw_storage" where
  "unhashed_put_raw key value st = st(key \<mapsto> value)"

lemmas unhashed_defs = unhashed_get_def unhashed_get_or_def unhashed_put_def unhashed_kill_def
  unhashed_take_def unhashed_take_or_def unhashed_exists_def unhashed_kill_prefix_def
  unhashed_get_raw_def unhashed_put_raw_def

section \<open>Storage values and storage maps\<close>

text \<open>
  \<open>from_optional\<close> and \<open>to_optional\<close> are the two conversions the macro generates: the identity for
  an optional query type, \<open>unwrap_or_default\<close> and \<open>Some\<close> otherwise.
\<close>

record ('k, 'v, 'q) map_format =
  twox128 :: "bytes \<Rightarrow> bytes"
  hasher :: "bytes \<Rightarrow> bytes"
  module_prefix :: bytes
  storage_prefix :: bytes
  enc_key :: "'k \<Rightarrow> bytes"
  enc_val :: "'v \<Rightarrow> bytes"
  dec_val :: "bytes \<Rightarrow> 'v option"
  from_optional :: "'v option \<Rightarrow> 'q"
  to_optional :: "'q \<Rightarrow> 'v option"

definition storage_value_final_key :: "('k, 'v, 'q, 'z) map_format_scheme \<Rightarrow> bytes" where
  "storage_value_final_key f = twox128 f (module_prefix f) @ twox128 f (storage_prefix f)"

definition value_exists :: "('k, 'v, 'q, 'z) map_format_scheme \<Rightarrow> raw_storage \<Rightarrow> bool" where
  "value_exists f st = unhashed_exists (storage_value_final_key f) st"

definition value_get :: "('k, 'v, 'q, 'z) map_format_scheme \<Rightarrow> raw_storage \<Rightarrow> 'q" where
  "value_get f st = from_optional f (unhashed_get (dec_val f) (storage_value_final_key f) st)"

definition value_put :: "('k, 'v, 'q, 'z) map_format_scheme \<Rightarrow> 'v \<Rightarrow> raw_storage \<Rightarrow> raw_storage" where
  "value_put f val st = unhashed_put (enc_val f) (storage_value_final_key f) val st"

definition value_kill :: "('k, 'v, 'q, 'z) map_format_scheme \<Rightarrow> raw_storage \<Rightarrow> raw_storage" where
  "value_kill f st = unhashed_kill (storage_value_final_key f) st"

definition value_translate ::
  "('k, 'v, 'q, 'z) map_format_scheme \<Rightarrow> (bytes \<Rightarrow> 'w option) \<Rightarrow> ('w option \<Rightarrow> 'v option) \<Rightarrow> raw_storage
    \<Rightarrow> (unit + 'v option) \<times> raw_storage" where
  "value_translate f dec_old g st =
     (let key = storage_value_final_key f
      in case (case unhashed_get_raw key st of
                 Some old_data \<Rightarrow> (case dec_old old_data of None \<Rightarrow> None | Some x \<Rightarrow> Some (Some x))
               | None \<Rightarrow> Some None) of
           None \<Rightarrow> (Inl (), st)
         | Some maybe_old \<Rightarrow>
             (let maybe_new = g maybe_old
              in (Inr maybe_new,
                  case maybe_new of
                    Some new \<Rightarrow> unhashed_put_raw key (enc_val f new) st
                  | None \<Rightarrow> unhashed_kill key st)))"

definition value_mutate ::
  "('k, 'v, 'q, 'z) map_format_scheme \<Rightarrow> ('q \<Rightarrow> 'r \<times> 'q) \<Rightarrow> raw_storage \<Rightarrow> 'r \<times> raw_storage" where
  "value_mutate f g st =
     (case g (value_get f st) of (ret, val) \<Rightarrow>
        (ret, case to_optional f val of
                Some v \<Rightarrow> value_put f v st
              | None \<Rightarrow> value_kill f st))"

definition value_take ::
  "('k, 'v, 'q, 'z) map_format_scheme \<Rightarrow> raw_storage \<Rightarrow> 'q \<times> raw_storage" where
  "value_take f st =
     (let key = storage_value_final_key f;
          value = unhashed_get (dec_val f) key st
      in (from_optional f value, if value \<noteq> None then unhashed_kill key st else st))"

definition storage_map_final_key :: "('k, 'v, 'q, 'z) map_format_scheme \<Rightarrow> 'k \<Rightarrow> bytes" where
  "storage_map_final_key f key =
     twox128 f (module_prefix f) @ twox128 f (storage_prefix f) @ hasher f (enc_key f key)"

definition map_swap :: "('k, 'v, 'q, 'z) map_format_scheme \<Rightarrow> 'k \<Rightarrow> 'k \<Rightarrow> raw_storage \<Rightarrow> raw_storage" where
  "map_swap f key1 key2 st =
     (let k1 = storage_map_final_key f key1;
          k2 = storage_map_final_key f key2;
          v1 = unhashed_get_raw k1 st;
          st1 = (case unhashed_get_raw k2 st of
                   Some val \<Rightarrow> unhashed_put_raw k1 val st
                 | None \<Rightarrow> unhashed_kill k1 st)
      in case v1 of
           Some val \<Rightarrow> unhashed_put_raw k2 val st1
         | None \<Rightarrow> unhashed_kill k2 st1)"

definition map_exists :: "('k, 'v, 'q, 'z) map_format_scheme \<Rightarrow> 'k \<Rightarrow> raw_storage \<Rightarrow> bool" where
  "map_exists f key st = unhashed_exists (storage_map_final_key f key) st"

definition map_get :: "('k, 'v, 'q, 'z) map_format_scheme \<Rightarrow> 'k \<Rightarrow> raw_storage \<Rightarrow> 'q" where
  "map_get f key st = from_optional f (unhashed_get (dec_val f) (storage_map_final_key f key) st)"

definition map_insert :: "('k, 'v, 'q, 'z) map_format_scheme \<Rightarrow> 'k \<Rightarrow> 'v \<Rightarrow> raw_storage \<Rightarrow> raw_storage" where
  "map_insert f key val st = unhashed_put (enc_val f) (storage_map_final_key f key) val st"

definition map_remove :: "('k, 'v, 'q, 'z) map_format_scheme \<Rightarrow> 'k \<Rightarrow> raw_storage \<Rightarrow> raw_storage" where
  "map_remove f key st = unhashed_kill (storage_map_final_key f key) st"

definition map_mutate ::
  "('k, 'v, 'q, 'z) map_format_scheme \<Rightarrow> 'k \<Rightarrow> ('q \<Rightarrow> 'r \<times> 'q) \<Rightarrow> raw_storage \<Rightarrow> 'r \<times> raw_storage" where
  "map_mutate f key g st =
     (let final_key = storage_map_final_key f key;
          val = from_optional f (unhashed_get (dec_val f) final_key st)
      in case g val of (ret, val') \<Rightarrow>
           (ret, case to_optional f val' of
                   Some v \<Rightarrow> unhashed_put (enc_val f) final_key v st
                 | None \<Rightarrow> unhashed_kill final_key st))"

definition map_take ::
  "('k, 'v, 'q, 'z) map_format_scheme \<Rightarrow> 'k \<Rightarrow> raw_storage \<Rightarrow> 'q \<times> raw_storage" where
  "map_take f key st =
     (case unhashed_take (dec_val f) (storage_map_final_key f key) st of (value, st') \<Rightarrow>
        (from_optional f value, st'))"

section \<open>Storage maps are maps\<close>

text \<open>
  What is relied on: hashes of prefixes are sixteen bytes long, hashed keys are all different, a
  decoder undoes its encoder, and the query conversions undo each other.
\<close>

definition map_format_ok :: "('k, 'v, 'q, 'z) map_format_scheme \<Rightarrow> bool" where
  "map_format_ok f \<longleftrightarrow>
     (\<forall>x. length (twox128 f x) = 16) \<and> inj (\<lambda>k. hasher f (enc_key f k))
     \<and> (\<forall>v. dec_val f (enc_val f v) = Some v)
     \<and> (\<forall>v. to_optional f (from_optional f (Some v)) = Some v)"

lemma final_key_eq_iff:
  "map_format_ok f \<Longrightarrow> storage_map_final_key f k = storage_map_final_key f k' \<longleftrightarrow> k = k'"
  by (auto simp: map_format_ok_def storage_map_final_key_def inj_def)

text \<open>The map a storage map implements.\<close>

definition map_abs :: "('k, 'v, 'q, 'z) map_format_scheme \<Rightarrow> raw_storage \<Rightarrow> 'k \<Rightarrow> 'v option" where
  "map_abs f st k = unhashed_get (dec_val f) (storage_map_final_key f k) st"

text \<open>Two maps whose prefixes hash differently share no address.\<close>

definition map_disjoint ::
  "('k, 'v, 'q, 'z) map_format_scheme \<Rightarrow> ('l, 'w, 'p, 'y) map_format_scheme \<Rightarrow> bool" where
  "map_disjoint f g \<longleftrightarrow> twox128 f = twox128 g
     \<and> (twox128 f (module_prefix f) \<noteq> twox128 g (module_prefix g)
        \<or> twox128 f (storage_prefix f) \<noteq> twox128 g (storage_prefix g))"

lemma map_disjoint_keys:
  assumes "map_format_ok f" and "map_disjoint f g"
  shows "storage_map_final_key f k \<noteq> storage_map_final_key g l"
  using assms by (auto simp: map_format_ok_def map_disjoint_def storage_map_final_key_def)

lemmas map_op_defs = map_swap_def map_insert_def map_remove_def map_mutate_def map_take_def map_get_def
  unhashed_defs Let_def

lemma map_codec: "map_format_ok f \<Longrightarrow> dec_val f (enc_val f v) = Some v"
  by (simp add: map_format_ok_def)

lemma map_get_abs: "map_get f k st = from_optional f (map_abs f st k)"
  by (simp add: map_get_def map_abs_def)

lemma map_abs_insert: "map_format_ok f \<Longrightarrow> map_abs f (map_insert f k v st) = (map_abs f st)(k \<mapsto> v)"
  by (auto simp: fun_eq_iff map_abs_def map_op_defs final_key_eq_iff map_codec)

lemma map_abs_remove: "map_format_ok f \<Longrightarrow> map_abs f (map_remove f k st) = (map_abs f st)(k := None)"
  by (auto simp: fun_eq_iff map_abs_def map_op_defs final_key_eq_iff)

lemma map_abs_take:
  "map_format_ok f \<Longrightarrow> map_abs f (snd (map_take f k st)) = (map_abs f st)(k := None)
    \<and> fst (map_take f k st) = from_optional f (map_abs f st k)"
  by (auto simp: fun_eq_iff map_abs_def map_op_defs final_key_eq_iff split: option.splits)

lemma map_abs_swap:
  "map_format_ok f \<Longrightarrow>
    map_abs f (map_swap f a b st) = (map_abs f st)(a := map_abs f st b, b := map_abs f st a)"
  by (auto simp: fun_eq_iff map_abs_def map_op_defs final_key_eq_iff split: option.splits)

lemma map_abs_mutate:
  "map_format_ok f \<Longrightarrow>
    map_abs f (snd (map_mutate f k g st))
      = (map_abs f st)(k := to_optional f (snd (g (from_optional f (map_abs f st k)))))
    \<and> fst (map_mutate f k g st) = fst (g (from_optional f (map_abs f st k)))"
  by (auto simp: fun_eq_iff map_abs_def map_op_defs final_key_eq_iff map_codec split: option.splits prod.splits)

text \<open>
  The contract of a keyed store.  A client that inserts and deletes sees a finite map; nothing
  else of the store is relied on.
\<close>

locale keyed_map =
  fixes inv :: "'s \<Rightarrow> bool"
    and lookup :: "'s \<Rightarrow> 'k \<Rightarrow> 'v option"
    and ins :: "'k \<Rightarrow> 'v \<Rightarrow> 's \<Rightarrow> 's"
    and del :: "'k \<Rightarrow> 's \<Rightarrow> 's"
  assumes inv_ins: "inv s \<Longrightarrow> inv (ins k v s)"
    and inv_del: "inv s \<Longrightarrow> inv (del k s)"
    and lookup_ins: "inv s \<Longrightarrow> lookup (ins k v s) = (lookup s)(k \<mapsto> v)"
    and lookup_del: "inv s \<Longrightarrow> lookup (del k s) = (lookup s)(k := None)"
begin

definition ins_all :: "('k \<times> 'v) list \<Rightarrow> 's \<Rightarrow> 's" where
  "ins_all kvs s = fold (\<lambda>(k, v). ins k v) kvs s"

lemma inv_ins_all: "inv s \<Longrightarrow> inv (ins_all kvs s)"
  unfolding ins_all_def by (induction kvs arbitrary: s) (auto intro: inv_ins)

lemma lookup_ins_all: "inv s \<Longrightarrow> lookup (ins_all kvs s) = lookup s ++ map_of (rev kvs)"
  unfolding ins_all_def
  by (induction kvs arbitrary: s) (auto simp: inv_ins lookup_ins)

lemma lookup_del_all: "inv s \<Longrightarrow> lookup (fold del ks s) = (lookup s) |` (- set ks)"
proof (induction ks arbitrary: s)
  case (Cons k ks)
  then show ?case by (auto simp: inv_del lookup_del fun_eq_iff restrict_map_def)
qed (simp add: restrict_map_def)

end

interpretation raw_map: keyed_map "\<lambda>_ :: raw_storage. map_format_ok f" "map_abs f" "map_insert f" "map_remove f" for f
  by unfold_locales (simp_all add: map_abs_insert map_abs_remove)

text \<open>A format over \<open>u8\<close> keys and values, for the witnesses.\<close>

definition format0 :: "bytes \<Rightarrow> (u8, u8, u8 option) map_format" where
  "format0 p = \<lparr>twox128 = \<lambda>x. take 16 (x @ replicate 16 0), hasher = \<lambda>x. x, module_prefix = [1],
     storage_prefix = p, enc_key = \<lambda>k. [k], enc_val = \<lambda>v. [v],
     dec_val = \<lambda>b. case b of [] \<Rightarrow> None | v # _ \<Rightarrow> Some v, from_optional = \<lambda>v. v, to_optional = \<lambda>v. v\<rparr>"

lemma format0_ok: "map_format_ok (format0 p)"
  by (auto simp: map_format_ok_def format0_def inj_def)

end
