(* ===== verification/Frame_System.thy ===== *)
theory Frame_System
  imports Raw_Storage
begin

text \<open>
  The system module (\<open>frame/system/src/lib.rs\<close>): origins and the checks every dispatchable starts
  with, the storage items of a block under construction, the event log, the block-hash window and
  the signed extensions that guard a block's resources and an account's nonce.  \<open>Weight\<close>,
  \<open>Index\<close>, \<open>BlockNumber\<close> and the event index are all \<open>u32\<close>, as in the node's runtime.
\<close>

section \<open>Origins and dispatch errors\<close>

datatype 'acc raw_origin = Root | Signed 'acc | NoOrigin

text \<open>The runtime's origin: a system origin, or one of another module (a collective, say).\<close>

datatype ('acc, 'o) origin = system "'acc raw_origin" | other 'o

datatype 'e dispatch_error = Other string | CannotLookup | BadOrigin | Module 'e

fun ensure_signed :: "('acc, 'o) origin \<Rightarrow> 'e dispatch_error + 'acc" where
  "ensure_signed (system (Signed t)) = Inr t"
| "ensure_signed _ = Inl BadOrigin"

fun ensure_root :: "('acc, 'o) origin \<Rightarrow> 'e dispatch_error + unit" where
  "ensure_root (system Root) = Inr ()"
| "ensure_root _ = Inl BadOrigin"

fun ensure_none :: "('acc, 'o) origin \<Rightarrow> 'e dispatch_error + unit" where
  "ensure_none (system NoOrigin) = Inr ()"
| "ensure_none _ = Inl BadOrigin"

definition raw_origin_from :: "'acc option \<Rightarrow> 'acc raw_origin" where
  "raw_origin_from s = (case s of Some who \<Rightarrow> Signed who | None \<Rightarrow> NoOrigin)"

text \<open>\<open>EnsureOrigin::try_origin\<close>: the origin itself comes back when it does not qualify.\<close>

fun try_origin_root :: "('acc, 'o) origin \<Rightarrow> ('acc, 'o) origin + unit" where
  "try_origin_root (system Root) = Inr ()"
| "try_origin_root r = Inl r"

fun try_origin_signed :: "('acc, 'o) origin \<Rightarrow> ('acc, 'o) origin + 'acc" where
  "try_origin_signed (system (Signed who)) = Inr who"
| "try_origin_signed r = Inl r"

fun try_origin_signed_by :: "('acc \<Rightarrow> bool) \<Rightarrow> ('acc, 'o) origin \<Rightarrow> ('acc, 'o) origin + 'acc" where
  "try_origin_signed_by contains (system (Signed who)) =
     (if contains who then Inr who else Inl (system (Signed who)))"
| "try_origin_signed_by contains r = Inl r"

fun try_origin_none :: "('acc, 'o) origin \<Rightarrow> ('acc, 'o) origin + unit" where
  "try_origin_none (system NoOrigin) = Inr ()"
| "try_origin_none r = Inl r"

definition try_origin_never :: "('acc, 'o) origin \<Rightarrow> ('acc, 'o) origin + 't" where
  "try_origin_never r = Inl r"

lemma ensure_signed_Inr_iff [simp]: "ensure_signed o' = Inr t \<longleftrightarrow> o' = system (Signed t)"
  by (cases o' rule: ensure_signed.cases) auto

lemma ensure_signed_Inl_iff:
  "ensure_signed o' = Inl e \<longleftrightarrow> (\<forall>t. o' \<noteq> system (Signed t)) \<and> e = BadOrigin"
  by (cases o' rule: ensure_signed.cases) auto

lemma ensure_root_Inr_iff [simp]: "ensure_root o' = Inr u \<longleftrightarrow> o' = system Root"
  by (cases o' rule: ensure_root.cases) auto

lemma ensure_root_Inl_iff:
  "ensure_root o' = Inl e \<longleftrightarrow> o' \<noteq> system Root \<and> e = BadOrigin"
  by (cases o' rule: ensure_root.cases) auto

section \<open>Storage of the module\<close>

datatype dispatch_class = Normal | Operational

record dispatch_info =
  weight :: u32
  dclass :: dispatch_class
  pays_fee :: bool

datatype phase = ApplyExtrinsic u32 | Finalization

record ('ev, 'hash) event_record =
  phase :: phase
  event :: 'ev
  topics :: "'hash list"

datatype ('err, 'e) outer_event =
    ExtrinsicSuccess dispatch_info
  | ExtrinsicFailed "'err dispatch_error" dispatch_info
  | ModuleEvent 'e

record ('acc, 'hash, 'dig, 'ev) system_state =
  AccountNonce :: "'acc \<rightharpoonup> u32"
  ExtrinsicCount :: "u32 option"
  AllExtrinsicsWeight :: "u32 option"
  AllExtrinsicsLen :: "u32 option"
  BlockHash :: "u32 \<rightharpoonup> 'hash"
  ExtrinsicData :: "u32 \<rightharpoonup> bytes"
  Number :: u32
  ParentHash :: 'hash
  ExtrinsicsRoot :: 'hash
  Digest :: "'dig list"
  Events :: "('ev, 'hash) event_record list"
  EventCount :: u32
  EventTopics :: "'hash \<rightharpoonup> (u32 \<times> u32) list"
  ExtrinsicIndex :: "u32 option"

definition account_nonce :: "('acc, 'hash, 'dig, 'ev) system_state \<Rightarrow> 'acc \<Rightarrow> u32" where
  "account_nonce s who = (case AccountNonce s who of None \<Rightarrow> 0 | Some n \<Rightarrow> n)"

definition all_extrinsics_weight :: "('acc, 'hash, 'dig, 'ev) system_state \<Rightarrow> u32" where
  "all_extrinsics_weight s = (case AllExtrinsicsWeight s of None \<Rightarrow> 0 | Some w \<Rightarrow> w)"

definition all_extrinsics_len :: "('acc, 'hash, 'dig, 'ev) system_state \<Rightarrow> u32" where
  "all_extrinsics_len s = (case AllExtrinsicsLen s of None \<Rightarrow> 0 | Some w \<Rightarrow> w)"

definition extrinsic_count :: "('acc, 'hash, 'dig, 'ev) system_state \<Rightarrow> u32" where
  "extrinsic_count s = (case ExtrinsicCount s of None \<Rightarrow> 0 | Some w \<Rightarrow> w)"

section \<open>Events\<close>

fun append_topics ::
  "'hash list \<Rightarrow> u32 \<Rightarrow> u32 \<Rightarrow> ('hash \<rightharpoonup> (u32 \<times> u32) list) \<Rightarrow> ('hash \<rightharpoonup> (u32 \<times> u32) list)" where
  "append_topics [] block_no event_idx m = m"
| "append_topics (t # ts) block_no event_idx m =
     append_topics ts block_no event_idx
       (m(t \<mapsto> (case m t of None \<Rightarrow> [] | Some xs \<Rightarrow> xs) @ [(block_no, event_idx)]))"

definition deposit_event_indexed ::
  "'hash list \<Rightarrow> 'ev \<Rightarrow> ('acc, 'hash, 'dig, 'ev) system_state \<Rightarrow> ('acc, 'hash, 'dig, 'ev) system_state" where
  "deposit_event_indexed ts ev s =
     (let ph = (case ExtrinsicIndex s of None \<Rightarrow> Finalization | Some c \<Rightarrow> ApplyExtrinsic c);
          er = \<lparr>phase = ph, event = ev, topics = ts\<rparr>;
          old_event_count = EventCount s
      in case checked_add old_event_count 1 of
           None \<Rightarrow> s
         | Some new_event_count \<Rightarrow>
             s\<lparr>EventCount := new_event_count,
               Events := Events s @ [er],
               EventTopics := append_topics ts (Number s) old_event_count (EventTopics s)\<rparr>)"

definition deposit_event ::
  "'ev \<Rightarrow> ('acc, 'hash, 'dig, 'ev) system_state \<Rightarrow> ('acc, 'hash, 'dig, 'ev) system_state" where
  "deposit_event ev s = deposit_event_indexed [] ev s"

text \<open>The log of a block: the counter never disagrees with the list it counts.\<close>

definition events_wf :: "('acc, 'hash, 'dig, 'ev) system_state \<Rightarrow> bool" where
  "events_wf s \<longleftrightarrow> unat (EventCount s) = length (Events s)"

lemma deposit_event_indexed_wf: "events_wf s \<Longrightarrow> events_wf (deposit_event_indexed ts ev s)"
  by (auto simp: events_wf_def deposit_event_indexed_def Let_def word_arith_iff split: option.splits)

lemma deposit_event_fields [frame_simps, simp]:
  "AccountNonce (deposit_event ev s) = AccountNonce s"
  "BlockHash (deposit_event ev s) = BlockHash s"
  "Number (deposit_event ev s) = Number s"
  "ExtrinsicIndex (deposit_event ev s) = ExtrinsicIndex s"
  "AllExtrinsicsWeight (deposit_event ev s) = AllExtrinsicsWeight s"
  "AllExtrinsicsLen (deposit_event ev s) = AllExtrinsicsLen s"
  by (auto simp: deposit_event_def deposit_event_indexed_def Let_def split: option.splits)

section \<open>The life of a block\<close>

definition register_extra_weight_unchecked ::
  "u32 \<Rightarrow> u32 \<Rightarrow> ('acc, 'hash, 'dig, 'ev) system_state \<Rightarrow> ('acc, 'hash, 'dig, 'ev) system_state" where
  "register_extra_weight_unchecked maximum_block_weight w s =
     s\<lparr>AllExtrinsicsWeight :=
         Some (min (saturating_add (all_extrinsics_weight s) w) maximum_block_weight)\<rparr>"

definition initialize ::
  "u32 \<Rightarrow> 'hash \<Rightarrow> 'hash \<Rightarrow> 'dig list \<Rightarrow> ('acc, 'hash, 'dig, 'ev) system_state
    \<Rightarrow> ('acc, 'hash, 'dig, 'ev) system_state" where
  "initialize num parent_hash txs_root digest s =
     s\<lparr>ExtrinsicIndex := Some 0,
       Number := num,
       Digest := digest,
       ParentHash := parent_hash,
       BlockHash := (BlockHash s)(num - 1 \<mapsto> parent_hash),
       ExtrinsicsRoot := txs_root,
       Events := [],
       EventCount := 0,
       EventTopics := Map.empty\<rparr>"

record ('hash, 'dig) header =
  hdr_number :: u32
  hdr_extrinsics_root :: 'hash
  hdr_state_root :: 'hash
  hdr_parent_hash :: 'hash
  hdr_digest :: "'dig list"

text \<open>
  \<open>default_hash\<close> is \<open>Hash::default()\<close>, what a taken storage value reads as afterwards;
  \<open>storage_root\<close> and \<open>changes_root\<close> are the host functions of the same names, the latter
  already wrapped as a digest item.
\<close>

definition finalize ::
  "'hash \<Rightarrow> u32 \<Rightarrow> (('acc, 'hash, 'dig, 'ev) system_state \<Rightarrow> 'hash)
    \<Rightarrow> (('acc, 'hash, 'dig, 'ev) system_state \<Rightarrow> 'hash \<Rightarrow> 'dig option)
    \<Rightarrow> ('acc, 'hash, 'dig, 'ev) system_state
    \<Rightarrow> ('hash, 'dig) header \<times> ('acc, 'hash, 'dig, 'ev) system_state" where
  "finalize default_hash block_hash_count storage_root changes_root s =
     (let num = Number s;
          parent_hash = ParentHash s;
          digest = Digest s;
          extrinsics_root = ExtrinsicsRoot s;
          s1 = s\<lparr>ExtrinsicCount := None, AllExtrinsicsWeight := None, AllExtrinsicsLen := None,
                 Number := 0, ParentHash := default_hash, Digest := [],
                 ExtrinsicsRoot := default_hash\<rparr>;
          s2 = (if num > block_hash_count
                then let to_remove = num - block_hash_count - 1
                     in if to_remove \<noteq> 0 then s1\<lparr>BlockHash := (BlockHash s1)(to_remove := None)\<rparr> else s1
                else s1);
          root = storage_root s2;
          digest' = (case changes_root s2 parent_hash of None \<Rightarrow> digest | Some item \<Rightarrow> digest @ [item])
      in (\<lparr>hdr_number = num, hdr_extrinsics_root = extrinsics_root, hdr_state_root = root,
           hdr_parent_hash = parent_hash, hdr_digest = digest'\<rparr>, s2))"

definition deposit_log ::
  "'dig \<Rightarrow> ('acc, 'hash, 'dig, 'ev) system_state \<Rightarrow> ('acc, 'hash, 'dig, 'ev) system_state" where
  "deposit_log item s = s\<lparr>Digest := Digest s @ [item]\<rparr>"

definition inc_account_nonce ::
  "'acc \<Rightarrow> ('acc, 'hash, 'dig, 'ev) system_state \<Rightarrow> ('acc, 'hash, 'dig, 'ev) system_state" where
  "inc_account_nonce who s = s\<lparr>AccountNonce := (AccountNonce s)(who \<mapsto> account_nonce s who + 1)\<rparr>"

definition note_extrinsic ::
  "bytes \<Rightarrow> ('acc, 'hash, 'dig, 'ev) system_state \<Rightarrow> ('acc, 'hash, 'dig, 'ev) system_state" where
  "note_extrinsic encoded_xt s =
     s\<lparr>ExtrinsicData := (ExtrinsicData s)
         ((case ExtrinsicIndex s of None \<Rightarrow> 0 | Some i \<Rightarrow> i) \<mapsto> encoded_xt)\<rparr>"

definition note_applied_extrinsic ::
  "'err dispatch_error + unit \<Rightarrow> dispatch_info \<Rightarrow> ('acc, 'hash, 'dig, ('err, 'e) outer_event) system_state
    \<Rightarrow> ('acc, 'hash, 'dig, ('err, 'e) outer_event) system_state" where
  "note_applied_extrinsic r info s =
     (let s1 = deposit_event (case r of Inr _ \<Rightarrow> ExtrinsicSuccess info
                                      | Inl err \<Rightarrow> ExtrinsicFailed err info) s;
          next_extrinsic_index = (case ExtrinsicIndex s1 of None \<Rightarrow> 0 | Some i \<Rightarrow> i) + 1
      in s1\<lparr>ExtrinsicIndex := Some next_extrinsic_index\<rparr>)"

definition note_finished_extrinsics ::
  "('acc, 'hash, 'dig, 'ev) system_state \<Rightarrow> ('acc, 'hash, 'dig, 'ev) system_state" where
  "note_finished_extrinsics s =
     s\<lparr>ExtrinsicIndex := None,
       ExtrinsicCount := Some (case ExtrinsicIndex s of None \<Rightarrow> 0 | Some i \<Rightarrow> i)\<rparr>"

fun take_extrinsic_data :: "u32 list \<Rightarrow> (u32 \<rightharpoonup> bytes) \<Rightarrow> bytes list \<times> (u32 \<rightharpoonup> bytes)" where
  "take_extrinsic_data [] m = ([], m)"
| "take_extrinsic_data (i # is) m =
     (let (xs, m') = take_extrinsic_data is (m(i := None))
      in ((case m i of None \<Rightarrow> [] | Some b \<Rightarrow> b) # xs, m'))"

definition derive_extrinsics ::
  "(bytes list \<Rightarrow> 'hash) \<Rightarrow> ('acc, 'hash, 'dig, 'ev) system_state
    \<Rightarrow> ('acc, 'hash, 'dig, 'ev) system_state" where
  "derive_extrinsics extrinsics_data_root s =
     (let (extrinsics, m) =
            take_extrinsic_data (map of_nat [0..<unat (extrinsic_count s)]) (ExtrinsicData s)
      in s\<lparr>ExtrinsicData := m, ExtrinsicsRoot := extrinsics_data_root extrinsics\<rparr>)"

section \<open>Raw storage dispatchables\<close>

text \<open>
  These write to the raw storage of the chain.  \<open>encode_u64\<close> is the codec's encoding of a \<open>u64\<close>.
\<close>

definition CODE :: bytes where
  "CODE = map of_char '':code''"

definition HEAP_PAGES :: bytes where
  "HEAP_PAGES = map of_char '':heappages''"

definition fill_block :: "('acc, 'o) origin \<Rightarrow> 'e dispatch_error + unit" where
  "fill_block origin = ensure_root origin"

definition remark :: "('acc, 'o) origin \<Rightarrow> bytes \<Rightarrow> 'e dispatch_error + unit" where
  "remark origin text = (case ensure_signed origin of Inl e \<Rightarrow> Inl e | Inr _ \<Rightarrow> Inr ())"

definition set_heap_pages ::
  "(u64 \<Rightarrow> bytes) \<Rightarrow> ('acc, 'o) origin \<Rightarrow> u64 \<Rightarrow> raw_storage \<Rightarrow> ('e dispatch_error + unit) \<times> raw_storage" where
  "set_heap_pages encode_u64 origin pages st =
     (case ensure_root origin of
        Inl e \<Rightarrow> (Inl e, st)
      | Inr _ \<Rightarrow> (Inr (), unhashed_put_raw HEAP_PAGES (encode_u64 pages) st))"

definition set_code ::
  "('acc, 'o) origin \<Rightarrow> bytes \<Rightarrow> raw_storage \<Rightarrow> ('e dispatch_error + unit) \<times> raw_storage" where
  "set_code origin new st =
     (case ensure_root origin of
        Inl e \<Rightarrow> (Inl e, st)
      | Inr _ \<Rightarrow> (Inr (), unhashed_put_raw CODE new st))"

definition set_storage ::
  "('acc, 'o) origin \<Rightarrow> (bytes \<times> bytes) list \<Rightarrow> raw_storage
    \<Rightarrow> ('e dispatch_error + unit) \<times> raw_storage" where
  "set_storage origin items st =
     (case ensure_root origin of
        Inl e \<Rightarrow> (Inl e, st)
      | Inr _ \<Rightarrow> (Inr (), fold (\<lambda>i st. unhashed_put_raw (fst i) (snd i) st) items st))"

definition kill_storage ::
  "('acc, 'o) origin \<Rightarrow> bytes list \<Rightarrow> raw_storage \<Rightarrow> ('e dispatch_error + unit) \<times> raw_storage" where
  "kill_storage origin keys st =
     (case ensure_root origin of
        Inl e \<Rightarrow> (Inl e, st)
      | Inr _ \<Rightarrow> (Inr (), fold unhashed_kill keys st))"

definition kill_prefix ::
  "('acc, 'o) origin \<Rightarrow> bytes \<Rightarrow> raw_storage \<Rightarrow> ('e dispatch_error + unit) \<times> raw_storage" where
  "kill_prefix origin prefix st =
     (case ensure_root origin of
        Inl e \<Rightarrow> (Inl e, st)
      | Inr _ \<Rightarrow> (Inr (), unhashed_kill_prefix prefix st))"

end
