(* ===== verification/Offchain_Storage.thy ===== *)
theory Offchain_Storage
  imports Frame_System
begin

text \<open>
  The offchain-storage module (\<open>frame/offchain-storage/src/lib.rs\<close>).  The chain keeps one
  \<open>UserData\<close> entry per data id; the data itself lives in an external store that the runtime
  reaches through the trait \<open>ExternalStorage\<close>.  The trait is a record of three functions on the
  store's own state; a function that panics returns \<open>None\<close>, and then the dispatchable does not
  return either.
\<close>

section \<open>Data\<close>

datatype access = Avoid | Read | Write

definition access_default :: access where
  "access_default = Read"

fun access_value :: "access \<Rightarrow> u8" where
  "access_value Avoid = 0"
| "access_value Read = 1"
| "access_value Write = 2"

record 'acc user_data =
  author :: 'acc
  access :: access

datatype offchain_event = GetData bytes

datatype offchain_error = PermissionDenied | ExternalError | NoneData

record 'x external_storage =
  es_get :: "bytes \<Rightarrow> 'x \<Rightarrow> (bytes \<times> 'x) option"
  es_set :: "bytes \<Rightarrow> bytes \<Rightarrow> 'x \<Rightarrow> 'x option"
  es_delete :: "bytes \<Rightarrow> 'x \<Rightarrow> 'x option"

record ('acc, 'hash, 'dig, 'x) offchain_state =
  Data :: "bytes \<rightharpoonup> 'acc user_data"
  ext :: 'x
  sys :: "('acc, 'hash, 'dig, offchain_event) system_state"

type_synonym ('acc, 'hash, 'dig, 'x) offchain_result =
  "((offchain_error dispatch_error + unit) \<times> ('acc, 'hash, 'dig, 'x) offchain_state) option"

section \<open>Operations\<close>

definition default_user_data :: "'acc \<Rightarrow> 'acc user_data" where
  "default_user_data default_account = \<lparr>author = default_account, access = access_default\<rparr>"

definition get_data ::
  "'acc \<Rightarrow> ('acc, 'hash, 'dig, 'x) offchain_state \<Rightarrow> bytes \<Rightarrow> 'acc user_data" where
  "get_data default_account s data_id =
     (case Data s data_id of None \<Rightarrow> default_user_data default_account | Some d \<Rightarrow> d)"

definition check_op_access :: "'acc \<Rightarrow> 'acc user_data \<Rightarrow> access \<Rightarrow> bool" where
  "check_op_access user data op \<longleftrightarrow>
     access_value (access data) \<ge> access_value op \<or> user = author data"

definition get_external_storage ::
  "'x external_storage \<Rightarrow> bytes \<Rightarrow> ('acc, 'hash, 'dig, 'x) offchain_state
    \<Rightarrow> (bytes \<times> ('acc, 'hash, 'dig, 'x) offchain_state) option" where
  "get_external_storage ES data_id s =
     (case es_get ES data_id (ext s) of None \<Rightarrow> None | Some (v, x) \<Rightarrow> Some (v, s\<lparr>ext := x\<rparr>))"

definition set_external_storage ::
  "'x external_storage \<Rightarrow> bytes \<Rightarrow> bytes \<Rightarrow> ('acc, 'hash, 'dig, 'x) offchain_state
    \<Rightarrow> ('acc, 'hash, 'dig, 'x) offchain_state option" where
  "set_external_storage ES data_id data s =
     (case es_set ES data_id data (ext s) of None \<Rightarrow> None | Some x \<Rightarrow> Some (s\<lparr>ext := x\<rparr>))"

definition delete_external_storage ::
  "'x external_storage \<Rightarrow> bytes \<Rightarrow> ('acc, 'hash, 'dig, 'x) offchain_state
    \<Rightarrow> ('acc, 'hash, 'dig, 'x) offchain_state option" where
  "delete_external_storage ES data_id s =
     (case es_delete ES data_id (ext s) of None \<Rightarrow> None | Some x \<Rightarrow> Some (s\<lparr>ext := x\<rparr>))"

definition read_data ::
  "'x external_storage \<Rightarrow> 'acc \<Rightarrow> ('acc, 'o) origin \<Rightarrow> bytes
    \<Rightarrow> ('acc, 'hash, 'dig, 'x) offchain_state \<Rightarrow> ('acc, 'hash, 'dig, 'x) offchain_result" where
  "read_data ES default_account origin data_id s =
     (case ensure_signed origin of
        Inl e \<Rightarrow> Some (Inl e, s)
      | Inr user \<Rightarrow>
          if Data s data_id \<noteq> None then
            let data = get_data default_account s data_id in
            if \<not> check_op_access user data Read then Some (Inl (Module PermissionDenied), s)
            else (case get_external_storage ES data_id s of
                    None \<Rightarrow> None
                  | Some (v, s') \<Rightarrow> Some (Inr (), s'\<lparr>sys := deposit_event (GetData v) (sys s')\<rparr>))
          else Some (Inl (Module NoneData), s))"

definition write_data ::
  "'x external_storage \<Rightarrow> 'acc \<Rightarrow> ('acc, 'o) origin \<Rightarrow> bytes \<Rightarrow> bytes
    \<Rightarrow> ('acc, 'hash, 'dig, 'x) offchain_state \<Rightarrow> ('acc, 'hash, 'dig, 'x) offchain_result" where
  "write_data ES default_account origin data_id data s =
     (case ensure_signed origin of
        Inl e \<Rightarrow> Some (Inl e, s)
      | Inr user \<Rightarrow>
          let entry = get_data default_account s data_id in
          if \<not> check_op_access user entry Read then Some (Inl (Module PermissionDenied), s)
          else (case set_external_storage ES data_id data s of
                  None \<Rightarrow> None
                | Some s' \<Rightarrow> Some (Inr (), s'\<lparr>Data := (Data s')(data_id \<mapsto> entry)\<rparr>)))"

definition delete_data ::
  "'x external_storage \<Rightarrow> 'acc \<Rightarrow> ('acc, 'o) origin \<Rightarrow> bytes
    \<Rightarrow> ('acc, 'hash, 'dig, 'x) offchain_state \<Rightarrow> ('acc, 'hash, 'dig, 'x) offchain_result" where
  "delete_data ES default_account origin data_id s =
     (case ensure_signed origin of
        Inl e \<Rightarrow> Some (Inl e, s)
      | Inr user \<Rightarrow>
          if Data s data_id \<noteq> None then
            let data = get_data default_account s data_id in
            if \<not> check_op_access user data Read then Some (Inl (Module PermissionDenied), s)
            else (case delete_external_storage ES data_id s of
                    None \<Rightarrow> None
                  | Some s' \<Rightarrow> Some (Inr (), s'\<lparr>Data := (Data s')(data_id := None)\<rparr>))
          else Some (Inl (Module NoneData), s))"

lemmas offchain_defs = read_data_def write_data_def delete_data_def get_external_storage_def
  set_external_storage_def delete_external_storage_def get_data_def Let_def

section \<open>Calls and reachable states\<close>

datatype offchain_call = read_data_call bytes | write_data_call bytes bytes | delete_data_call bytes

fun dispatch ::
  "'x external_storage \<Rightarrow> 'acc \<Rightarrow> ('acc, 'o) origin \<Rightarrow> offchain_call
    \<Rightarrow> ('acc, 'hash, 'dig, 'x) offchain_state \<Rightarrow> ('acc, 'hash, 'dig, 'x) offchain_result" where
  "dispatch ES da origin (read_data_call i) s = read_data ES da origin i s"
| "dispatch ES da origin (write_data_call i v) s = write_data ES da origin i v s"
| "dispatch ES da origin (delete_data_call i) s = delete_data ES da origin i s"

text \<open>A panicking call is no step: the block it is in is not produced.\<close>

inductive offchain_step ::
  "'x external_storage \<Rightarrow> 'acc \<Rightarrow> ('acc, 'hash, 'dig, 'x) offchain_state
    \<Rightarrow> ('acc, 'hash, 'dig, 'x) offchain_state \<Rightarrow> bool" for ES da where
  call: "dispatch ES da (origin :: ('acc, unit) origin) c s = Some (r, t) \<Longrightarrow> offchain_step ES da s t"

definition offchain_init :: "('acc, 'hash, 'dig, 'x) offchain_state \<Rightarrow> bool" where
  "offchain_init s \<longleftrightarrow> Data s = Map.empty"

inductive_cases offchain_stepE: "offchain_step ES da s t"

section \<open>What every call keeps\<close>

text \<open>No dispatchable ever writes anything but the default entry.\<close>

definition only_defaults :: "'acc \<Rightarrow> ('acc, 'hash, 'dig, 'x) offchain_state \<Rightarrow> bool" where
  "only_defaults da s \<longleftrightarrow> (\<forall>i d. Data s i = Some d \<longrightarrow> d = default_user_data da)"

lemma only_defaults_get_data: "only_defaults da s \<Longrightarrow> get_data da s i = default_user_data da"
  by (auto simp: only_defaults_def get_data_def split: option.splits)

lemma dispatch_only_defaults:
  assumes inv: "only_defaults da s" and run: "dispatch ES da origin c s = Some (r, t)"
  shows "only_defaults da t"
proof -
  have "Data t = Data s \<or> (\<exists>i. Data t = (Data s)(i \<mapsto> get_data da s i)) \<or> (\<exists>i. Data t = (Data s)(i := None))"
    using run by (cases c) (auto simp: offchain_defs split: sum.splits if_splits option.splits prod.splits)
  then show ?thesis
    using inv only_defaults_get_data [OF inv]
    by (auto simp: only_defaults_def split: if_splits)
qed

interpretation offchain: guarded_system offchain_init "offchain_step ES da" "only_defaults da" for ES da
proof
  fix s t :: "('a, 'b, 'c, 'd) offchain_state" and ES :: "'d external_storage" and da
  show "offchain_init s \<Longrightarrow> only_defaults da s"
    by (simp add: offchain_init_def only_defaults_def)
  show "only_defaults da s \<Longrightarrow> offchain_step ES da s t \<Longrightarrow> only_defaults da t"
    by (auto elim!: offchain_stepE intro: dispatch_only_defaults)
qed

section \<open>The external store\<close>






text \<open>
  The store of the module's test suite, files on disk.  The operating system is a parameter: \<open>resolve\<close>
  is the file a name denotes, nothing for a name that is not UTF-8 or that the system refuses, and
  several names may denote one file; \<open>written\<close> is the number of bytes one \<open>write\<close> call takes of a value,
  nothing when it fails.  Opening or removing a missing file makes \<open>unwrap\<close> panic.  Links between
  files are left out, the files are touched by these three functions only, and reading or removing a
  file that is there does not fail.
\<close>

record 'f file_system =
  resolve :: "bytes \<Rightarrow> 'f option"
  written :: "'f \<Rightarrow> bytes \<Rightarrow> nat option"

type_synonym 'f files = "'f \<rightharpoonup> bytes"

definition db_get :: "'f file_system \<Rightarrow> bytes \<Rightarrow> 'f files \<Rightarrow> (bytes \<times> 'f files) option" where
  "db_get os key fs =
     (case resolve os key of
        None \<Rightarrow> None
      | Some f \<Rightarrow> (case fs f of None \<Rightarrow> None | Some v \<Rightarrow> Some (v, fs)))"

definition db_set :: "'f file_system \<Rightarrow> bytes \<Rightarrow> bytes \<Rightarrow> 'f files \<Rightarrow> 'f files option" where
  "db_set os key value fs =
     (case resolve os key of
        None \<Rightarrow> None
      | Some f \<Rightarrow> (case written os f value of None \<Rightarrow> None | Some n \<Rightarrow> Some (fs(f \<mapsto> take n value))))"

definition db_delete :: "'f file_system \<Rightarrow> bytes \<Rightarrow> 'f files \<Rightarrow> 'f files option" where
  "db_delete os key fs =
     (case resolve os key of
        None \<Rightarrow> None
      | Some f \<Rightarrow> (case fs f of None \<Rightarrow> None | Some _ \<Rightarrow> Some (fs(f := None))))"

definition DB :: "'f file_system \<Rightarrow> 'f files external_storage" where
  "DB os = \<lparr>es_get = db_get os, es_set = db_set os, es_delete = db_delete os\<rparr>"





section \<open>Properties\<close>

text \<open>The access table of the README: the author may do anything, others what the level allows.\<close>

fun documented_allows :: "'acc \<Rightarrow> 'acc user_data \<Rightarrow> access \<Rightarrow> bool" where
  "documented_allows u d Avoid = True"
| "documented_allows u d Read = (u = author d \<or> access d = Read \<or> access d = Write)"
| "documented_allows u d Write = (u = author d \<or> access d = Write)"

lemma check_op_access_documented: "check_op_access u d op = documented_allows u d op"
  by (cases op; cases "access d") (auto simp: check_op_access_def word_le_nat_alt)

lemma permission_denied_iff:
  assumes "Data s i = Some d"
  shows "(\<exists>t. read_data ES da (system (Signed u)) i s = Some (Inl (Module PermissionDenied), t))
           = (\<not> documented_allows u d Read)"
    and "(\<exists>t. write_data ES da (system (Signed u)) i v s = Some (Inl (Module PermissionDenied), t))
           = (\<not> documented_allows u d Read)"
    and "(\<exists>t. delete_data ES da (system (Signed u)) i s = Some (Inl (Module PermissionDenied), t))
           = (\<not> documented_allows u d Read)"
  using assms
  by (auto simp: offchain_defs check_op_access_documented split: option.splits)



text \<open>
  Two names for one file defeat the file store: with data written under both, deleting one id leaves
  the other in the chain, and reading that one panics.
\<close>

theorem offchain_alias_panics:
  assumes "i \<noteq> j" and "resolve os i = Some f" and "resolve os j = Some f"
    and "written os f v = Some n" and "written os f w = Some m" and "offchain_init s"
  shows "\<exists>s1 s2 s3. write_data (DB os) da (system (Signed u)) i v s = Some (Inr (), s1)
    \<and> write_data (DB os) da (system (Signed u)) j w s1 = Some (Inr (), s2)
    \<and> delete_data (DB os) da (system (Signed u)) i s2 = Some (Inr (), s3)
    \<and> read_data (DB os) da (system (Signed u)) j s3 = None"
  using assms
  by (simp add: offchain_defs offchain_init_def check_op_access_def default_user_data_def access_default_def
      DB_def db_set_def db_get_def db_delete_def)

text \<open>
  C13 (offchain_no_ownership): in every state the calls can lead to, with any store, no entry has
  an author of its own: each entry is the default one, and so no read, write or delete by a
  signed account is ever refused for lack of permission.
\<close>

theorem offchain_no_ownership:
  assumes "offchain_init s0" and "(offchain_step ES da)\<^sup>*\<^sup>* s0 s"
  shows "(Data s i = Some d \<longrightarrow> author d = da \<and> access d = Read)
    \<and> dispatch ES da (system (Signed u)) c s \<noteq> Some (Inl (Module PermissionDenied), t)"
proof -
  have inv: "only_defaults da s" by (rule offchain.inv_reachable [OF assms])
  then have "Data s i = Some d \<longrightarrow> author d = da \<and> access d = Read"
    by (force simp: only_defaults_def default_user_data_def access_default_def)
  moreover have "check_op_access u (get_data da s j) Read" for j
    by (simp add: only_defaults_get_data [OF inv] check_op_access_def default_user_data_def
        access_default_def)
  then have "dispatch ES da (system (Signed u)) c s \<noteq> Some (Inl (Module PermissionDenied), t)"
    by (cases c) (auto simp: read_data_def write_data_def delete_data_def Let_def split: option.splits)
  ultimately show ?thesis by blast
qed

text \<open>
  C14 (offchain_read_level_may_write): the module refuses a write or a delete in exactly the cases
  in which it refuses a read.  An entry at level Read can thus be overwritten and deleted by
  accounts that the documented access table allows to read only.
\<close>

theorem offchain_read_level_may_write:
  assumes "Data s i = Some d"
  shows "((\<exists>t. write_data ES da (system (Signed u)) i v s = Some (Inl (Module PermissionDenied), t))
            \<longleftrightarrow> (\<exists>t. read_data ES da (system (Signed u)) i s = Some (Inl (Module PermissionDenied), t)))
    \<and> ((\<exists>t. delete_data ES da (system (Signed u)) i s = Some (Inl (Module PermissionDenied), t))
            \<longleftrightarrow> \<not> documented_allows u d Read)
    \<and> (access d = Read \<and> u \<noteq> author d \<longrightarrow> \<not> documented_allows u d Write
         \<and> (\<forall>t. write_data ES da (system (Signed u)) i v s \<noteq> Some (Inl (Module PermissionDenied), t)))"
proof -
  note iff = permission_denied_iff(1) [OF assms, of ES da u]
    permission_denied_iff(2) [OF assms, of ES da u v] permission_denied_iff(3) [OF assms, of ES da u]
  show ?thesis
    unfolding iff using iff(2) by auto
qed

section \<open>Witnesses\<close>

definition sys0 :: "(nat, nat, nat, 'ev) system_state" where
  "sys0 = \<lparr>AccountNonce = Map.empty, ExtrinsicCount = None, AllExtrinsicsWeight = None,
     AllExtrinsicsLen = None, BlockHash = [0 \<mapsto> 69], ExtrinsicData = Map.empty, Number = 1,
     ParentHash = 69, ExtrinsicsRoot = 0, Digest = [], Events = [], EventCount = 0,
     EventTopics = Map.empty, ExtrinsicIndex = Some 0\<rparr>"

text \<open>A disk on which a leading \<open>./\<close> does not matter, and which takes every value as a whole.\<close>

definition disk :: "bytes file_system" where
  "disk = \<lparr>resolve = (\<lambda>k. if k = [] then None else Some (if take 2 k = [46, 47] then drop 2 k else k)),
     written = (\<lambda>f v. Some (length v))\<rparr>"

definition oc0 :: "(nat, nat, nat, bytes files) offchain_state" where
  "oc0 = \<lparr>Data = Map.empty, ext = Map.empty, sys = sys0\<rparr>"

definition oc1 :: "(nat, nat, nat, bytes files) offchain_state" where
  "oc1 = \<lparr>Data = [[97] \<mapsto> \<lparr>author = 0, access = Read\<rparr>], ext = [[97] \<mapsto> [42]], sys = sys0\<rparr>"

lemma disk_a: "resolve disk [97] = Some [97]" "written disk f v = Some (length v)"
  by (simp_all add: disk_def)

lemma oc_write: "write_data (DB disk) 0 (system (Signed 7)) [97] [42] oc0 = Some (Inr (), oc1)"
  by (simp add: oc0_def oc1_def offchain_defs check_op_access_def default_user_data_def
      access_default_def DB_def db_set_def disk_a)

lemma oc_step: "dispatch (DB disk) 0 (system (Signed 7) :: (nat, unit) origin) (write_data_call [97] [42]) oc0 = Some (Inr (), oc1)"
  by (simp add: oc_write)

lemma oc_reach: "(offchain_step (DB disk) 0)\<^sup>*\<^sup>* oc0 oc1"
  using offchain_step.call [OF oc_step] by blast


lemma oc_init: "offchain_init oc0"
  by (simp add: oc0_def offchain_init_def)



lemma alias_reads_missing_file:
  "\<exists>s1 s2 s3. write_data (DB disk) 0 (system (Signed 7)) [97] [1] oc0 = Some (Inr (), s1)
    \<and> write_data (DB disk) 0 (system (Signed 7)) [46, 47, 97] [2] s1 = Some (Inr (), s2)
    \<and> delete_data (DB disk) 0 (system (Signed 7)) [97] s2 = Some (Inr (), s3)
    \<and> read_data (DB disk) 0 (system (Signed 7)) [46, 47, 97] s3 = None"
  by (rule offchain_alias_panics [OF _ disk_a(1) _ disk_a(2) disk_a(2) oc_init]) (simp_all add: disk_def)

theorem offchain_no_ownership_witness:
  "dispatch (DB disk) 0 (system (Signed 3) :: (nat, unit) origin)
     (delete_data_call [97]) oc1 \<noteq> Some (Inl (Module PermissionDenied), oc1)"
  using offchain_no_ownership [OF oc_init oc_reach] by blast

theorem offchain_read_level_may_write_witness:
  "\<not> documented_allows (3::nat) \<lparr>author = 0, access = Read\<rparr> Write
   \<and> write_data (DB disk) 0 (system (Signed 3)) [97] [5] oc1
      \<noteq> Some (Inl (Module PermissionDenied), oc1)"
proof -
  have d: "Data oc1 [97] = Some \<lparr>author = 0, access = Read\<rparr>" by (simp add: oc1_def)
  from offchain_read_level_may_write [OF d, of "DB disk" 0 3 "[5]"] show ?thesis by auto
qed

end
