(* ===== verification/Storage_Maps.thy ===== *)
theory Storage_Maps
  imports Raw_Storage
begin

text \<open>
  Storage maps in use.  A program is a sequence of operations on two storage maps over the one raw
  storage, in any interleaving.  Every answer it gets is the answer of two separate finite maps.
\<close>

section \<open>Operations and their answers\<close>

datatype ('k, 'v, 'q, 'r) map_op =
    Get 'k | Exists 'k | Insert 'k 'v | Remove 'k | Take 'k | Swap 'k 'k | Mutate 'k "'q \<Rightarrow> 'r \<times> 'q"

datatype ('q, 'r) map_answer = Query 'q | Present bool | Done | Returned 'r

fun storage_op ::
  "('k, 'v, 'q) map_format \<Rightarrow> ('k, 'v, 'q, 'r) map_op \<Rightarrow> raw_storage \<Rightarrow> ('q, 'r) map_answer \<times> raw_storage" where
  "storage_op f (Get k) st = (Query (map_get f k st), st)"
| "storage_op f (Exists k) st = (Present (map_exists f k st), st)"
| "storage_op f (Insert k v) st = (Done, map_insert f k v st)"
| "storage_op f (Remove k) st = (Done, map_remove f k st)"
| "storage_op f (Take k) st = apfst Query (map_take f k st)"
| "storage_op f (Swap k l) st = (Done, map_swap f k l st)"
| "storage_op f (Mutate k h) st = apfst Returned (map_mutate f k h st)"

text \<open>The same operations on a finite map; of the format only the query conversions are used.\<close>

fun reference_op ::
  "('k, 'v, 'q) map_format \<Rightarrow> ('k, 'v, 'q, 'r) map_op \<Rightarrow> ('k \<rightharpoonup> 'v) \<Rightarrow> ('q, 'r) map_answer \<times> ('k \<rightharpoonup> 'v)" where
  "reference_op f (Get k) m = (Query (from_optional f (m k)), m)"
| "reference_op f (Exists k) m = (Present (k \<in> dom m), m)"
| "reference_op f (Insert k v) m = (Done, m(k \<mapsto> v))"
| "reference_op f (Remove k) m = (Done, m(k := None))"
| "reference_op f (Take k) m = (Query (from_optional f (m k)), m(k := None))"
| "reference_op f (Swap k l) m = (Done, m(k := m l, l := m k))"
| "reference_op f (Mutate k h) m =
     (case h (from_optional f (m k)) of (r, q) \<Rightarrow> (Returned r, m(k := to_optional f q)))"

fun reference_run ::
  "('k, 'v, 'q) map_format \<Rightarrow> ('k, 'v, 'q, 'r) map_op list \<Rightarrow> ('k \<rightharpoonup> 'v) \<Rightarrow> ('q, 'r) map_answer list \<times> ('k \<rightharpoonup> 'v)" where
  "reference_run f [] m = ([], m)"
| "reference_run f (c # cs) m =
     (let (a, m1) = reference_op f c m; (as, m2) = reference_run f cs m1 in (a # as, m2))"

text \<open>A program on two maps: left operations go to the first, right ones to the second.\<close>

fun storage_run ::
  "('k, 'v, 'q) map_format \<Rightarrow> ('l, 'w, 'p) map_format
    \<Rightarrow> (('k, 'v, 'q, 'r) map_op + ('l, 'w, 'p, 's) map_op) list \<Rightarrow> raw_storage
    \<Rightarrow> (('q, 'r) map_answer + ('p, 's) map_answer) list \<times> raw_storage" where
  "storage_run f g [] st = ([], st)"
| "storage_run f g (Inl c # cs) st =
     (let (a, st1) = storage_op f c st; (as, st2) = storage_run f g cs st1 in (Inl a # as, st2))"
| "storage_run f g (Inr c # cs) st =
     (let (a, st1) = storage_op g c st; (as, st2) = storage_run f g cs st1 in (Inr a # as, st2))"

fun lefts :: "('a + 'b) list \<Rightarrow> 'a list" where
  "lefts [] = []"
| "lefts (Inl a # xs) = a # lefts xs"
| "lefts (Inr b # xs) = lefts xs"

fun rights :: "('a + 'b) list \<Rightarrow> 'b list" where
  "rights [] = []"
| "rights (Inl a # xs) = rights xs"
| "rights (Inr b # xs) = b # rights xs"

section \<open>One operation\<close>

text \<open>What a map has stored can be decoded, so that a present key has a value.\<close>

definition decodable :: "('k, 'v, 'q) map_format \<Rightarrow> raw_storage \<Rightarrow> bool" where
  "decodable f st \<longleftrightarrow> (\<forall>k b. st (storage_map_final_key f k) = Some b \<longrightarrow> dec_val f b \<noteq> None)"

lemma storage_op_decodable:
  assumes "map_format_ok f" and "decodable f st"
  shows "decodable f (snd (storage_op f c st))"
  using assms
  by (cases c)
    (auto simp: decodable_def map_op_defs map_codec final_key_eq_iff split: option.splits prod.splits if_splits)

lemma storage_op_refines:
  assumes "map_format_ok f" and "decodable f st"
  shows "(fst (storage_op f c st), map_abs f (snd (storage_op f c st))) = reference_op f c (map_abs f st)"
proof (cases c)
  case (Exists k)
  have "map_exists f k st \<longleftrightarrow> map_abs f st k \<noteq> None"
    using assms(2) by (auto simp: decodable_def map_exists_def map_abs_def unhashed_defs split: option.splits)
  then show ?thesis using Exists by (simp add: dom_def)
qed (use assms(1) in \<open>simp_all add: map_get_abs map_abs_insert map_abs_remove map_abs_take map_abs_swap map_abs_mutate
      split: prod.split\<close>)

lemma map_disjoint_sym: "map_disjoint f g \<Longrightarrow> map_disjoint g f"
  by (auto simp: map_disjoint_def)

lemma storage_op_frame:
  assumes "map_format_ok f" and "map_disjoint f g"
  shows "snd (storage_op f c st) (storage_map_final_key g l) = st (storage_map_final_key g l)"
proof -
  have "storage_map_final_key g l \<noteq> storage_map_final_key f k" for k
    using map_disjoint_keys [OF assms] by metis
  then show ?thesis by (cases c) (auto simp: map_op_defs split: option.splits prod.splits)
qed

lemma storage_op_other:
  assumes "map_format_ok f" and "map_disjoint f g"
  shows "map_abs g (snd (storage_op f c st)) = map_abs g st" "decodable g (snd (storage_op f c st)) = decodable g st"
  by (simp_all add: fun_eq_iff map_abs_def unhashed_get_def decodable_def storage_op_frame [OF assms])

section \<open>Programs\<close>

lemma storage_run_refines:
  assumes ok: "map_format_ok f" "map_format_ok g" and dis: "map_disjoint f g"
    and "decodable f st" and "decodable g st" and "storage_run f g cs st = (as, st')"
  shows "reference_run f (lefts cs) (map_abs f st) = (lefts as, map_abs f st')
    \<and> reference_run g (rights cs) (map_abs g st) = (rights as, map_abs g st')"
  using assms(4-6)
proof (induction cs arbitrary: st as)
  case (Cons c cs)
  show ?case
  proof (cases c)
    case (Inl x)
    obtain a st1 where op: "storage_op f x st = (a, st1)" by fastforce
    obtain bs where run: "storage_run f g cs st1 = (bs, st')" and as: "as = Inl a # bs"
      using Cons.prems(3) by (auto simp: Inl op split: prod.splits)
    have "map_abs g st1 = map_abs g st" "decodable g st1" "decodable f st1"
      using storage_op_other [OF ok(1) dis, of x st] storage_op_decodable [OF ok(1) Cons.prems(1), of x] Cons.prems(2)
      by (simp_all add: op)
    with Cons.IH [OF _ _ run] storage_op_refines [OF ok(1) Cons.prems(1), of x, symmetric] show ?thesis
      by (simp add: Inl as op)
  next
    case (Inr x)
    obtain a st1 where op: "storage_op g x st = (a, st1)" by fastforce
    obtain bs where run: "storage_run f g cs st1 = (bs, st')" and as: "as = Inr a # bs"
      using Cons.prems(3) by (auto simp: Inr op split: prod.splits)
    have "map_abs f st1 = map_abs f st" "decodable f st1" "decodable g st1"
      using storage_op_other [OF ok(2) map_disjoint_sym [OF dis], of x st] storage_op_decodable [OF ok(2) Cons.prems(2), of x] Cons.prems(1)
      by (simp_all add: op)
    with Cons.IH [OF _ _ run] storage_op_refines [OF ok(2) Cons.prems(2), of x, symmetric] show ?thesis
      by (simp add: Inr as op)
  qed
qed simp

text \<open>
  C18 (storage_maps_refine): take two storage maps whose prefixes hash differently, with hashers that
  separate the keys and codecs that decode what they encode.  Run any interleaving of operations on
  them over one raw storage that starts empty: lookups, existence tests, insertions, removals, takes,
  swaps and mutations with any closure.  Each map's answers and its final contents are those of a
  finite map of its own, on which its operations alone are run.
\<close>

theorem storage_maps_refine:
  assumes "map_format_ok f" and "map_format_ok g" and "map_disjoint f g"
    and "storage_run f g cs Map.empty = (as, st)"
  shows "reference_run f (lefts cs) Map.empty = (lefts as, map_abs f st)
    \<and> reference_run g (rights cs) Map.empty = (rights as, map_abs g st)"
proof -
  have "decodable f Map.empty" "decodable g Map.empty" by (simp_all add: decodable_def)
  moreover have "map_abs f Map.empty = Map.empty" "map_abs g Map.empty = Map.empty"
    by (simp_all add: fun_eq_iff map_abs_def unhashed_get_def)
  ultimately show ?thesis using storage_run_refines [OF assms(1-3) _ _ assms(4)] by simp
qed

section \<open>Witnesses\<close>

theorem storage_maps_refine_witness:
  "let cs = [Inl (Insert 3 9), Inr (Insert 3 7), Inl (Swap 3 4), Inr (Exists 4), Inl (Get 4),
             Inr (Mutate 3 (\<lambda>q. (q, None))), Inr (Exists 3)]
   in lefts (fst (storage_run (format0 [2]) (format0 [5]) cs Map.empty))
        = ([Done, Done, Query (Some 9)] :: (u8 option, unit) map_answer list)
    \<and> rights (fst (storage_run (format0 [2]) (format0 [5]) cs Map.empty))
        = [Done, Present False, Returned (Some 7), Present False]"
proof -
  let ?cs = "[Inl (Insert 3 9), Inr (Insert 3 7), Inl (Swap 3 4), Inr (Exists 4), Inl (Get 4),
      Inr (Mutate 3 (\<lambda>q. (q, None))), Inr (Exists 3)]
      :: ((u8, u8, u8 option, unit) map_op + (u8, u8, u8 option, u8 option) map_op) list"
  obtain as st where run: "storage_run (format0 [2]) (format0 [5]) ?cs Map.empty = (as, st)" by fastforce
  have dis: "map_disjoint (format0 [2]) (format0 [5])" by (simp add: map_disjoint_def format0_def)
  have opt: "from_optional (format0 p) = (\<lambda>v. v)" "to_optional (format0 p) = (\<lambda>v. v)" for p
    by (simp_all add: format0_def)
  from storage_maps_refine [OF format0_ok format0_ok dis run] show ?thesis
    unfolding Let_def run by (auto simp: opt)
qed

end
