(* ===== verification/Linked_Map.thy ===== *)
theory Linked_Map
  imports Raw_Storage "HOL-Library.Monad_Syntax"
begin

text \<open>
  Linked storage maps (\<open>frame/support/src/storage/generator/linked_map.rs\<close>): a map whose entries
  form a doubly linked list in storage, so that it can be enumerated.  The entries are encoded
  pairs of a value and a linkage; the head pointer has an address of its own.
\<close>

section \<open>Format, linkage and the raw accesses\<close>

record 'k linkage =
  previous :: "'k option"
  next_key :: "'k option"

record ('k, 'v, 'q) linked_format = "('k, 'v, 'q) map_format" +
  head_prefix :: bytes
  dec_key :: "bytes \<Rightarrow> 'k option"
  enc_entry :: "'v \<times> 'k linkage \<Rightarrow> bytes"
  dec_entry :: "bytes \<Rightarrow> ('v \<times> 'k linkage) option"

definition linkage_default :: "'k linkage" where
  "linkage_default = \<lparr>previous = None, next_key = None\<rparr>"

definition storage_linked_map_final_key :: "('k, 'v, 'q, 'z) linked_format_scheme \<Rightarrow> 'k \<Rightarrow> bytes" where
  "storage_linked_map_final_key f key =
     twox128 f (module_prefix f) @ twox128 f (storage_prefix f) @ hasher f (enc_key f key)"

definition storage_linked_map_final_head_key :: "('k, 'v, 'q, 'z) linked_format_scheme \<Rightarrow> bytes" where
  "storage_linked_map_final_head_key f = twox128 f (module_prefix f) @ twox128 f (head_prefix f)"

definition read_with_linkage ::
  "('k, 'v, 'q, 'z) linked_format_scheme \<Rightarrow> bytes \<Rightarrow> raw_storage \<Rightarrow> ('v \<times> 'k linkage) option" where
  "read_with_linkage f key st = unhashed_get (dec_entry f) key st"

definition read_head :: "('k, 'v, 'q, 'z) linked_format_scheme \<Rightarrow> raw_storage \<Rightarrow> 'k option" where
  "read_head f st = unhashed_get (dec_key f) (storage_linked_map_final_head_key f) st"

definition write_head ::
  "('k, 'v, 'q, 'z) linked_format_scheme \<Rightarrow> 'k option \<Rightarrow> raw_storage \<Rightarrow> raw_storage" where
  "write_head f head st =
     (case head of
        Some k \<Rightarrow> unhashed_put (enc_key f) (storage_linked_map_final_head_key f) k st
      | None \<Rightarrow> unhashed_kill (storage_linked_map_final_head_key f) st)"

definition remove_linkage ::
  "('k, 'v, 'q, 'z) linked_format_scheme \<Rightarrow> 'k linkage \<Rightarrow> raw_storage \<Rightarrow> raw_storage" where
  "remove_linkage f linkage st =
     (let nk = map_option (storage_linked_map_final_key f) (next_key linkage);
          pk = map_option (storage_linked_map_final_key f) (previous linkage);
          st1 = (case pk of
                   Some prev_key \<Rightarrow>
                     (case read_with_linkage f prev_key st of
                        Some (v, l) \<Rightarrow>
                          unhashed_put (enc_entry f) prev_key (v, l\<lparr>next_key := next_key linkage\<rparr>) st
                      | None \<Rightarrow> st)
                 | None \<Rightarrow> write_head f (next_key linkage) st)
      in case nk of
           Some nk \<Rightarrow>
             (case read_with_linkage f nk st1 of
                Some (v, l) \<Rightarrow>
                  unhashed_put (enc_entry f) nk (v, l\<lparr>previous := previous linkage\<rparr>) st1
              | None \<Rightarrow> st1)
         | None \<Rightarrow> st1)"

definition new_head_linkage ::
  "('k, 'v, 'q, 'z) linked_format_scheme \<Rightarrow> 'k \<Rightarrow> raw_storage \<Rightarrow> 'k linkage \<times> raw_storage" where
  "new_head_linkage f key st =
     (case read_head f st of
        Some head \<Rightarrow>
          (let head_key = storage_linked_map_final_key f head
           in case read_with_linkage f head_key st of
                Some (data, linkage) \<Rightarrow>
                  (let new_linkage = \<lparr>previous = Some key, next_key = next_key linkage\<rparr>;
                       st1 = unhashed_put (enc_entry f) head_key (data, new_linkage) st;
                       st2 = write_head f (Some key) st1
                   in (linkage_default\<lparr>next_key := Some head\<rparr>, st2))
              | None \<Rightarrow> (linkage_default, write_head f (Some key) st))
      | None \<Rightarrow> (linkage_default, write_head f (Some key) st))"

section \<open>Operations\<close>

definition linked_exists :: "('k, 'v, 'q, 'z) linked_format_scheme \<Rightarrow> 'k \<Rightarrow> raw_storage \<Rightarrow> bool" where
  "linked_exists f key st = unhashed_exists (storage_linked_map_final_key f key) st"

text \<open>\<open>get\<close> decodes the value alone, from the front of the entry.\<close>

definition linked_get :: "('k, 'v, 'q, 'z) linked_format_scheme \<Rightarrow> 'k \<Rightarrow> raw_storage \<Rightarrow> 'q" where
  "linked_get f key st =
     from_optional f (unhashed_get (dec_val f) (storage_linked_map_final_key f key) st)"

definition linked_take ::
  "('k, 'v, 'q, 'z) linked_format_scheme \<Rightarrow> 'k \<Rightarrow> raw_storage \<Rightarrow> 'q \<times> raw_storage" where
  "linked_take f key st =
     (case unhashed_take (dec_entry f) (storage_linked_map_final_key f key) st of
        (Some (data, linkage), st1) \<Rightarrow> (from_optional f (Some data), remove_linkage f linkage st1)
      | (None, st1) \<Rightarrow> (from_optional f None, st1))"

definition linked_remove :: "('k, 'v, 'q, 'z) linked_format_scheme \<Rightarrow> 'k \<Rightarrow> raw_storage \<Rightarrow> raw_storage" where
  "linked_remove f key st = snd (linked_take f key st)"

definition linked_insert ::
  "('k, 'v, 'q, 'z) linked_format_scheme \<Rightarrow> 'k \<Rightarrow> 'v \<Rightarrow> raw_storage \<Rightarrow> raw_storage" where
  "linked_insert f key val st =
     (let final_key = storage_linked_map_final_key f key;
          (linkage, st1) = (case read_with_linkage f final_key st of
                              Some (_, linkage) \<Rightarrow> (linkage, st)
                            | None \<Rightarrow> new_head_linkage f key st)
      in unhashed_put (enc_entry f) final_key (val, linkage) st1)"

definition linked_swap ::
  "('k, 'v, 'q, 'z) linked_format_scheme \<Rightarrow> 'k \<Rightarrow> 'k \<Rightarrow> raw_storage \<Rightarrow> raw_storage" where
  "linked_swap f key1 key2 st =
     (let final_key1 = storage_linked_map_final_key f key1;
          final_key2 = storage_linked_map_final_key f key2
      in case (read_with_linkage f final_key1 st, read_with_linkage f final_key2 st) of
           (Some (value1, linkage1), Some (value2, linkage2)) \<Rightarrow>
             unhashed_put (enc_entry f) final_key2 (value1, linkage2)
               (unhashed_put (enc_entry f) final_key1 (value2, linkage1) st)
         | (Some (value, _), None) \<Rightarrow>
             (let (linkage, st1) = new_head_linkage f key2 (linked_remove f key1 st)
              in unhashed_put (enc_entry f) final_key2 (value, linkage) st1)
         | (None, Some (value, _)) \<Rightarrow>
             (let (linkage, st1) = new_head_linkage f key1 (linked_remove f key2 st)
              in unhashed_put (enc_entry f) final_key1 (value, linkage) st1)
         | (None, None) \<Rightarrow> st)"

definition linked_mutate ::
  "('k, 'v, 'q, 'z) linked_format_scheme \<Rightarrow> 'k \<Rightarrow> ('q \<Rightarrow> 'r \<times> 'q) \<Rightarrow> raw_storage \<Rightarrow> 'r \<times> raw_storage" where
  "linked_mutate f key g st =
     (let final_key = storage_linked_map_final_key f key;
          val = (case read_with_linkage f final_key st of
                   Some (data, _) \<Rightarrow> from_optional f (Some data)
                 | None \<Rightarrow> from_optional f None)
      in case g val of (ret, val') \<Rightarrow>
           (ret, case to_optional f val' of
                   Some v \<Rightarrow> linked_insert f key v st
                 | None \<Rightarrow> linked_remove f key st))"

definition linked_head :: "('k, 'v, 'q, 'z) linked_format_scheme \<Rightarrow> raw_storage \<Rightarrow> 'k option" where
  "linked_head f st = read_head f st"

text \<open>
  Running the enumerator to its end.  A corrupted list may be cyclic, so the loop is a partial
  function: \<open>None\<close> is not returning.
\<close>

definition enumerator_next ::
  "('k, 'v, 'q, 'z) linked_format_scheme \<Rightarrow> raw_storage \<Rightarrow> 'k option \<Rightarrow> (('k \<times> 'v) \<times> 'k option) option" where
  "enumerator_next f st cur =
     (case cur of
        None \<Rightarrow> None
      | Some k \<Rightarrow>
          (case read_with_linkage f (storage_linked_map_final_key f k) st of
             None \<Rightarrow> None
           | Some (val, linkage) \<Rightarrow> Some ((k, val), next_key linkage)))"

partial_function (option) enumerate_from ::
  "('k, 'v, 'q, 'z) linked_format_scheme \<Rightarrow> raw_storage \<Rightarrow> 'k option \<Rightarrow> ('k \<times> 'v) list option" where
  "enumerate_from f st cur =
     (case enumerator_next f st cur of
        None \<Rightarrow> Some []
      | Some (kv, cur') \<Rightarrow> Option.bind (enumerate_from f st cur') (\<lambda>kvs. Some (kv # kvs)))"

definition linked_enumerate ::
  "('k, 'v, 'q, 'z) linked_format_scheme \<Rightarrow> raw_storage \<Rightarrow> ('k \<times> 'v) list option" where
  "linked_enumerate f st = enumerate_from f st (read_head f st)"

section \<open>The list a linked map stores\<close>

definition linked_format_ok :: "('k, 'v, 'q, 'z) linked_format_scheme \<Rightarrow> bool" where
  "linked_format_ok f \<longleftrightarrow>
     (\<forall>x. length (twox128 f x) = 16) \<and> twox128 f (storage_prefix f) \<noteq> twox128 f (head_prefix f)
     \<and> inj (\<lambda>k. hasher f (enc_key f k)) \<and> (\<forall>k. dec_key f (enc_key f k) = Some k)
     \<and> (\<forall>e. dec_entry f (enc_entry f e) = Some e) \<and> (\<forall>v l. dec_val f (enc_entry f (v, l)) = Some v)
     \<and> (\<forall>v. to_optional f (from_optional f (Some v)) = Some v)"

fun first_or :: "('k \<times> 'v) list \<Rightarrow> 'k option \<Rightarrow> 'k option" where
  "first_or [] n = n"
| "first_or ((k, _) # _) n = Some k"

definition last_or :: "'k option \<Rightarrow> ('k \<times> 'v) list \<Rightarrow> 'k option" where
  "last_or p xs = (if xs = [] then p else Some (fst (last xs)))"

text \<open>The cells of a segment whose neighbours are \<open>p\<close> on the left and \<open>n\<close> on the right.\<close>

fun links :: "'k option \<Rightarrow> 'k option \<Rightarrow> ('k \<times> 'v) list \<Rightarrow> 'k \<Rightarrow> ('v \<times> 'k linkage) option" where
  "links p n [] = Map.empty"
| "links p n ((k, v) # r) = (links (Some k) n r)(k \<mapsto> (v, \<lparr>previous = p, next_key = first_or r n\<rparr>))"

definition linked_repr ::
  "('k, 'v, 'q, 'z) linked_format_scheme \<Rightarrow> raw_storage \<Rightarrow> ('k \<times> 'v) list \<Rightarrow> bool" where
  "linked_repr f st kvs \<longleftrightarrow> distinct (map fst kvs)
     \<and> st (storage_linked_map_final_head_key f) = map_option (enc_key f) (first_or kvs None)
     \<and> (\<forall>k. st (storage_linked_map_final_key f k) = map_option (enc_entry f) (links None None kvs k))"

lemma linked_key_eq_iff:
  "linked_format_ok f \<Longrightarrow> storage_linked_map_final_key f k = storage_linked_map_final_key f k' \<longleftrightarrow> k = k'"
  by (auto simp: linked_format_ok_def storage_linked_map_final_key_def inj_def)

lemma linked_key_head:
  assumes "linked_format_ok f"
  shows "storage_linked_map_final_key f k \<noteq> storage_linked_map_final_head_key f"
    "storage_linked_map_final_head_key f \<noteq> storage_linked_map_final_key f k"
proof -
  have len: "length (twox128 f x) = 16" for x using assms by (simp add: linked_format_ok_def)
  have "take 16 (drop 16 (storage_linked_map_final_key f k)) = twox128 f (storage_prefix f)"
    "take 16 (drop 16 (storage_linked_map_final_head_key f)) = twox128 f (head_prefix f)"
    by (simp_all add: storage_linked_map_final_key_def storage_linked_map_final_head_key_def len)
  then show "storage_linked_map_final_key f k \<noteq> storage_linked_map_final_head_key f"
    "storage_linked_map_final_head_key f \<noteq> storage_linked_map_final_key f k"
    using assms unfolding linked_format_ok_def by metis+
qed

lemmas linked_keys = linked_key_eq_iff linked_key_head

lemma linked_codec:
  assumes "linked_format_ok f"
  shows "dec_key f (enc_key f k) = Some k" "dec_entry f (enc_entry f e) = Some e"
    "dec_val f (enc_entry f (v, l)) = Some v"
  using assms unfolding linked_format_ok_def by blast+

lemma links_None_iff: "links p n xs x = None \<longleftrightarrow> x \<notin> fst ` set xs"
  by (induction p n xs rule: links.induct) auto

lemma links_None [simp]: "x \<notin> fst ` set xs \<Longrightarrow> links p n xs x = None"
  by (simp add: links_None_iff)

lemma links_append:
  "links p n (xs @ ys) = links (last_or p xs) n ys ++ links p (first_or ys n) xs"
proof (induction p n xs rule: links.induct)
  case (2 p n k v r)
  have "first_or (r @ ys) n = first_or r (first_or ys n)" by (cases r) auto
  moreover have "last_or p ((k, v) # r) = last_or (Some k) r" by (simp add: last_or_def)
  ultimately show ?case using 2 by (auto simp: fun_eq_iff map_add_def)
qed (simp add: last_or_def)

lemma read_with_linkage_repr:
  "linked_format_ok f \<Longrightarrow> linked_repr f st kvs \<Longrightarrow>
    read_with_linkage f (storage_linked_map_final_key f k) st = links None None kvs k"
  by (auto simp: read_with_linkage_def unhashed_get_def linked_repr_def linked_codec
      split: option.split)

lemma read_head_repr:
  "linked_format_ok f \<Longrightarrow> linked_repr f st kvs \<Longrightarrow> read_head f st = first_or kvs None"
  by (cases "first_or kvs None") (auto simp: read_head_def unhashed_get_def linked_repr_def linked_codec)

lemma links_lookup: "map_option fst (links p n kvs k) = map_of kvs k"
  by (induction p n kvs rule: links.induct) auto

text \<open>Writing one cell, on both levels.\<close>

lemma repr_lookup: "linked_repr f st kvs \<Longrightarrow> k \<in> fst ` set kvs \<longleftrightarrow> st (storage_linked_map_final_key f k) \<noteq> None"
  by (simp add: linked_repr_def links_None_iff)

section \<open>Insertion\<close>

text \<open>What insertion does to the list: in place for a present key, at the front otherwise.\<close>

definition list_insert :: "'k \<Rightarrow> 'v \<Rightarrow> ('k \<times> 'v) list \<Rightarrow> ('k \<times> 'v) list" where
  "list_insert k v kvs =
     (if k \<in> fst ` set kvs then map (\<lambda>(k', w). if k' = k then (k, v) else (k', w)) kvs else (k, v) # kvs)"

lemma first_or_update [simp]:
  "first_or (map (\<lambda>(k', w). if k' = k then (k, v) else (k', w)) kvs) n = first_or kvs n"
  by (cases kvs) auto

lemma links_update:
  "distinct (map fst kvs) \<Longrightarrow> links p n kvs k = Some (w, l) \<Longrightarrow>
    links p n (map (\<lambda>(k', w). if k' = k then (k, v) else (k', w)) kvs) = (links p n kvs)(k \<mapsto> (v, l))"
proof (induction p n kvs rule: links.induct)
  case (2 p n k' w' r)
  have "map (\<lambda>(k', w). if k' = k then (k, v) else (k', w)) r = r" if "k \<notin> fst ` set r"
    using that by (induction r) auto
  with 2 show ?case by (auto simp: fun_eq_iff split: if_splits)
qed simp

lemma map_fst_update: "map fst (map (\<lambda>(k', w). if k' = k then (k, v) else (k', w)) kvs) = map fst kvs"
  by (induction kvs) auto

lemma linked_insert_repr:
  assumes ok: "linked_format_ok f" and r: "linked_repr f st kvs"
  shows "linked_repr f (linked_insert f k v st) (list_insert k v kvs)"
proof (cases "links None None kvs k")
  case (Some e)
  then obtain w l where e: "links None None kvs k = Some (w, l)" by (cases e) auto
  then have in': "k \<in> fst ` set kvs" by (metis links_None_iff option.distinct(1))
  have "linked_insert f k v st = unhashed_put (enc_entry f) (storage_linked_map_final_key f k) (v, l) st"
    by (simp add: linked_insert_def read_with_linkage_repr [OF ok r] e)
  then show ?thesis using r in' links_update [OF _ e]
    by (simp add: linked_repr_def list_insert_def map_fst_update unhashed_put_def linked_keys [OF ok]
        del: map_map)
next
  case None
  then have notin: "k \<notin> fst ` set kvs" by (simp add: links_None_iff)
  show ?thesis
  proof (cases kvs)
    case Nil
    then show ?thesis using r None
      by (simp add: linked_insert_def read_with_linkage_repr [OF ok r] read_head_repr [OF ok r]
          new_head_linkage_def write_head_def linked_repr_def list_insert_def unhashed_put_def
          linked_keys [OF ok] linkage_default_def)
  next
    case (Cons kv rest)
    obtain k0 v0 where kv: "kv = (k0, v0)" by fastforce
    have "links None None kvs k0 = Some (v0, \<lparr>previous = None, next_key = first_or rest None\<rparr>)"
      by (simp add: Cons kv)
    then have "new_head_linkage f k st = (\<lparr>previous = None, next_key = Some k0\<rparr>,
        st(storage_linked_map_final_key f k0 \<mapsto>
             enc_entry f (v0, \<lparr>previous = Some k, next_key = first_or rest None\<rparr>),
           storage_linked_map_final_head_key f \<mapsto> enc_key f k))"
      by (simp add: new_head_linkage_def read_head_repr [OF ok r] read_with_linkage_repr [OF ok r]
          Cons kv write_head_def unhashed_put_def linkage_default_def del: links.simps)
    then have "linked_insert f k v st =
        st(storage_linked_map_final_key f k0 \<mapsto>
             enc_entry f (v0, \<lparr>previous = Some k, next_key = first_or rest None\<rparr>),
           storage_linked_map_final_head_key f \<mapsto> enc_key f k,
           storage_linked_map_final_key f k \<mapsto> enc_entry f (v, \<lparr>previous = None, next_key = Some k0\<rparr>))"
      by (simp add: linked_insert_def read_with_linkage_repr [OF ok r] None unhashed_put_def)
    then show ?thesis using r notin
      by (auto simp: linked_repr_def list_insert_def linked_keys [OF ok] Cons kv)
  qed
qed

section \<open>Removal\<close>

text \<open>Cutting a cell out: the two neighbours are joined.\<close>

definition set_next :: "'k option \<Rightarrow> 'k option \<Rightarrow> ('k \<Rightarrow> ('v \<times> 'k linkage) option) \<Rightarrow> 'k \<Rightarrow> ('v \<times> 'k linkage) option" where
  "set_next p n m =
     (case p of None \<Rightarrow> m | Some a \<Rightarrow> m(a := map_option (\<lambda>(u, l). (u, l\<lparr>next_key := n\<rparr>)) (m a)))"

definition set_previous :: "'k option \<Rightarrow> 'k option \<Rightarrow> ('k \<Rightarrow> ('v \<times> 'k linkage) option) \<Rightarrow> 'k \<Rightarrow> ('v \<times> 'k linkage) option" where
  "set_previous n p m =
     (case n of None \<Rightarrow> m | Some b \<Rightarrow> m(b := map_option (\<lambda>(u, l). (u, l\<lparr>previous := p\<rparr>)) (m b)))"

lemma links_snoc:
  "a \<notin> fst ` set xs \<Longrightarrow>
    links p n (xs @ [(a, u)]) = (links p (Some a) xs)(a \<mapsto> (u, \<lparr>previous = last_or p xs, next_key = n\<rparr>))"
  by (auto simp: links_append fun_eq_iff map_add_def split: option.split)

lemma links_set_next:
  assumes "distinct (map fst xs)"
  shows "links p n xs = set_next (last_or None xs) n (links p n' xs)"
proof (cases xs rule: rev_cases)
  case (snoc ys y)
  then obtain a u where y: "xs = ys @ [(a, u)]" by (cases y) auto
  with assms have "a \<notin> fst ` set ys" by auto
  then show ?thesis by (simp add: y links_snoc set_next_def last_or_def fun_eq_iff)
qed (simp add: set_next_def last_or_def)

lemma links_set_previous: "links p n ys = set_previous (first_or ys None) p (links p' n ys)"
  by (cases ys) (auto simp: set_previous_def)

lemma set_next_map_add:
  "p = None \<or> (\<exists>a. p = Some a \<and> B a = None) \<Longrightarrow> set_next p n (B ++ A) = B ++ set_next p n A"
  by (auto simp: set_next_def fun_eq_iff map_add_def split: option.split)

lemma set_previous_map_add:
  "n = None \<or> (\<exists>b. n = Some b \<and> A b = None) \<Longrightarrow> set_previous n p (B ++ A) = set_previous n p B ++ A"
  by (auto simp: set_previous_def fun_eq_iff map_add_def split: option.split)

lemma set_next_None: "m a = None \<Longrightarrow> set_next p n m a = None"
  by (auto simp: set_next_def split: option.split)

lemma links_remove:
  assumes d: "distinct (map fst (xs @ (k, v) # ys))"
  defines "p \<equiv> last_or None xs" and "n \<equiv> first_or ys None"
  shows "links None None (xs @ (k, v) # ys) k = Some (v, \<lparr>previous = p, next_key = n\<rparr>)"
    and "links None None (xs @ ys) = set_previous n p (set_next p n ((links None None (xs @ (k, v) # ys))(k := None)))"
proof -
  have k: "k \<notin> fst ` set xs" "k \<notin> fst ` set ys" and dx: "distinct (map fst xs)"
    and disj: "fst ` set xs \<inter> fst ` set ys = {}" using d by auto
  show "links None None (xs @ (k, v) # ys) k = Some (v, \<lparr>previous = p, next_key = n\<rparr>)"
    using k by (simp add: links_append map_add_def p_def n_def)
  have p: "p = None \<or> (\<exists>a. p = Some a \<and> links q n' ys a = None)" for q n'
  proof (cases "xs = []")
    case False
    then have "fst (last xs) \<in> fst ` set xs" by simp
    then have "fst (last xs) \<notin> fst ` set ys" using disj by blast
    then show ?thesis using False by (simp add: p_def last_or_def)
  qed (simp add: p_def last_or_def)
  have n: "n = None \<or> (\<exists>b. n = Some b \<and> set_next p n (links None q xs) b = None)" for q
  proof (cases ys)
    case (Cons y r)
    then have "fst y \<notin> fst ` set xs" using disj by auto
    then show ?thesis using Cons by (cases y) (simp add: n_def set_next_None)
  qed (simp add: n_def)
  have "(links None None (xs @ (k, v) # ys))(k := None) = links (Some k) None ys ++ links None (Some k) xs"
    using k by (auto simp: links_append fun_eq_iff map_add_def split: option.split)
  moreover have "links None None (xs @ ys)
      = set_previous n p (links (Some k) None ys) ++ set_next p n (links None (Some k) xs)"
    unfolding links_append p_def [symmetric] n_def [symmetric]
    using links_set_next [OF dx, of None n "Some k"] links_set_previous [of p None ys "Some k"]
    by (simp add: p_def n_def)
  ultimately show "links None None (xs @ ys) = set_previous n p (set_next p n ((links None None (xs @ (k, v) # ys))(k := None)))"
    by (simp add: set_next_map_add [OF p] set_previous_map_add [OF n])
qed

text \<open>A store whose cells are the map \<open>m\<close>.\<close>

definition cells :: "('k, 'v, 'q, 'z) linked_format_scheme \<Rightarrow> raw_storage \<Rightarrow> ('k \<Rightarrow> ('v \<times> 'k linkage) option) \<Rightarrow> bool" where
  "cells f st m \<longleftrightarrow> (\<forall>k. st (storage_linked_map_final_key f k) = map_option (enc_entry f) (m k))"

lemma cells_read:
  "linked_format_ok f \<Longrightarrow> cells f st m \<Longrightarrow> read_with_linkage f (storage_linked_map_final_key f k) st = m k"
  by (auto simp: read_with_linkage_def unhashed_get_def cells_def linked_codec split: option.split)

lemma cells_put:
  "linked_format_ok f \<Longrightarrow> cells f st m \<Longrightarrow>
    cells f (unhashed_put (enc_entry f) (storage_linked_map_final_key f k) e st) (m(k \<mapsto> e))"
  by (simp add: cells_def unhashed_put_def linked_keys)

lemma cells_write_head: "linked_format_ok f \<Longrightarrow> cells f st m \<Longrightarrow> cells f (write_head f h st) m"
  by (simp add: cells_def write_head_def unhashed_put_def unhashed_kill_def linked_keys split: option.split)

lemma remove_linkage_cells:
  assumes ok: "linked_format_ok f" and c: "cells f st m"
  shows "cells f (remove_linkage f \<lparr>previous = p, next_key = n\<rparr> st) (set_previous n p (set_next p n m))"
proof -
  define st1 where "st1 = (case map_option (storage_linked_map_final_key f) p of
      Some prev_key \<Rightarrow>
        (case read_with_linkage f prev_key st of
           Some (v, l) \<Rightarrow> unhashed_put (enc_entry f) prev_key (v, l\<lparr>next_key := n\<rparr>) st
         | None \<Rightarrow> st)
    | None \<Rightarrow> write_head f n st)"
  have c1: "cells f st1 (set_next p n m)"
  proof (cases p)
    case None
    then show ?thesis using ok c by (simp add: st1_def set_next_def cells_write_head)
  next
    case (Some a)
    show ?thesis
    proof (cases "m a")
      case None
      then have "m(a := None) = m" by auto
      with None Some show ?thesis using c by (simp add: st1_def set_next_def cells_read [OF ok c])
    next
      case (Some e)
      with \<open>p = Some a\<close> show ?thesis
        using cells_put [OF ok c, of a] by (cases e) (simp add: st1_def set_next_def cells_read [OF ok c])
    qed
  qed
  show ?thesis
  proof (cases n)
    case None
    then have "remove_linkage f \<lparr>previous = p, next_key = n\<rparr> st = st1"
      by (cases p) (simp_all add: remove_linkage_def st1_def Let_def split: option.split)
    then show ?thesis using c1 None by (simp add: set_previous_def)
  next
    case (Some b)
    have "remove_linkage f \<lparr>previous = p, next_key = n\<rparr> st =
        (case read_with_linkage f (storage_linked_map_final_key f b) st1 of
           Some (v, l) \<Rightarrow>
             unhashed_put (enc_entry f) (storage_linked_map_final_key f b) (v, l\<lparr>previous := p\<rparr>) st1
         | None \<Rightarrow> st1)"
      by (cases p) (simp_all add: remove_linkage_def st1_def Let_def Some split: option.split)
    moreover have "(set_next p n m)(b := None) = set_next p n m" if "set_next p n m b = None"
      using that by auto
    ultimately show ?thesis using c1 cells_put [OF ok c1, of b]
      by (auto simp: cells_read [OF ok c1] set_previous_def Some split: option.split)
  qed
qed

lemma remove_linkage_head:
  assumes "linked_format_ok f"
  shows "remove_linkage f \<lparr>previous = p, next_key = n\<rparr> st (storage_linked_map_final_head_key f) =
      (if p = None then map_option (enc_key f) n else st (storage_linked_map_final_head_key f))"
  by (auto simp: remove_linkage_def Let_def write_head_def unhashed_put_def unhashed_kill_def
      linked_keys [OF assms] split: option.split)

lemma linked_take_repr:
  assumes ok: "linked_format_ok f" and r: "linked_repr f st kvs"
  shows "linked_repr f (snd (linked_take f k st)) (filter (\<lambda>kv. fst kv \<noteq> k) kvs)
    \<and> fst (linked_take f k st) = from_optional f (map_of kvs k)"
proof (cases "k \<in> fst ` set kvs")
  case False
  then have f: "filter (\<lambda>kv. fst kv \<noteq> k) kvs = kvs" by (auto simp: filter_id_conv)
  have "map_of kvs k = None" using False by (simp add: map_of_eq_None_iff)
  moreover have "st (storage_linked_map_final_key f k) = None" using r False by (simp add: linked_repr_def)
  ultimately show ?thesis using r f
    by (simp add: linked_take_def unhashed_take_def unhashed_get_def Let_def)
next
  case True
  then obtain v xs ys where kvs: "kvs = xs @ (k, v) # ys" by (fastforce simp: in_set_conv_decomp)
  let ?p = "last_or None xs" let ?n = "first_or ys None"
  have d: "distinct (map fst (xs @ (k, v) # ys))" using r by (simp add: linked_repr_def kvs)
  note rm = links_remove [OF d]
  let ?st1 = "unhashed_kill (storage_linked_map_final_key f k) st"
  have "cells f st (links None None kvs)" using r by (simp add: linked_repr_def cells_def)
  then have "cells f ?st1 ((links None None kvs)(k := None))"
    by (simp add: cells_def unhashed_kill_def linked_keys [OF ok])
  from remove_linkage_cells [OF ok this, of ?p ?n]
  have c: "cells f (remove_linkage f \<lparr>previous = ?p, next_key = ?n\<rparr> ?st1) (links None None (xs @ ys))"
    by (simp only: rm(2) kvs)
  have get: "unhashed_get (dec_entry f) (storage_linked_map_final_key f k) st
      = Some (v, \<lparr>previous = ?p, next_key = ?n\<rparr>)"
    using read_with_linkage_repr [OF ok r, of k] rm(1) by (simp add: read_with_linkage_def kvs)
  have "linked_take f k st = (from_optional f (Some v), remove_linkage f \<lparr>previous = ?p, next_key = ?n\<rparr> ?st1)"
    by (simp add: linked_take_def unhashed_take_def get)
  moreover have "filter (\<lambda>kv. fst kv \<noteq> k) xs = xs" "filter (\<lambda>kv. fst kv \<noteq> k) ys = ys"
    using d by (force simp: filter_id_conv)+
  then have "filter (\<lambda>kv. fst kv \<noteq> k) kvs = xs @ ys" by (simp add: kvs)
  moreover have "map_of xs k = None" using d by (auto simp: map_of_eq_None_iff)
  then have "map_of kvs k = Some v" by (simp add: kvs map_add_def)
  moreover have "first_or (xs @ ys) None = (if ?p = None then ?n else first_or kvs None)"
    by (cases xs) (auto simp: last_or_def kvs)
  ultimately show ?thesis using c d r
    by (auto simp: linked_repr_def cells_def remove_linkage_head [OF ok] unhashed_kill_def linked_keys [OF ok])
qed

section \<open>Enumeration, swap and mutate\<close>

lemma enumerate_from_repr:
  assumes ok: "linked_format_ok f"
  shows "linked_repr f st (xs @ ys) \<Longrightarrow> enumerate_from f st (first_or ys None) = Some ys"
proof (induction ys arbitrary: xs)
  case Nil
  then show ?case by (subst enumerate_from.simps) (simp add: enumerator_next_def)
next
  case (Cons kv ys)
  obtain k v where kv: "kv = (k, v)" by fastforce
  have "distinct (map fst (xs @ (k, v) # ys))" using Cons.prems by (simp add: linked_repr_def kv)
  from links_remove(1) [OF this] read_with_linkage_repr [OF ok Cons.prems, of k]
  have "enumerator_next f st (first_or (kv # ys) None) = Some (kv, first_or ys None)"
    by (simp add: enumerator_next_def kv)
  moreover have "enumerate_from f st (first_or ys None) = Some ys"
    using Cons.IH [of "xs @ [kv]"] Cons.prems by simp
  ultimately show ?case by (subst enumerate_from.simps) simp
qed

lemma linked_enumerate_repr:
  "linked_format_ok f \<Longrightarrow> linked_repr f st kvs \<Longrightarrow> linked_enumerate f st = Some kvs"
  using enumerate_from_repr [of f st "[]" kvs] by (simp add: linked_enumerate_def read_head_repr)

definition list_swap :: "'k \<Rightarrow> 'k \<Rightarrow> ('k \<times> 'v) list \<Rightarrow> ('k \<times> 'v) list" where
  "list_swap a b kvs =
     (case (map_of kvs a, map_of kvs b) of
        (Some va, Some vb) \<Rightarrow> list_insert b va (list_insert a vb kvs)
      | (Some v, None) \<Rightarrow> list_insert b v (filter (\<lambda>kv. fst kv \<noteq> a) kvs)
      | (None, Some v) \<Rightarrow> list_insert a v (filter (\<lambda>kv. fst kv \<noteq> b) kvs)
      | (None, None) \<Rightarrow> kvs)"

lemma map_of_links: "links p n kvs k = Some (v, l) \<Longrightarrow> map_of kvs k = Some v"
  using links_lookup [of p n kvs k] by simp

lemma map_of_links_None: "links p n kvs k = None \<longleftrightarrow> map_of kvs k = None"
  by (simp add: links_None_iff map_of_eq_None_iff)

lemma linked_insert_fresh:
  assumes ok: "linked_format_ok f" and r: "linked_repr f st kvs" and "map_of kvs k = None"
  shows "(let (linkage, st1) = new_head_linkage f k st
          in unhashed_put (enc_entry f) (storage_linked_map_final_key f k) (v, linkage) st1)
    = linked_insert f k v st"
  using assms(3) by (simp add: linked_insert_def read_with_linkage_repr [OF ok r] flip: map_of_links_None [of None None])

lemma linked_swap_repr:
  assumes ok: "linked_format_ok f" and r: "linked_repr f st kvs"
  shows "linked_repr f (linked_swap f a b st) (list_swap a b kvs)"
proof -
  note rd = read_with_linkage_repr [OF ok r]
  have rem: "linked_repr f (linked_remove f x st) (filter (\<lambda>kv. fst kv \<noteq> x) kvs)" for x
    using linked_take_repr [OF ok r] by (simp add: linked_remove_def)
  have fresh: "map_of (filter (\<lambda>kv. fst kv \<noteq> x) kvs) y = None" if "map_of kvs y = None" for x y
    using that by (auto simp: map_of_eq_None_iff)
  show ?thesis
  proof (cases "links None None kvs a"; cases "links None None kvs b")
    fix e e' assume e: "links None None kvs a = Some e" and e': "links None None kvs b = Some e'"
    obtain va la vb lb where ab: "e = (va, la)" "e' = (vb, lb)" by fastforce
    let ?st = "linked_insert f a vb st"
    have 1: "?st = unhashed_put (enc_entry f) (storage_linked_map_final_key f a) (vb, la) st"
      by (simp add: linked_insert_def rd e ab)
    have "read_with_linkage f (storage_linked_map_final_key f b) ?st = Some (vb, lb)"
      using e e' ab rd [of b] by (auto simp: 1 read_with_linkage_def unhashed_get_def unhashed_put_def
          linked_keys [OF ok] linked_codec [OF ok])
    then have "linked_swap f a b st = linked_insert f b va ?st"
      by (simp add: linked_swap_def rd e e' ab 1 linked_insert_def)
    then show ?thesis
      using linked_insert_repr [OF ok linked_insert_repr [OF ok r]] e e' ab
      by (simp add: list_swap_def map_of_links)
  next
    fix e assume e: "links None None kvs a = Some e" and n: "links None None kvs b = None"
    then have m: "map_of kvs b = None" "map_of kvs a = Some (fst e)"
      by (simp_all add: map_of_links_None map_of_links [of None None _ _ _ "snd e"])
    have "linked_swap f a b st = linked_insert f b (fst e) (linked_remove f a st)"
      using linked_insert_fresh [OF ok rem fresh [OF m(1)], of _ "fst e"]
      by (cases e) (simp add: linked_swap_def rd e n)
    then show ?thesis using linked_insert_repr [OF ok rem] by (simp add: list_swap_def m)
  next
    fix e assume n: "links None None kvs a = None" and e: "links None None kvs b = Some e"
    then have m: "map_of kvs a = None" "map_of kvs b = Some (fst e)"
      by (simp_all add: map_of_links_None map_of_links [of None None _ _ _ "snd e"])
    have "linked_swap f a b st = linked_insert f a (fst e) (linked_remove f b st)"
      using linked_insert_fresh [OF ok rem fresh [OF m(1)], of _ "fst e"]
      by (cases e) (simp add: linked_swap_def rd e n)
    then show ?thesis using linked_insert_repr [OF ok rem] by (simp add: list_swap_def m)
  next
    assume n: "links None None kvs a = None" "links None None kvs b = None"
    then have "map_of kvs a = None" "map_of kvs b = None" by (simp_all add: map_of_links_None)
    with n show ?thesis using r by (simp add: linked_swap_def rd list_swap_def)
  qed
qed

section \<open>The contract of an enumerable map\<close>

locale enumerable_map = keyed_map +
  fixes enum :: "'a \<Rightarrow> ('b \<times> 'c) list option"
  assumes enum_lists: "inv s \<Longrightarrow> \<exists>kvs. enum s = Some kvs \<and> distinct (map fst kvs) \<and> map_of kvs = lookup s"
begin

lemma enum_set:
  "inv s \<Longrightarrow> \<exists>kvs. enum s = Some kvs \<and> distinct kvs \<and> set kvs = {(k, v). lookup s k = Some v}"
proof -
  assume "inv s"
  then obtain kvs where k: "enum s = Some kvs" "distinct (map fst kvs)" "map_of kvs = lookup s"
    using enum_lists by blast
  then have "set kvs = {(k, v). lookup s k = Some v}" by (auto simp flip: k(3))
  with k show ?thesis by (auto simp: distinct_map)
qed

text \<open>What is enumerated after a batch of insertions and deletions depends on the lookups only.\<close>

lemma enum_determined:
  assumes "inv s" "inv t" "lookup s = lookup t"
  shows "\<exists>xs ys. enum s = Some xs \<and> enum t = Some ys \<and> set xs = set ys \<and> length xs = length ys"
  using enum_set [OF assms(1)] enum_set [OF assms(2)] assms(3) by (metis distinct_card)

lemma enum_ins_all:
  assumes "inv s" "lookup s = Map.empty" "distinct (map fst kvs)"
  shows "\<exists>xs. enum (ins_all kvs s) = Some xs \<and> distinct xs \<and> set xs = set kvs"
proof -
  have "lookup (ins_all kvs s) = map_of kvs"
    using assms by (simp add: lookup_ins_all map_of_rev_distinct)
  with enum_set [OF inv_ins_all [OF assms(1)], of kvs] assms(3) show ?thesis by fastforce
qed

end

definition linked_lookup ::
  "('k, 'v, 'q, 'z) linked_format_scheme \<Rightarrow> raw_storage \<Rightarrow> 'k \<Rightarrow> 'v option" where
  "linked_lookup f st k = unhashed_get (dec_val f) (storage_linked_map_final_key f k) st"

definition linked_inv :: "('k, 'v, 'q, 'z) linked_format_scheme \<Rightarrow> raw_storage \<Rightarrow> bool" where
  "linked_inv f st \<longleftrightarrow> linked_format_ok f \<and> (\<exists>kvs. linked_repr f st kvs)"

lemma linked_lookup_repr:
  assumes "linked_format_ok f" and "linked_repr f st kvs"
  shows "linked_lookup f st = map_of kvs"
proof
  fix k show "linked_lookup f st k = map_of kvs k"
    using assms links_lookup [of None None kvs k]
    by (cases "links None None kvs k")
      (auto simp: linked_lookup_def unhashed_get_def linked_repr_def linked_codec)
qed

lemma map_of_list_insert: "map_of (list_insert k v kvs) = (map_of kvs)(k \<mapsto> v)"
  by (auto simp: list_insert_def map_of_update_key)

interpretation linked: enumerable_map
  "linked_inv f" "linked_lookup f" "linked_insert f" "linked_remove f" "linked_enumerate f" for f
proof
  fix f :: "('a, 'b, 'c, 'd) linked_format_scheme" and st k v
  assume "linked_inv f st"
  then obtain kvs where ok: "linked_format_ok f" and r: "linked_repr f st kvs"
    by (auto simp: linked_inv_def)
  note i = linked_insert_repr [OF ok r, of k v]
  have t: "linked_repr f (linked_remove f k st) (filter (\<lambda>kv. fst kv \<noteq> k) kvs)"
    using linked_take_repr [OF ok r] by (simp add: linked_remove_def)
  show "linked_inv f (linked_insert f k v st)" "linked_inv f (linked_remove f k st)"
    using ok i t by (auto simp: linked_inv_def)
  show "linked_lookup f (linked_insert f k v st) = (linked_lookup f st)(k \<mapsto> v)"
    by (simp add: linked_lookup_repr [OF ok r] linked_lookup_repr [OF ok i] map_of_list_insert)
  show "linked_lookup f (linked_remove f k st) = (linked_lookup f st)(k := None)"
    by (simp add: linked_lookup_repr [OF ok r] linked_lookup_repr [OF ok t] map_of_filter_key)
  show "\<exists>kvs. linked_enumerate f st = Some kvs \<and> distinct (map fst kvs) \<and> map_of kvs = linked_lookup f st"
    using r by (simp add: linked_enumerate_repr [OF ok r] linked_lookup_repr [OF ok r] linked_repr_def)
qed

section \<open>Any sequence of operations\<close>

datatype ('k, 'v, 'q) linked_op =
    Insert 'k 'v | Remove 'k | Take 'k | Swap 'k 'k | Mutate 'k "'q \<Rightarrow> 'q"

fun linked_run :: "('k, 'v, 'q, 'z) linked_format_scheme \<Rightarrow> ('k, 'v, 'q) linked_op \<Rightarrow> raw_storage \<Rightarrow> raw_storage" where
  "linked_run f (Insert k v) st = linked_insert f k v st"
| "linked_run f (Remove k) st = linked_remove f k st"
| "linked_run f (Take k) st = snd (linked_take f k st)"
| "linked_run f (Swap a b) st = linked_swap f a b st"
| "linked_run f (Mutate k g) st = snd (linked_mutate f k (\<lambda>q. ((), g q)) st)"

text \<open>The same operations on an association list.\<close>

fun list_run :: "('k, 'v, 'q, 'z) linked_format_scheme \<Rightarrow> ('k, 'v, 'q) linked_op \<Rightarrow> ('k \<times> 'v) list \<Rightarrow> ('k \<times> 'v) list" where
  "list_run f (Insert k v) kvs = list_insert k v kvs"
| "list_run f (Remove k) kvs = filter (\<lambda>kv. fst kv \<noteq> k) kvs"
| "list_run f (Take k) kvs = filter (\<lambda>kv. fst kv \<noteq> k) kvs"
| "list_run f (Swap a b) kvs = list_swap a b kvs"
| "list_run f (Mutate k g) kvs =
     (case to_optional f (g (from_optional f (map_of kvs k))) of
        Some v \<Rightarrow> list_insert k v kvs
      | None \<Rightarrow> filter (\<lambda>kv. fst kv \<noteq> k) kvs)"

lemma linked_run_repr:
  assumes ok: "linked_format_ok f" and r: "linked_repr f st kvs"
  shows "linked_repr f (linked_run f op st) (list_run f op kvs)"
proof (cases op)
  case (Mutate k g)
  have "(case links None None kvs k of Some (data, _) \<Rightarrow> from_optional f (Some data) | None \<Rightarrow> from_optional f None)
      = from_optional f (map_of kvs k)"
    by (cases "links None None kvs k") (auto simp: map_of_links links_None_iff map_of_eq_None_iff [THEN iffD2])
  then show ?thesis
    using linked_insert_repr [OF ok r] linked_take_repr [OF ok r]
    by (auto simp: Mutate linked_mutate_def read_with_linkage_repr [OF ok r] linked_remove_def split: option.split)
qed (use linked_insert_repr [OF ok r] linked_take_repr [OF ok r] linked_swap_repr [OF ok r]
    in \<open>simp_all add: linked_remove_def\<close>)

lemma linked_run_all_repr:
  assumes ok: "linked_format_ok f"
  shows "linked_repr f st kvs \<Longrightarrow> linked_repr f (fold (linked_run f) ops st) (fold (list_run f) ops kvs)"
  by (induction ops arbitrary: st kvs) (simp_all add: linked_run_repr [OF ok])

lemma linked_repr_empty: "linked_repr f Map.empty []"
  by (simp add: linked_repr_def)

text \<open>
  C7 (linked_map_refines): after any sequence of operations on an empty linked map, enumeration
  terminates and yields exactly the association list the same operations build, lookups and
  existence agree with it, and the head is its first key.
\<close>

theorem linked_map_refines:
  assumes "linked_format_ok f"
  shows "let st = fold (linked_run f) ops Map.empty; kvs = fold (list_run f) ops []
    in linked_enumerate f st = Some kvs \<and> distinct (map fst kvs)
    \<and> (\<forall>k. linked_get f k st = from_optional f (map_of kvs k)
           \<and> linked_exists f k st = (map_of kvs k \<noteq> None))
    \<and> linked_head f st = first_or kvs None"
proof -
  define st where "st = fold (linked_run f) ops Map.empty"
  define kvs where "kvs = fold (list_run f) ops []"
  have r: "linked_repr f st kvs"
    unfolding st_def kvs_def by (rule linked_run_all_repr [OF assms(1) linked_repr_empty])
  have "linked_get f k st = from_optional f (map_of kvs k)" for k
    using linked_lookup_repr [OF assms(1) r] by (auto simp: linked_get_def linked_lookup_def fun_eq_iff)
  moreover have "linked_exists f k st = (map_of kvs k \<noteq> None)" for k
    using r map_of_links_None [of None None kvs k] by (simp add: linked_exists_def unhashed_exists_def linked_repr_def)
  ultimately show ?thesis
    using r linked_enumerate_repr [OF assms(1) r] read_head_repr [OF assms(1) r]
    unfolding Let_def st_def [symmetric] kvs_def [symmetric]
    by (simp add: linked_head_def linked_repr_def)
qed

text \<open>
  Inserting a batch of entries with different keys into an
  empty linked map and enumerating it gives back exactly that batch.
\<close>

theorem linked_map_insert_enumerate:
  assumes "linked_format_ok f" and "distinct (map fst kvs)"
  shows "\<exists>xs. linked_enumerate f (fold (\<lambda>(k, v). linked_insert f k v) kvs Map.empty) = Some xs
    \<and> distinct xs \<and> set xs = set kvs"
proof -
  have "linked_inv f Map.empty" using assms(1) linked_repr_empty by (auto simp: linked_inv_def)
  moreover have "linked_lookup f Map.empty = Map.empty" by (simp add: fun_eq_iff linked_lookup_def unhashed_get_def)
  ultimately show ?thesis
    using linked.enum_ins_all [OF _ _ assms(2), of f Map.empty] by (simp add: linked.ins_all_def)
qed

section \<open>Witnesses\<close>

text \<open>A format over \<open>u8\<close> keys and values: an optional key is a byte list of length at most one.\<close>

definition enc_opt :: "u8 option \<Rightarrow> bytes" where
  "enc_opt k = (case k of None \<Rightarrow> [0, 0] | Some x \<Rightarrow> [1, x])"

definition dec_opt :: "u8 \<Rightarrow> u8 \<Rightarrow> u8 option" where
  "dec_opt t x = (if t = 0 then None else Some x)"

definition linked_format0 :: "(u8, u8, u8 option) linked_format" where
  "linked_format0 = map_format.extend (format0 [2])
     \<lparr>head_prefix = [3], dec_key = \<lambda>b. case b of [] \<Rightarrow> None | k # _ \<Rightarrow> Some k,
      enc_entry = \<lambda>(v, l). v # enc_opt (previous l) @ enc_opt (next_key l),
      dec_entry = \<lambda>b. case b of [v, t, x, t', x'] \<Rightarrow> Some (v, \<lparr>previous = dec_opt t x, next_key = dec_opt t' x'\<rparr>)
                    | _ \<Rightarrow> None\<rparr>"

lemma linked_format0_ok: "linked_format_ok linked_format0"
  by (auto simp: linked_format_ok_def linked_format0_def map_format.defs format0_def enc_opt_def dec_opt_def
      inj_def split: option.split)

theorem linked_map_refines_witness:
  "linked_enumerate linked_format0
     (fold (linked_run linked_format0) [Insert 1 10, Insert 2 20, Insert 3 30, Remove 2, Swap 1 3] Map.empty)
   = Some [(3, 10), (1, 30)]"
  using linked_map_refines [OF linked_format0_ok, of "[Insert 1 10, Insert 2 20, Insert 3 30, Remove 2, Swap 1 3]"]
  by (simp add: list_insert_def list_swap_def Let_def)

theorem linked_map_insert_enumerate_witness:
  "\<exists>xs. linked_enumerate linked_format0 (fold (\<lambda>(k, v). linked_insert linked_format0 k v) [(1, 10), (2, 20)] Map.empty)
     = Some xs \<and> distinct xs \<and> set xs = {(1, 10), (2, 20)}"
  using linked_map_insert_enumerate [OF linked_format0_ok, of "[(1, 10), (2, 20)]"] by simp

end
