(* ===== verification/Per_Things.thy ===== *)
theory Per_Things
  imports Substrate_Prelude
begin

text \<open>
  Parts per billion (\<open>primitives/arithmetic/src/per_things.rs\<close>): the macro
  \<open>implement_per_thing!\<close> at \<open>Perbill\<close>, with 1,000,000,000 as \<open>$max\<close>, \<open>u32\<close> as \<open>$type\<close> and
  \<open>u64\<close> as \<open>$upper_type\<close>.  The operand type \<open>N\<close> of a product or of a ratio is any word type
  at least as wide as \<open>u32\<close>.
\<close>

datatype perbill = Perbill u32

definition perbill_max :: u32 where
  "perbill_max = 1000000000"

fun deconstruct :: "perbill \<Rightarrow> u32" where
  "deconstruct (Perbill x) = x"

definition perbill_zero :: perbill where
  "perbill_zero = Perbill 0"

definition perbill_is_zero :: "perbill \<Rightarrow> bool" where
  "perbill_is_zero p \<longleftrightarrow> deconstruct p = 0"

definition perbill_one :: perbill where
  "perbill_one = Perbill perbill_max"

definition from_parts :: "u32 \<Rightarrow> perbill" where
  "from_parts parts = Perbill (if parts > perbill_max then perbill_max else parts)"

definition from_percent :: "u32 \<Rightarrow> perbill" where
  "from_percent x = Perbill ((if x > 100 then 100 else x) * (perbill_max div 100))"

text \<open>\<open>try_into\<close> a narrower word: \<open>None\<close> when the value does not fit.\<close>

definition try_into_u32 :: "'n::len word \<Rightarrow> u32 option" where
  "try_into_u32 x = (if unat x < 2 ^ 32 then Some (ucast x) else None)"

definition saturated_into_u32 :: "'n::len word \<Rightarrow> u32" where
  "saturated_into_u32 x = (case try_into_u32 x of None \<Rightarrow> - 1 | Some y \<Rightarrow> y)"

text \<open>The two \<open>expect\<close>s make the function partial: \<open>None\<close> is the panic.\<close>

definition from_rational_approximation :: "'n::len word \<Rightarrow> 'n word \<Rightarrow> perbill option" where
  "from_rational_approximation p q =
     (let q = max q 1;
          p = min p q;
          factor = max (q div ucast perbill_max) 1
      in case try_into_u32 (q div factor) of
           None \<Rightarrow> None
         | Some q_reduce \<Rightarrow>
             (case try_into_u32 (p div factor) of
                None \<Rightarrow> None
              | Some p_reduce \<Rightarrow>
                  Some (Perbill (ucast ((ucast p_reduce :: u64) * ucast perbill_max div ucast q_reduce)))))"

definition perbill_square :: "perbill \<Rightarrow> perbill option" where
  "perbill_square s =
     (let p = (ucast (deconstruct s) :: u64) * ucast (deconstruct s);
          q = (ucast perbill_max :: u64) * ucast perbill_max
      in from_rational_approximation p q)"

definition perbill_saturating_add :: "perbill \<Rightarrow> perbill \<Rightarrow> perbill" where
  "perbill_saturating_add a b = from_parts (saturating_add (deconstruct a) (deconstruct b))"

definition perbill_saturating_sub :: "perbill \<Rightarrow> perbill \<Rightarrow> perbill" where
  "perbill_saturating_sub a b = from_parts (saturating_sub (deconstruct a) (deconstruct b))"

definition perbill_saturating_mul :: "perbill \<Rightarrow> perbill \<Rightarrow> perbill" where
  "perbill_saturating_mul x y =
     (let a = (ucast (deconstruct x) :: u64);
          b = ucast (deconstruct y);
          m = ucast perbill_max
      in from_parts (ucast (a * b div m)))"

definition perbill_div :: "perbill \<Rightarrow> perbill \<Rightarrow> perbill option" where
  "perbill_div a b = from_rational_approximation (deconstruct a) (deconstruct b)"

definition perbill_mul :: "perbill \<Rightarrow> 'n::len word \<Rightarrow> 'n word" where
  "perbill_mul s b =
     (let maximum = ucast perbill_max;
          upper_max = (ucast perbill_max :: u64);
          part = ucast (deconstruct s);
          rem_sized = saturated_into_u32 (b mod maximum);
          rem_multiplied_upper = (ucast rem_sized :: u64) * ucast (deconstruct s);
          divided = (ucast (rem_multiplied_upper div upper_max) :: u32);
          divided = (if rem_multiplied_upper mod upper_max > upper_max div 2
                     then divided + 1 else divided)
      in (b div maximum) * part + ucast divided)"

section \<open>Correctness\<close>

definition perbill_wf :: "perbill \<Rightarrow> bool" where
  "perbill_wf p \<longleftrightarrow> deconstruct p \<le> perbill_max"

definition round_div :: "nat \<Rightarrow> nat \<Rightarrow> nat" where
  "round_div x m = x div m + (if x mod m > m div 2 then 1 else 0)"

lemma round_div_le: "x \<le> r * m \<Longrightarrow> 0 < m \<Longrightarrow> round_div x m \<le> r"
proof -
  assume le: "x \<le> r * m" and m: "0 < m"
  show "round_div x m \<le> r"
  proof (cases "x mod m > m div 2")
    case True
    then have "x div m * m < x" using div_mult_mod_eq [of x m] by linarith
    with le have "x div m * m < r * m" by linarith
    then have "x div m < r" by simp
    then show ?thesis by (simp add: round_div_def)
  next
    case False
    with div_le_mono [OF le, of m] m show ?thesis by (simp add: round_div_def)
  qed
qed

lemma half_less: "(m::nat) div 2 < r \<Longrightarrow> 2 * (int m - int r) \<le> int m"
  by arith

lemma half_not_less: "\<not> (m::nat) div 2 < r \<Longrightarrow> 2 * int r \<le> int m"
  by linarith

lemma round_div_nearest:
  assumes "0 < m"
  shows "2 * \<bar>int (round_div x m) * int m - int x\<bar> \<le> int m"
proof -
  have dm: "int x = int (x div m) * int m + int (x mod m)"
    by (metis mult_div_mod_eq of_nat_add of_nat_mult mult.commute)
  have lt: "x mod m < m" using assms by simp
  show ?thesis
  proof (cases "x mod m > m div 2")
    case True
    then have "int (round_div x m) * int m - int x = int m - int (x mod m)"
      using dm by (simp add: round_div_def algebra_simps)
    moreover note half_less [OF True]
    ultimately show ?thesis using lt by simp
  next
    case False
    then have "int (round_div x m) * int m - int x = - int (x mod m)"
      using dm by (simp add: round_div_def)
    moreover note half_not_less [OF False]
    ultimately show ?thesis by simp
  qed
qed

text \<open>The scale as an opaque number with the bounds the macro's tests assert.\<close>

definition billion :: nat where
  "billion = 1000000000"

lemma billion_bounds: "0 < billion" "billion < 2 ^ 32" "billion * billion < 2 ^ 64"
  by (simp_all add: billion_def)

lemma unat_max_billion: "unat perbill_max = billion"
  by (simp add: perbill_max_def billion_def)

lemma perbill_wf_billion: "perbill_wf p \<longleftrightarrow> unat (deconstruct p) \<le> billion"
  by (simp add: perbill_wf_def word_le_nat_alt unat_max_billion)

lemma unat_ucast_max:
  "32 \<le> LENGTH('n) \<Longrightarrow> unat (ucast perbill_max :: 'n::len word) = billion"
  by (simp add: unat_ucast_up unat_max_billion)

lemma round_div_part_le:
  assumes "P \<le> billion"
  shows "B div billion * P + round_div (B mod billion * P) billion \<le> B"
proof -
  have "B div billion * P \<le> B div billion * billion" using assms by simp
  moreover have "round_div (B mod billion * P) billion \<le> B mod billion"
    using assms billion_bounds by (intro round_div_le) auto
  ultimately show ?thesis using div_mult_mod_eq [of B billion] by linarith
qed

text \<open>The remainder's share, computed in the wider type and rounded.\<close>

lemma unat_rem_part:
  fixes r p :: u32
  assumes r: "unat r < billion" and p: "unat p \<le> billion"
  defines "up \<equiv> (ucast r :: u64) * ucast p"
  shows "unat (if up mod ucast perbill_max > ucast perbill_max div 2
               then (ucast (up div ucast perbill_max) :: u32) + 1 else ucast (up div ucast perbill_max))
         = round_div (unat r * unat p) billion"
proof -
  have le: "unat r * unat p \<le> unat r * billion" using p by simp
  also have "\<dots> \<le> billion * billion" using r by simp
  finally have lt: "unat r * unat p < 2 ^ 64" using billion_bounds(3) by linarith
  have up: "unat up = unat r * unat p"
    unfolding up_def using lt by (simp add: unat_word_ariths unat_ucast_up)
  have div_le: "unat r * unat p div billion \<le> unat r"
    using div_le_mono [OF le, of billion] billion_bounds(1) by simp
  then have c: "unat (ucast (up div ucast perbill_max) :: u32) = unat r * unat p div billion"
    using r billion_bounds(2)
    by (subst unat_ucast_fits) (simp_all add: unat_div up unat_ucast_max)
  have g: "(up mod ucast perbill_max > ucast perbill_max div 2)
      = (unat r * unat p mod billion > billion div 2)"
    by (simp add: word_less_nat_alt unat_mod unat_div up unat_ucast_max)
  have "Suc (unat r * unat p div billion) < 2 ^ 32"
    using div_le r billion_bounds(2) by linarith
  then show ?thesis
    unfolding g by (auto simp: round_div_def c unat_word_ariths)
qed

lemma unat_perbill_mul:
  assumes wf: "perbill_wf p" and len: "32 \<le> LENGTH('n)"
  shows "unat (perbill_mul p (b :: 'n::len word)) =
    unat b div billion * unat (deconstruct p)
      + round_div (unat b mod billion * unat (deconstruct p)) billion"
    (is "_ = ?hi + ?lo")
proof -
  have P: "unat (deconstruct p) \<le> billion" using wf by (simp add: perbill_wf_billion)
  have rem: "unat (b mod ucast perbill_max) = unat b mod billion"
    by (simp add: unat_mod unat_ucast_max [OF len])
  have R: "unat b mod billion < billion" using billion_bounds(1) by simp
  then have "unat b mod billion < 2 ^ 32" using billion_bounds(2) by linarith
  then have sized: "unat (saturated_into_u32 (b mod ucast perbill_max)) = unat b mod billion"
    by (simp add: saturated_into_u32_def try_into_u32_def rem unat_ucast_fits)
  let ?up = "ucast (saturated_into_u32 (b mod ucast perbill_max)) * ucast (deconstruct p) :: u64"
  let ?d = "if ?up mod ucast perbill_max > ucast perbill_max div 2
            then (ucast (?up div ucast perbill_max) :: u32) + 1 else ucast (?up div ucast perbill_max)"
  have d: "unat ?d = ?lo"
    using unat_rem_part [of "saturated_into_u32 (b mod ucast perbill_max)" "deconstruct p"] R P
    by (simp add: sized)
  have sum_lt: "?hi + ?lo < 2 ^ LENGTH('n)"
    using round_div_part_le [OF P, of "unat b"] unat_lt_pow [of b] by linarith
  have m1: "unat ((b div ucast perbill_max) * ucast (deconstruct p)) = ?hi"
  proof -
    have "unat (b div ucast perbill_max) = unat b div billion"
      by (simp add: unat_div unat_ucast_max [OF len])
    moreover have "unat (ucast (deconstruct p) :: 'n word) = unat (deconstruct p)"
      using len by (simp add: unat_ucast_up)
    ultimately show ?thesis using sum_lt by (simp add: unat_word_ariths(2))
  qed
  have m2: "unat (ucast ?d :: 'n word) = ?lo"
    unfolding d [symmetric] by (rule unat_ucast_up) (use len in simp)
  have eq: "perbill_mul p b = (b div ucast perbill_max) * ucast (deconstruct p) + ucast ?d"
    by (simp add: perbill_mul_def Let_def)
  show ?thesis
    unfolding eq using m1 m2 sum_lt by (subst unat_add_no_wrap) simp_all
qed

lemma unat_perbill_mul_le:
  assumes "perbill_wf p" and "32 \<le> LENGTH('n)"
  shows "unat (perbill_mul p (b :: 'n::len word)) \<le> unat b"
  using assms(1) by (simp add: unat_perbill_mul [OF assms] round_div_part_le perbill_wf_billion)

lemma perbill_one_wf: "perbill_wf perbill_one"
  by (simp add: perbill_wf_def perbill_one_def)

text \<open>
  C19 (perbill_mul_nearest): multiplying an amount by a fraction of at most one never overflows,
  never yields more than the amount, and is off from the exact product by at most one half.
\<close>

theorem perbill_mul_nearest:
  assumes "perbill_wf p" and "32 \<le> LENGTH('n)"
  shows "unat (perbill_mul p (b :: 'n::len word)) \<le> unat b
    \<and> 2 * \<bar>int (unat (perbill_mul p b)) * 1000000000 - int (unat b) * int (unat (deconstruct p))\<bar>
        \<le> 1000000000"
proof -
  let ?M = billion and ?P = "unat (deconstruct p)"
  let ?lo = "round_div (unat b mod ?M * ?P) ?M"
  have "int (unat b) = int (unat b div ?M) * int ?M + int (unat b mod ?M)"
    by (metis mult_div_mod_eq of_nat_add of_nat_mult mult.commute)
  then have "int (unat (perbill_mul p b)) * int billion - int (unat b) * int ?P
      = int ?lo * int ?M - int (unat b mod ?M * ?P)"
    by (simp add: unat_perbill_mul [OF assms] algebra_simps)
  with round_div_nearest [of ?M "unat b mod ?M * ?P"] billion_bounds(1)
  have near: "2 * \<bar>int (unat (perbill_mul p b)) * int billion - int (unat b) * int ?P\<bar> \<le> int billion"
    by simp
  have "unat (perbill_mul p b) \<le> unat b"
    using assms(1) by (simp add: unat_perbill_mul [OF assms] round_div_part_le perbill_wf_billion)
  with near show ?thesis by (simp add: billion_def)
qed

lemma div_scale_bound:
  fixes q :: nat
  shows "q div max (q div billion) 1 < 2 * billion"
proof (cases "q div billion = 0")
  case True
  then show ?thesis using billion_bounds(1) by (simp add: div_eq_0_iff)
next
  case False
  let ?f = "q div billion"
  have f: "1 \<le> ?f" using False by simp
  have "q mod billion < billion" using billion_bounds(1) by simp
  with div_mult_mod_eq [of q billion] have "q < ?f * billion + billion" by linarith
  also have "\<dots> \<le> ?f * billion + ?f * billion" using f by simp
  also have "\<dots> = (2 * billion) * ?f" by simp
  finally have "q div ?f < 2 * billion" by (rule less_mult_imp_div_less)
  with f show ?thesis by simp
qed

lemma from_rational_approximation_value:
  fixes p q :: "'n::len word"
  assumes len: "32 \<le> LENGTH('n)"
  defines "q' \<equiv> max (unat q) 1"
  defines "p' \<equiv> min (unat p) q'"
  defines "f \<equiv> max (q' div billion) 1"
  shows "\<exists>r. from_rational_approximation p q = Some r
           \<and> unat (deconstruct r) = p' div f * billion div (q' div f)"
proof -
  have pq: "p' div f \<le> q' div f" by (rule div_le_mono) (simp add: p'_def)
  have b: "q' div f < 2 * billion" unfolding f_def by (rule div_scale_bound)
  then have q32: "q' div f < 2 ^ 32" and p32: "p' div f < 2 ^ 32" and p63: "p' div f \<le> 2 * billion"
    using pq by (simp_all add: billion_def)
  have one: "unat (1 :: 'n word) = 1" by simp
  have uq: "unat (max q 1) = q'" by (simp add: unat_max q'_def)
  have up: "unat (min p (max q 1)) = p'" by (simp add: unat_min uq p'_def)
  have uf: "unat (max (max q 1 div ucast perbill_max) 1) = f"
    by (simp add: unat_max unat_div unat_ucast_max [OF len] f_def q'_def)
  let ?q = "ucast (max q 1 div max (max q 1 div ucast perbill_max) 1) :: u32"
  let ?p = "ucast (min p (max q 1) div max (max q 1 div ucast perbill_max) 1) :: u32"
  have q: "unat ?q = q' div f" using q32 by (subst unat_ucast_fits) (simp_all only: unat_div uq uf, simp_all)
  have p: "unat ?p = p' div f" using p32 by (subst unat_ucast_fits) (simp_all only: unat_div up uf, simp_all)
  have "p' div f * billion \<le> 2 * billion * billion" using p63 by simp
  then have lt: "p' div f * billion < 2 ^ 64" by (simp add: billion_def)
  let ?part = "(ucast ?p :: u64) * ucast perbill_max div ucast ?q"
  have part: "unat ?part = p' div f * billion div (q' div f)"
    using lt by (simp add: unat_div unat_word_ariths unat_max_billion unat_ucast_up p q)
  have "p' div f * billion div (q' div f) \<le> q' div f * billion div (q' div f)"
    by (rule div_le_mono) (use pq in simp)
  also have "\<dots> \<le> billion" by (cases "q' div f = 0") simp_all
  finally have "unat ?part < 2 ^ 32" using part billion_bounds(2) by simp
  then have res: "unat (ucast ?part :: u32) = p' div f * billion div (q' div f)"
    using part by (simp add: unat_ucast_fits)
  have "from_rational_approximation p q = Some (Perbill (ucast ?part))"
    using q32 p32
    by (simp add: from_rational_approximation_def Let_def try_into_u32_def unat_div uq up uf
        del: unat_max unat_min)
  with res show ?thesis by auto
qed

text \<open>
  A ratio of any two amounts, a zero denominator
  included, is turned into a fraction between zero and one; neither \<open>expect\<close> of the function can
  fail.  Denominators below one billion are divided exactly, rounding down.
\<close>

theorem from_rational_approximation_total:
  fixes p q :: "'n::len word"
  assumes len: "32 \<le> LENGTH('n)"
  shows "\<exists>r. from_rational_approximation p q = Some r \<and> perbill_wf r
    \<and> (0 < q \<and> unat q < 1000000000 \<and> p \<le> q \<longrightarrow> unat (deconstruct r) = unat p * 1000000000 div unat q)"
proof -
  let ?q = "max (unat q) 1" let ?p = "min (unat p) ?q" let ?f = "max (?q div billion) 1"
  from from_rational_approximation_value [OF len, of p q] obtain r
    where r: "from_rational_approximation p q = Some r"
      and v: "unat (deconstruct r) = ?p div ?f * billion div (?q div ?f)" by blast
  have "?p div ?f \<le> ?q div ?f" by (rule div_le_mono) simp
  then have "?p div ?f * billion \<le> ?q div ?f * billion" by simp
  then have "?p div ?f * billion div (?q div ?f) \<le> ?q div ?f * billion div (?q div ?f)"
    by (rule div_le_mono)
  also have "\<dots> \<le> billion" by (cases "?q div ?f = 0") simp_all
  finally have "perbill_wf r" by (simp add: perbill_wf_billion v)
  moreover have "unat (deconstruct r) = unat p * 1000000000 div unat q"
    if "0 < q \<and> unat q < 1000000000 \<and> p \<le> q"
  proof -
    have q: "?q = unat q" and p: "?p = unat p"
      using that by (auto simp: word_le_nat_alt word_less_nat_alt)
    have f: "?f = 1" using that q by (simp add: billion_def)
    from v [unfolded f, unfolded p, unfolded q] show ?thesis by (simp add: billion_def)
  qed
  ultimately show ?thesis using r by blast
qed

theorem from_rational_approximation_total_witness:
  "\<exists>r. from_rational_approximation (1 :: u64) 3 = Some r \<and> perbill_wf r
     \<and> unat (deconstruct r) = 1 * 1000000000 div 3"
proof -
  have "(0::u64) < 3 \<and> unat (3::u64) < 1000000000 \<and> (1::u64) \<le> 3"
    by (simp add: word_less_nat_alt word_le_nat_alt)
  moreover have "unat (1::u64) = 1" "unat (3::u64) = 3" by simp_all
  ultimately show ?thesis
    using from_rational_approximation_total [of "1 :: u64" 3] by (simp only:) simp
qed

theorem perbill_mul_nearest_witness:
  "perbill_wf (from_percent 36) \<and> unat (perbill_mul (from_percent 36) (10 :: u64)) \<le> 10"
proof -
  have "perbill_wf (from_percent 36)"
    by (simp add: perbill_wf_def from_percent_def perbill_max_def word_le_nat_alt)
  with perbill_mul_nearest [of "from_percent 36" "10 :: u64"] show ?thesis by simp
qed

end
