(* ===== verification/Transaction_Era.thy ===== *)
theory Transaction_Era
  imports Substrate_Prelude
begin

text \<open>
  The mortality of a transaction (\<open>primitives/runtime/src/generic/era.rs\<close>): how an era is built,
  which blocks it spans, and its two-byte encoding.  All quantities are \<open>u64\<close>.
\<close>

unbundle bit_operations_syntax

datatype era = Immortal | Mortal u64 u64

definition quantize_factor :: "u64 \<Rightarrow> u64" where
  "quantize_factor period = max (drop_bit 12 period) 1"

definition checked_next_power_of_two :: "u64 \<Rightarrow> u64 option" where
  "checked_next_power_of_two x =
     (let n = next_power_of_two (unat x) in if n < 2 ^ 64 then Some (of_nat n) else None)"

definition mortal :: "u64 \<Rightarrow> u64 \<Rightarrow> era" where
  "mortal period current =
     (let p = (case checked_next_power_of_two period of None \<Rightarrow> 65536 | Some p \<Rightarrow> p);
          p = min (max p 4) 65536;
          phase = current mod p;
          quantized_phase = phase div quantize_factor p * quantize_factor p
      in Mortal p quantized_phase)"

fun is_immortal :: "era \<Rightarrow> bool" where
  "is_immortal Immortal = True"
| "is_immortal (Mortal _ _) = False"

fun birth :: "era \<Rightarrow> u64 \<Rightarrow> u64" where
  "birth Immortal current = 0"
| "birth (Mortal period phase) current =
     (max current phase - phase) div period * period + phase"

fun death :: "era \<Rightarrow> u64 \<Rightarrow> u64" where
  "death Immortal current = - 1"
| "death (Mortal period phase) current = birth (Mortal period phase) current + period"

fun era_encode :: "era \<Rightarrow> bytes" where
  "era_encode Immortal = [0]"
| "era_encode (Mortal period phase) =
     (let encoded = (ucast (min (max (trailing_zeros period - 1) 1) 15) :: 16 word)
            OR ucast (push_bit 4 (phase div quantize_factor period))
      in [ucast encoded, ucast (drop_bit 8 encoded)])"

datatype era_error = OutOfInput | InvalidPeriodAndPhase

fun era_decode :: "bytes \<Rightarrow> era_error + era \<times> bytes" where
  "era_decode [] = Inl OutOfInput"
| "era_decode (first # rest) =
     (if first = 0 then Inr (Immortal, rest)
      else case rest of
        [] \<Rightarrow> Inl OutOfInput
      | second # rest' \<Rightarrow>
          (let encoded = (ucast first :: u64) + push_bit 8 (ucast second);
               period = push_bit (unat (encoded mod 16)) 2;
               phase = drop_bit 4 encoded * quantize_factor period
           in if period \<ge> 4 \<and> phase < period then Inr (Mortal period phase, rest')
              else Inl InvalidPeriodAndPhase))"

section \<open>Well-formed eras\<close>

text \<open>Periods are the powers of two from 4 to 65536; phases are multiples of the quantum.\<close>

fun era_wf :: "era \<Rightarrow> bool" where
  "era_wf Immortal = True"
| "era_wf (Mortal period phase) \<longleftrightarrow>
     (\<exists>k\<in>{2..16}. unat period = 2 ^ k) \<and> phase < period
     \<and> unat (quantize_factor period) dvd unat phase"

lemma unat_quantize_factor:
  "unat period = 2 ^ k \<Longrightarrow> unat (quantize_factor period) = (if k \<le> 12 then 1 else 2 ^ (k - 12))"
proof -
  assume p: "unat period = 2 ^ k"
  have "unat (drop_bit 12 period) = 2 ^ k div 2 ^ 12"
    by (simp add: drop_bit_eq_div unat_div p)
  moreover have "(2::nat) ^ k div 2 ^ 12 = (if k < 12 then 0 else 2 ^ (k - 12))"
    using power_strict_increasing [of k 12 "2::nat"] by (auto simp: power_diff div_eq_0_iff)
  ultimately show ?thesis by (auto simp: quantize_factor_def unat_max)
qed

lemma quantize_factor_dvd: "unat period = 2 ^ k \<Longrightarrow> unat (quantize_factor period) dvd unat period"
  by (auto simp: unat_quantize_factor le_imp_power_dvd)

lemma mortal_wf: "era_wf (mortal period current)"
proof -
  let ?c = "case checked_next_power_of_two period of None \<Rightarrow> 65536 | Some p \<Rightarrow> p"
  let ?p = "min (max ?c 4) 65536 :: u64"
  obtain j where j: "next_power_of_two (unat period) = 2 ^ j" using next_power_of_two_pow by blast
  have c: "\<exists>i. unat ?c = 2 ^ i"
  proof (cases "next_power_of_two (unat period) < 2 ^ 64")
    case True
    then have "unat (of_nat (next_power_of_two (unat period)) :: u64) = 2 ^ j"
      unfolding j by (intro unat_of_nat_fits) simp
    with True show ?thesis by (auto simp: checked_next_power_of_two_def Let_def)
  next
    case False
    then show ?thesis
      by (auto simp: checked_next_power_of_two_def Let_def intro: exI [of _ 16])
  qed
  then obtain i where i: "unat ?c = 2 ^ i" by blast
  have up: "unat ?p = min (max (2 ^ i) (2 ^ 2)) (2 ^ 16)" by (simp add: unat_min unat_max i)
  also have "\<dots> = 2 ^ min (max i 2) 16" by (simp only: pow2_min pow2_max)
  finally have p: "unat ?p = 2 ^ min (max i 2) 16" .
  let ?q = "quantize_factor ?p"
  have pos: "0 < unat ?p" by (simp add: p)
  have lt: "unat (current mod ?p) < unat ?p" using pos by (simp add: unat_mod)
  have ph: "unat (current mod ?p div ?q * ?q) = unat (current mod ?p) div unat ?q * unat ?q"
    by (rule unat_div_mult)
  have "unat (current mod ?p div ?q * ?q) \<le> unat (current mod ?p)"
    unfolding ph by (rule div_times_less_eq_dividend)
  with lt have "current mod ?p div ?q * ?q < ?p" by (simp add: word_less_nat_alt)
  moreover have "min (max i 2) 16 \<in> {2..16}" by auto
  ultimately show ?thesis
    unfolding mortal_def Let_def era_wf.simps using p ph by (metis dvd_triv_right)
qed


section \<open>The span of an era\<close>

lemma unat_birth:
  assumes "0 < unat period" and "phase \<le> current"
  shows "unat (birth (Mortal period phase) current)
    = (unat current - unat phase) div unat period * unat period + unat phase"
proof -
  have m: "max current phase = current" using assms(2) by (simp add: max_def)
  have d: "unat (current - phase) = unat current - unat phase" using assms(2) by (rule unat_sub)
  have "(unat current - unat phase) div unat period * unat period \<le> unat current - unat phase"
    by (rule div_times_less_eq_dividend)
  then have "unat ((current - phase) div period * period) + unat phase < 2 ^ 64"
    using assms(2) unat_lt_pow [of current] unfolding word_le_nat_alt unat_div_mult d len_u64 by linarith
  then show ?thesis by (simp add: m unat_add_no_wrap unat_div_mult d)
qed

lemma birth_span:
  assumes "0 < unat period" and "phase \<le> current"
  shows "birth (Mortal period phase) current \<le> current
    \<and> unat current < unat (birth (Mortal period phase) current) + unat period"
proof -
  let ?d = "unat current - unat phase"
  have "?d div unat period * unat period \<le> ?d" by (rule div_times_less_eq_dividend)
  moreover have "?d < ?d div unat period * unat period + unat period"
    using assms(1) by (metis dividend_less_div_times add.commute)
  ultimately show ?thesis
    using unat_birth [OF assms] assms(2) unfolding word_le_nat_alt by linarith
qed

text \<open>Within the span the birth block does not move; past it, it has moved by a period.\<close>

lemma birth_stable:
  assumes "0 < unat period" and "phase \<le> c" and "c \<le> x"
    and "unat x < unat (birth (Mortal period phase) c) + unat period"
  shows "birth (Mortal period phase) x = birth (Mortal period phase) c"
proof (rule word_eq_unatI)
  let ?P = "unat period" let ?q = "(unat c - unat phase) div ?P"
  have px: "phase \<le> x" using assms(2,3) by simp
  have bc: "unat (birth (Mortal period phase) c) = ?q * ?P + unat phase"
    by (rule unat_birth [OF assms(1,2)])
  have "?q * ?P \<le> unat c - unat phase" by (rule div_times_less_eq_dividend)
  then have "?q * ?P \<le> unat x - unat phase" using assms(3) unfolding word_le_nat_alt by linarith
  moreover have "unat x - unat phase < Suc ?q * ?P"
    using assms(4) bc px unfolding word_le_nat_alt by simp
  ultimately have "(unat x - unat phase) div ?P = ?q"
    by (intro div_nat_eqI) (simp_all add: mult.commute)
  then show "unat (birth (Mortal period phase) x) = unat (birth (Mortal period phase) c)"
    by (simp only: bc unat_birth [OF assms(1) px])
qed

lemma birth_expired:
  assumes "0 < unat period" and "phase \<le> c" and "c \<le> x"
    and "unat (birth (Mortal period phase) c) + unat period \<le> unat x"
  shows "unat (birth (Mortal period phase) c) < unat (birth (Mortal period phase) x)"
proof -
  have "phase \<le> x" using assms(2,3) by simp
  from birth_span [OF assms(1) this] assms(4) show ?thesis by linarith
qed

lemma mortal_facts:
  assumes "mortal period current = Mortal p ph"
  shows "era_wf (Mortal p ph) \<and> 0 < unat p \<and> unat p \<le> 65536 \<and> ph \<le> current"
proof -
  from mortal_wf [of period current] assms have wf: "era_wf (Mortal p ph)" by simp
  then obtain k where k: "k \<in> {2..16}" "unat p = 2 ^ k" by auto
  have "unat p \<le> 2 ^ 16" unfolding k(2) using k(1) by (intro power_increasing) auto
  moreover have "ph \<le> current"
  proof -
    have ph: "ph = current mod p div quantize_factor p * quantize_factor p"
      using assms by (auto simp: mortal_def Let_def)
    have "unat (current mod p) div unat (quantize_factor p) * unat (quantize_factor p)
        \<le> unat (current mod p)" by (rule div_times_less_eq_dividend)
    then have "unat ph \<le> unat (current mod p)" by (simp only: ph unat_div_mult)
    also have "\<dots> \<le> unat current" by (simp add: unat_mod)
    finally show ?thesis by (simp add: word_le_nat_alt)
  qed
  ultimately show ?thesis using wf k(2) by simp
qed

text \<open>
  An era created for a period and the current block is well formed,
  contains the current block, and ends at most 65536 blocks after its birth.
\<close>

theorem mortal_spans_current:
  "\<exists>p ph. mortal period current = Mortal p ph \<and> era_wf (Mortal p ph)
     \<and> birth (Mortal p ph) current \<le> current
     \<and> unat current < unat (birth (Mortal p ph) current) + unat p \<and> unat p \<le> 65536"
proof -
  obtain p ph where e: "mortal period current = Mortal p ph"
    by (auto simp: mortal_def Let_def)
  with mortal_facts [OF e] birth_span [of p ph current] show ?thesis by blast
qed

section \<open>Encoding\<close>

lemma or_nibble: "a < 16 \<Longrightarrow> 16 * b < 65536 \<Longrightarrow>
    unat ((of_nat a :: 16 word) OR of_nat (16 * b)) = a + 16 * b"
proof -
  assume a: "a < 16" and b: "16 * b < 65536"
  have "take_bit 4 a = a" using a by (simp add: take_bit_nat_eq_self)
  then have "bit a n \<Longrightarrow> n < 4" for n by (metis bit_take_bit_iff)
  then have "(a::nat) OR push_bit 4 b = a + push_bit 4 b"
    by (intro disjunctive_add_eq_or [symmetric])
      (auto simp: bit_eq_iff bit_simps not_le [symmetric])
  moreover have "push_bit 4 b = 16 * b" by (simp add: push_bit_eq_mult)
  ultimately have "(a::nat) OR (16 * b) = a + 16 * b" by simp
  moreover have "unat (of_nat a :: 16 word) = a" "unat (of_nat (16 * b) :: 16 word) = 16 * b"
    by (rule unat_of_nat_fits, use a b in simp)+
  ultimately show ?thesis by (simp add: unsigned_or_eq)
qed

lemma unat_low_byte: "unat (ucast (w :: 16 word) :: u8) = unat w mod 256"
  by (simp add: unsigned_ucast_eq take_bit_eq_mod)

lemma unat_high_byte: "unat (ucast (drop_bit 8 (w :: 16 word)) :: u8) = unat w div 256"
proof -
  have "unat (drop_bit 8 w) = unat w div 256" by (simp add: drop_bit_eq_div unat_div)
  moreover have "unat w div 256 < 2 ^ 8" using unat_lt_pow [of w] by simp
  ultimately show ?thesis by (subst unat_ucast_fits) simp_all
qed

text \<open>The sixteen bits of a well-formed mortal era: the exponent below, the phase in quanta above.\<close>

lemma unat_encoded:
  assumes k: "k \<in> {2..16}" "unat period = 2 ^ k" and lt: "phase < period"
  defines "encoded \<equiv> (ucast (min (max (trailing_zeros period - 1) 1) 15) :: 16 word)
            OR ucast (push_bit 4 (phase div quantize_factor period))"
  shows "unat encoded = (k - 1) + 16 * (unat phase div unat (quantize_factor period))"
    and "unat phase div unat (quantize_factor period) < 4096"
proof -
  let ?q = "unat (quantize_factor period)" let ?b = "unat phase div ?q"
  have q: "?q = (if k \<le> 12 then 1 else 2 ^ (k - 12))" by (rule unat_quantize_factor [OF k(2)])
  have "unat period \<le> 4096 * ?q"
  proof (cases "k \<le> 12")
    case True
    then have "(2::nat) ^ k \<le> 2 ^ 12" by (intro power_increasing) auto
    with True show ?thesis by (simp add: q k(2))
  next
    case False
    then have "(2::nat) ^ k = 2 ^ 12 * 2 ^ (k - 12)"
      unfolding power_add [symmetric] by (intro arg_cong [of _ _ "\<lambda>n. 2 ^ n"]) simp
    with False show ?thesis by (simp add: q k(2))
  qed
  with lt have "unat phase < 4096 * ?q" by (simp only: word_less_nat_alt)
  then show b: "?b < 4096" by (rule less_mult_imp_div_less)
  have tz: "unat (trailing_zeros period) = k" using k by (intro trailing_zeros_pow) auto
  have "1 \<le> trailing_zeros period" using tz k(1) by (simp add: word_le_nat_alt)
  then have "unat (trailing_zeros period - 1) = k - 1" using tz by (simp add: unat_sub)
  then have lo: "unat (min (max (trailing_zeros period - 1) 1) 15) = k - 1"
    using k(1) unfolding unat_min unat_max by auto
  have lo': "(ucast (min (max (trailing_zeros period - 1) 1) 15) :: 16 word) = of_nat (k - 1)"
    unfolding ucast_of_unat lo ..
  have "unat (push_bit 4 (phase div quantize_factor period)) = 16 * ?b"
    using b by (simp add: push_bit_eq_mult unat_word_ariths unat_div)
  then have hi: "(ucast (push_bit 4 (phase div quantize_factor period)) :: 16 word) = of_nat (16 * ?b)"
    unfolding ucast_of_unat by (rule arg_cong)
  show "unat encoded = (k - 1) + 16 * ?b"
    unfolding encoded_def lo' hi using k(1) b by (intro or_nibble) auto
qed

lemma unat_rejoined:
  "unat ((ucast (ucast (w :: 16 word) :: u8) :: u64) + push_bit 8 (ucast (ucast (drop_bit 8 w) :: u8))) = unat w"
proof -
  have w: "unat w < 65536" using unat_lt_pow [of w] by simp
  have lo: "unat (ucast (ucast w :: u8) :: u64) = unat w mod 256"
    by (subst unat_ucast_up) (simp_all only: unat_low_byte, simp)
  have "unat (ucast (ucast (drop_bit 8 w) :: u8) :: u64) = unat w div 256"
    by (subst unat_ucast_up) (simp_all only: unat_high_byte, simp)
  then have hi: "unat (push_bit 8 (ucast (ucast (drop_bit 8 w) :: u8) :: u64)) = unat w div 256 * 256"
    using w by (subst unat_push_bit_fits) simp_all
  have "unat w mod 256 + unat w div 256 * 256 = unat w" by (rule mod_div_mult_eq)
  then show ?thesis using w by (subst unat_add_no_wrap) (simp_all only: lo hi, simp)
qed

lemma encoded_low_nonzero:
  assumes "unat (w :: 16 word) = j + 16 * b" and "1 \<le> j" and "j < 16"
  shows "(ucast w :: u8) \<noteq> 0"
proof
  assume "(ucast w :: u8) = 0"
  then have "(j + 16 * b) mod 256 = 0" using unat_low_byte [of w] assms(1) by simp
  then have "(j + 16 * b) mod 16 = 0"
    using mod_mod_cancel [of 16 256 "j + 16 * b"] by simp
  with assms(2,3) show False by simp
qed

lemma era_decode_encoded:
  assumes w: "unat (w :: 16 word) = j + 16 * b" and j: "1 \<le> j" "j < 16"
    and p: "unat (period :: u64) = 2 ^ Suc j" and ph: "unat phase = b * unat (quantize_factor period)"
    and lt: "phase < period"
  shows "era_decode (ucast w # ucast (drop_bit 8 w) # rest) = Inr (Mortal period phase, rest)"
proof -
  define e where "e = (ucast (ucast w :: u8) :: u64) + push_bit 8 (ucast (ucast (drop_bit 8 w) :: u8))"
  have e: "unat e = j + 16 * b" by (simp only: e_def unat_rejoined w)
  have "unat (e mod 16) = j" using j by (simp only: unat_mod e) simp
  moreover have "(2::nat) ^ Suc j < 2 ^ 64" using j by (intro power_strict_increasing) auto
  ultimately have per: "push_bit (unat (e mod 16)) 2 = period"
    by (intro word_eq_unatI) (simp add: unat_push_bit_fits p)
  have "unat (drop_bit 4 e) = b"
    using j by (simp only: drop_bit_eq_div unat_div e) simp
  then have phs: "drop_bit 4 e * quantize_factor period = phase"
    using unat_lt_pow [of phase]
    by (intro word_eq_unatI) (simp only: unat_word_ariths ph mod_less)
  have "(4::nat) \<le> 2 ^ Suc j" using power_increasing [of 2 "Suc j" "2::nat"] j by simp
  then have "4 \<le> period" by (simp add: word_le_nat_alt p)
  then show ?thesis
    using lt encoded_low_nonzero [OF w j] 
    by (simp only: era_decode.simps list.case Let_def e_def [symmetric] per phs if_False if_True simp_thms)
qed

text \<open>
  C20 (era_decode_encode): decoding is the inverse of encoding on every well-formed era (in
  particular on every era that \<open>mortal\<close> builds) and leaves the rest of the input untouched.
\<close>

theorem era_decode_encode:
  assumes "era_wf e"
  shows "era_decode (era_encode e @ rest) = Inr (e, rest)"
proof (cases e)
  case (Mortal period phase)
  with assms obtain k where k: "k \<in> {2..16}" "unat period = 2 ^ k" and lt: "phase < period"
    and dvd: "unat (quantize_factor period) dvd unat phase" by auto
  show ?thesis
    unfolding Mortal era_encode.simps Let_def append.simps
    by (rule era_decode_encoded [OF unat_encoded(1) [OF k lt]])
      (use k lt dvd in auto)
qed simp

theorem era_decode_encode_witness:
  "era_decode (era_encode (mortal 64 42) @ [7]) = Inr (mortal 64 42, [7])"
  by (rule era_decode_encode [OF mortal_wf])

end
