(* ===== verification/Signed_Extensions.thy ===== *)
theory Signed_Extensions
  imports Frame_System Per_Things Transaction_Era
begin

text \<open>
  The signed extensions of the system module (\<open>CheckWeight\<close>, \<open>CheckNonce\<close>, \<open>CheckEra\<close>,
  \<open>CheckGenesis\<close> in \<open>frame/system/src/lib.rs\<close>), its raw-storage dispatchables, and the
  transaction-validity values they produce
  (\<open>primitives/runtime/src/transaction_validity.rs\<close>).  The limits of the runtime
  (\<open>MaximumBlockWeight\<close>, \<open>MaximumBlockLength\<close>, \<open>AvailableBlockRatio\<close>) are the fields of a
  configuration record, as they are associated types of the module's trait.
\<close>

section \<open>Validity of transactions\<close>

datatype invalid_transaction =
    Call | Payment | Future | Stale | BadProof | AncientBirthBlock | ExhaustsResources | InvalidCustom u8

datatype unknown_transaction = UnknownCannotLookup | NoUnsignedValidator | UnknownCustom u8

datatype validity_error = Invalid invalid_transaction | Unknown unknown_transaction

fun invalid_exhausted_resources :: "invalid_transaction \<Rightarrow> bool" where
  "invalid_exhausted_resources ExhaustsResources = True"
| "invalid_exhausted_resources _ = False"

fun exhausted_resources :: "validity_error \<Rightarrow> bool" where
  "exhausted_resources (Invalid e) = invalid_exhausted_resources e"
| "exhausted_resources (Unknown _) = False"

record valid_transaction =
  priority :: u64
  requires :: "bytes list"
  provides :: "bytes list"
  longevity :: u64
  propagate :: bool

definition valid_transaction_default :: valid_transaction where
  "valid_transaction_default =
     \<lparr>priority = 0, requires = [], provides = [], longevity = - 1, propagate = True\<rparr>"

definition combine_with :: "valid_transaction \<Rightarrow> valid_transaction \<Rightarrow> valid_transaction" where
  "combine_with v w =
     \<lparr>priority = saturating_add (priority v) (priority w),
      requires = requires v @ requires w,
      provides = provides v @ provides w,
      longevity = min (longevity v) (longevity w),
      propagate = (propagate v \<and> propagate w)\<rparr>"

section \<open>CheckWeight\<close>

record limits =
  MaximumBlockWeight :: u32
  MaximumBlockLength :: u32
  AvailableBlockRatio :: perbill

fun get_dispatch_limit_ratio :: "limits \<Rightarrow> dispatch_class \<Rightarrow> perbill" where
  "get_dispatch_limit_ratio l Operational = perbill_one"
| "get_dispatch_limit_ratio l Normal = AvailableBlockRatio l"

definition check_weight ::
  "limits \<Rightarrow> dispatch_info \<Rightarrow> ('acc, 'hash, 'dig, 'ev) system_state \<Rightarrow> validity_error + u32" where
  "check_weight l info s =
     (let current_weight = all_extrinsics_weight s;
          maximum_weight = MaximumBlockWeight l;
          limit = perbill_mul (get_dispatch_limit_ratio l (dclass info)) maximum_weight;
          added_weight = min (weight info) limit;
          next_weight = saturating_add current_weight added_weight
      in if next_weight > limit then Inl (Invalid ExhaustsResources) else Inr next_weight)"

definition check_block_length ::
  "limits \<Rightarrow> dispatch_info \<Rightarrow> u64 \<Rightarrow> ('acc, 'hash, 'dig, 'ev) system_state \<Rightarrow> validity_error + u32" where
  "check_block_length l info len s =
     (let current_len = all_extrinsics_len s;
          maximum_len = MaximumBlockLength l;
          limit = perbill_mul (get_dispatch_limit_ratio l (dclass info)) maximum_len;
          added_len = ucast len;
          next_len = saturating_add current_len added_len
      in if next_len > limit then Inl (Invalid ExhaustsResources) else Inr next_len)"

definition get_priority :: "dispatch_info \<Rightarrow> u64" where
  "get_priority info = (case dclass info of Normal \<Rightarrow> ucast (weight info) | Operational \<Rightarrow> - 1)"

definition check_weight_pre_dispatch ::
  "limits \<Rightarrow> dispatch_info \<Rightarrow> u64 \<Rightarrow> ('acc, 'hash, 'dig, 'ev) system_state
    \<Rightarrow> (validity_error + unit) \<times> ('acc, 'hash, 'dig, 'ev) system_state" where
  "check_weight_pre_dispatch l info len s =
     (case check_block_length l info len s of
        Inl e \<Rightarrow> (Inl e, s)
      | Inr next_len \<Rightarrow>
          (let s1 = s\<lparr>AllExtrinsicsLen := Some next_len\<rparr>
           in case check_weight l info s1 of
                Inl e \<Rightarrow> (Inl e, s1)
              | Inr next_weight \<Rightarrow> (Inr (), s1\<lparr>AllExtrinsicsWeight := Some next_weight\<rparr>)))"

definition check_weight_validate ::
  "limits \<Rightarrow> dispatch_info \<Rightarrow> u64 \<Rightarrow> ('acc, 'hash, 'dig, 'ev) system_state
    \<Rightarrow> validity_error + valid_transaction" where
  "check_weight_validate l info len s =
     (case check_block_length l info len s of
        Inl e \<Rightarrow> Inl e
      | Inr _ \<Rightarrow>
          (case check_weight l info s of
             Inl e \<Rightarrow> Inl e
           | Inr _ \<Rightarrow> Inr (valid_transaction_default\<lparr>priority := get_priority info\<rparr>)))"

section \<open>CheckNonce\<close>

definition check_nonce_pre_dispatch ::
  "u32 \<Rightarrow> 'acc \<Rightarrow> ('acc, 'hash, 'dig, 'ev) system_state
    \<Rightarrow> (validity_error + unit) \<times> ('acc, 'hash, 'dig, 'ev) system_state" where
  "check_nonce_pre_dispatch nonce who s =
     (let expected = account_nonce s who
      in if nonce \<noteq> expected
         then (Inl (Invalid (if nonce < expected then Stale else Future)), s)
         else (Inr (), s\<lparr>AccountNonce := (AccountNonce s)(who \<mapsto> expected + 1)\<rparr>))"

text \<open>\<open>enc\<close> is the codec's encoding of an account and a nonce, the tag a transaction provides.\<close>

definition check_nonce_validate ::
  "('acc \<times> u32 \<Rightarrow> bytes) \<Rightarrow> u32 \<Rightarrow> 'acc \<Rightarrow> dispatch_info \<Rightarrow> ('acc, 'hash, 'dig, 'ev) system_state
    \<Rightarrow> validity_error + valid_transaction" where
  "check_nonce_validate enc nonce who info s =
     (let expected = account_nonce s who
      in if nonce < expected then Inl (Invalid Stale)
         else Inr \<lparr>priority = ucast (weight info),
                   requires = (if expected < nonce then [enc (who, nonce - 1)] else []),
                   provides = [enc (who, nonce)],
                   longevity = - 1,
                   propagate = True\<rparr>)"

section \<open>CheckEra and CheckGenesis\<close>

definition check_era_validate ::
  "era \<Rightarrow> ('acc, 'hash, 'dig, 'ev) system_state \<Rightarrow> validity_error + valid_transaction" where
  "check_era_validate era s =
     (let current_u64 = ucast (Number s);
          valid_till = death era current_u64
      in Inr (valid_transaction_default\<lparr>longevity := saturating_sub valid_till current_u64\<rparr>))"

definition block_hash :: "'hash \<Rightarrow> u32 \<Rightarrow> ('acc, 'hash, 'dig, 'ev) system_state \<Rightarrow> 'hash" where
  "block_hash default_hash n s = (case BlockHash s n of None \<Rightarrow> default_hash | Some h \<Rightarrow> h)"

definition check_era_additional_signed ::
  "'hash \<Rightarrow> era \<Rightarrow> ('acc, 'hash, 'dig, 'ev) system_state \<Rightarrow> validity_error + 'hash" where
  "check_era_additional_signed default_hash era s =
     (let current_u64 = ucast (Number s);
          n = saturated_into_u32 (birth era current_u64)
      in if BlockHash s n = None then Inl (Invalid AncientBirthBlock)
         else Inr (block_hash default_hash n s))"

definition check_genesis_additional_signed ::
  "'hash \<Rightarrow> ('acc, 'hash, 'dig, 'ev) system_state \<Rightarrow> validity_error + 'hash" where
  "check_genesis_additional_signed default_hash s = Inr (block_hash default_hash 0 s)"

end
