(* ===== verification/Block_Lifecycle.thy ===== *)
theory Block_Lifecycle
  imports Signed_Extensions
begin

text \<open>
  A chain of blocks as the executive runs it: a block is opened by \<open>initialize\<close>, worked on by the
  operations of the system module and its signed extensions, and closed by \<open>finalize\<close>.  The
  resource limits and the block-hash window are invariants of every reachable state; a mortal
  transaction finds the hash of its birth block.
\<close>

section \<open>The chain as a step relation\<close>

text \<open>What may happen inside a block; a failed \<open>pre_dispatch\<close> keeps what it already wrote.\<close>

inductive in_block ::
  "limits \<Rightarrow> ('acc, 'hash, 'dig, ('err, 'e) outer_event) system_state
    \<Rightarrow> ('acc, 'hash, 'dig, ('err, 'e) outer_event) system_state \<Rightarrow> bool" for l where
  event: "in_block l s (deposit_event_indexed ts ev s)"
| log: "in_block l s (deposit_log item s)"
| extra_weight: "in_block l s (register_extra_weight_unchecked (MaximumBlockWeight l) w s)"
| note_xt: "in_block l s (note_extrinsic xt s)"
| applied: "in_block l s (note_applied_extrinsic r info s)"
| finished: "in_block l s (note_finished_extrinsics s)"
| derive: "in_block l s (derive_extrinsics root s)"
| weighed: "check_weight_pre_dispatch l info len s = (r', t) \<Longrightarrow> in_block l s t"
| nonced: "check_nonce_pre_dispatch nonce who s = (r', t) \<Longrightarrow> in_block l s t"

text \<open>
  The state of a chain: the hashes of the blocks so far (block 0 first), whether a block is open,
  and the storage of the system module.
\<close>

type_synonym ('acc, 'hash, 'dig, 'ev) chain =
  "'hash list \<times> bool \<times> ('acc, 'hash, 'dig, 'ev) system_state"

inductive chain_step ::
  "limits \<Rightarrow> u32 \<Rightarrow> ('acc, 'hash, 'dig, ('err, 'e) outer_event) chain
    \<Rightarrow> ('acc, 'hash, 'dig, ('err, 'e) outer_event) chain \<Rightarrow> bool" for l bhc where
  open_block: "Suc (length hs) < 2 ^ 32 \<Longrightarrow>
    chain_step l bhc (hs, False, s)
      (hs @ [parent], True, initialize (of_nat (Suc (length hs))) parent root digest s)"
| work: "in_block l s t \<Longrightarrow> chain_step l bhc (hs, True, s) (hs, True, t)"
| close_block: "chain_step l bhc (hs, True, s) (hs, False, snd (finalize dh bhc sr cr s))"

inductive_cases in_blockE: "in_block l s t"
inductive_cases chain_stepE: "chain_step l bhc c c'"

definition chain_init :: "('acc, 'hash, 'dig, 'ev) chain \<Rightarrow> bool" where
  "chain_init c \<longleftrightarrow> (\<exists>h s. c = ([], False, s) \<and> BlockHash s = [0 \<mapsto> h]
     \<and> AllExtrinsicsWeight s = None \<and> AllExtrinsicsLen s = None)"

section \<open>Resource limits\<close>

lemma limit_le:
  "perbill_wf (AvailableBlockRatio l) \<Longrightarrow> perbill_mul (get_dispatch_limit_ratio l c) (m :: u32) \<le> m"
  using unat_perbill_mul_le [of "get_dispatch_limit_ratio l c" m] perbill_one_wf
  by (cases c) (simp_all add: word_le_nat_alt)

definition within_limits :: "limits \<Rightarrow> ('acc, 'hash, 'dig, 'ev) system_state \<Rightarrow> bool" where
  "within_limits l s \<longleftrightarrow> all_extrinsics_weight s \<le> MaximumBlockWeight l
     \<and> all_extrinsics_len s \<le> MaximumBlockLength l"

lemma check_weight_pre_dispatch_within:
  assumes "perbill_wf (AvailableBlockRatio l)" and "within_limits l s"
    and "check_weight_pre_dispatch l info len s = (r, t)"
  shows "within_limits l t"
  using assms(2,3) limit_le [OF assms(1), of "dclass info" "MaximumBlockWeight l"]
    limit_le [OF assms(1), of "dclass info" "MaximumBlockLength l"]
  by (auto simp: check_weight_pre_dispatch_def check_weight_def check_block_length_def Let_def
      within_limits_def all_extrinsics_weight_def all_extrinsics_len_def not_less
      split: if_splits sum.splits)

lemma in_block_within:
  assumes "in_block l s t" and "perbill_wf (AvailableBlockRatio l)" and "within_limits l s"
  shows "within_limits l t"
  using assms(1)
proof cases
  case (weighed info len r')
  with assms show ?thesis by (blast intro: check_weight_pre_dispatch_within)
qed (use assms(3) in \<open>auto simp: within_limits_def all_extrinsics_weight_def all_extrinsics_len_def
      deposit_event_indexed_def deposit_log_def register_extra_weight_unchecked_def
      note_extrinsic_def note_applied_extrinsic_def note_finished_extrinsics_def derive_extrinsics_def
      check_nonce_pre_dispatch_def Let_def split: option.splits prod.splits if_splits\<close>)

section \<open>The block-hash window\<close>

definition window :: "'hash list \<Rightarrow> nat \<Rightarrow> u32 \<Rightarrow> 'hash option" where
  "window hs k n =
     (if unat n < length hs \<and> (n = 0 \<or> length hs \<le> unat n + k) then Some (hs ! unat n) else None)"

fun chain_inv :: "limits \<Rightarrow> u32 \<Rightarrow> ('acc, 'hash, 'dig, 'ev) chain \<Rightarrow> bool" where
  "chain_inv l bhc (hs, opened, s) \<longleftrightarrow>
     within_limits l s \<and> length hs < 2 ^ 32
     \<and> (opened \<longrightarrow> hs \<noteq> [] \<and> unat (Number s) = length hs)
     \<and> (if hs = [] then \<exists>h. BlockHash s = [0 \<mapsto> h]
        else BlockHash s = window hs (if opened then Suc (unat bhc) else unat bhc))"

lemma in_block_frame: "in_block l s t \<Longrightarrow> BlockHash t = BlockHash s \<and> Number t = Number s"
  by (erule in_blockE)
    (auto simp: deposit_event_indexed_def deposit_log_def register_extra_weight_unchecked_def
      note_extrinsic_def note_applied_extrinsic_def note_finished_extrinsics_def derive_extrinsics_def
      check_nonce_pre_dispatch_def check_weight_pre_dispatch_def Let_def
      split: option.splits prod.splits if_splits sum.splits)

lemma finalize_simps:
  "BlockHash (snd (finalize dh bhc sr cr s)) =
     (if Number s > bhc \<and> Number s - bhc - 1 \<noteq> 0
      then (BlockHash s)(Number s - bhc - 1 := None) else BlockHash s)"
  "AllExtrinsicsWeight (snd (finalize dh bhc sr cr s)) = None"
  "AllExtrinsicsLen (snd (finalize dh bhc sr cr s)) = None"
  by (simp_all add: finalize_def Let_def)

lemma window_open:
  assumes "length hs < 2 ^ 32 - 1"
  shows "(if hs = [] then [0 \<mapsto> h] else window hs k)(of_nat (length hs) \<mapsto> p)
    = window (hs @ [p]) (Suc k)"
proof
  fix n :: u32
  have eq: "n = of_nat (length hs) \<longleftrightarrow> unat n = length hs"
    using assms unat_of_nat_fits [of "length hs", where 'a=32] by (auto intro: word_eq_unatI)
  show "((if hs = [] then [0 \<mapsto> h] else window hs k)(of_nat (length hs) \<mapsto> p)) n
    = window (hs @ [p]) (Suc k) n"
    by (cases "n = 0") (auto simp: window_def eq nth_append simp flip: unat_eq_zero)
qed

lemma window_close:
  assumes "unat num = length hs" and "hs \<noteq> []"
  shows "(if num > bhc \<and> num - bhc - 1 \<noteq> 0 then (window hs (Suc (unat bhc)))(num - bhc - 1 := None)
          else window hs (Suc (unat bhc))) = window hs (unat bhc)" (is "?l = _")
proof
  fix n :: u32
  show "?l n = window hs (unat bhc) n"
  proof (cases "num > bhc")
    case True
    then have "unat (num - bhc) = length hs - unat bhc"
      using assms by (simp add: unat_sub word_less_nat_alt word_le_nat_alt)
    moreover from this have "1 \<le> num - bhc" using True assms by (simp add: word_le_nat_alt word_less_nat_alt)
    ultimately have "unat (num - bhc - 1) = length hs - unat bhc - 1" by (simp add: unat_sub)
    then have "n = num - bhc - 1 \<longleftrightarrow> unat n = length hs - unat bhc - 1"
      by (metis word_eq_unatI)
    then show ?thesis using True assms
      by (cases "n = 0") (auto simp: window_def word_less_nat_alt)
  next
    case False
    then show ?thesis using assms by (auto simp: window_def word_less_nat_alt)
  qed
qed

lemma chain_step_inv:
  assumes "perbill_wf (AvailableBlockRatio l)" and "chain_inv l bhc c" and "chain_step l bhc c c'"
  shows "chain_inv l bhc c'"
  using assms(3)
proof cases
  case (open_block hs s parent root digest)
  have pred: "of_nat (Suc (length hs)) - 1 = (of_nat (length hs) :: u32)" by simp
  obtain h where "BlockHash s = (if hs = [] then [0 \<mapsto> h] else window hs (unat bhc))"
    using assms(2) open_block(1) by (auto split: if_splits)
  then show ?thesis
    using assms(2) open_block window_open [of hs h "unat bhc" parent]
    by (auto simp: initialize_def pred within_limits_def all_extrinsics_weight_def
        all_extrinsics_len_def unat_of_nat_fits simp del: of_nat_Suc)
next
  case (work s t hs)
  with assms(1,2) show ?thesis using in_block_within [of l s t] in_block_frame [of l s t] by auto
next
  case (close_block hs s dh sr cr)
  with assms(2) have "unat (Number s) = length hs" "hs \<noteq> []"
    "BlockHash s = window hs (Suc (unat bhc))" by auto
  note bh = this
  have "BlockHash (snd (finalize dh bhc sr cr s)) = window hs (unat bhc)"
    unfolding finalize_simps bh(3) by (rule window_close [OF bh(1,2)])
  moreover have "within_limits l (snd (finalize dh bhc sr cr s))"
    by (simp add: finalize_simps within_limits_def all_extrinsics_weight_def all_extrinsics_len_def)
  ultimately show ?thesis using close_block assms(2) \<open>hs \<noteq> []\<close> by simp
qed

text \<open>
  A limit configuration whose ratio is above one is not a \<open>Perbill\<close> the constructors can build;
  under such a configuration the system below has no steps.
\<close>

interpretation blocks: guarded_system chain_init
  "\<lambda>c c'. perbill_wf (AvailableBlockRatio l) \<and> chain_step l bhc c c'" "chain_inv l bhc" for l bhc
  by unfold_locales
    (auto simp: chain_init_def within_limits_def all_extrinsics_weight_def all_extrinsics_len_def
      intro: chain_step_inv simp del: chain_inv.simps,
      auto simp: within_limits_def all_extrinsics_weight_def all_extrinsics_len_def)

lemma chain_reachable_inv:
  assumes "perbill_wf (AvailableBlockRatio l)" and "chain_init c0" and "(chain_step l bhc)\<^sup>*\<^sup>* c0 c"
  shows "chain_inv l bhc c"
  using assms by (intro blocks.inv_reachable [of c0 l bhc c]) simp_all

section \<open>Properties\<close>

text \<open>
  C16 (block_hash_window): while block number \<open>n\<close> is open, \<open>BlockHash\<close> holds exactly the genesis
  hash and the hashes of the last \<open>BlockHashCount + 1\<close> blocks, each the hash its successor was
  initialised with.  The documentation of \<open>BlockHashCount\<close> calls it the maximum number of hashes
  kept, oldest pruned first; the genesis hash is never pruned and the bound is exceeded by two.
\<close>

theorem block_hash_window:
  assumes "perbill_wf (AvailableBlockRatio l)" and "chain_init c0"
    and "(chain_step l bhc)\<^sup>*\<^sup>* c0 (hs, True, s)"
  shows "unat (Number s) = length hs
    \<and> (\<forall>n. BlockHash s n = (if unat n < length hs \<and> (n = 0 \<or> length hs \<le> unat n + unat bhc + 1)
                             then Some (hs ! unat n) else None))"
  using chain_reachable_inv [OF assms] by (auto simp: window_def)

text \<open>
  C10 (block_resources_bounded): whatever sequence of extrinsics is attempted, the weight and the
  length registered for a block never exceed the configured maxima.
\<close>

theorem block_resources_bounded:
  assumes "perbill_wf (AvailableBlockRatio l)" and "chain_init c0"
    and "(chain_step l bhc)\<^sup>*\<^sup>* c0 (hs, opened, s)"
  shows "all_extrinsics_weight s \<le> MaximumBlockWeight l \<and> all_extrinsics_len s \<le> MaximumBlockLength l"
  using chain_reachable_inv [OF assms] by (simp add: within_limits_def)

text \<open>The limits of an extrinsic's class, as natural numbers.\<close>

definition weight_limit :: "limits \<Rightarrow> dispatch_info \<Rightarrow> nat" where
  "weight_limit l info =
     unat (perbill_mul (get_dispatch_limit_ratio l (dclass info)) (MaximumBlockWeight l))"

definition length_limit :: "limits \<Rightarrow> dispatch_info \<Rightarrow> nat" where
  "length_limit l info =
     unat (perbill_mul (get_dispatch_limit_ratio l (dclass info)) (MaximumBlockLength l))"

lemma capped_add_Inr_iff:
  assumes "unat (lim :: u32) < 2 ^ 32 - 1"
  shows "(if lim < saturating_add a b then Inl e else Inr (saturating_add a b)) = Inr w
    \<longleftrightarrow> unat a + unat b \<le> unat lim \<and> unat w = unat a + unat b"
proof -
  define M where "M = (2 ^ 32 - 1 :: nat)"
  have sat: "unat (saturating_add a b) = min (unat a + unat b) M"
    using unat_saturating_add [of a b] by (simp add: M_def)
  have lim: "unat lim < M" using assms unfolding M_def .
  then have "lim < saturating_add a b \<longleftrightarrow> \<not> unat a + unat b \<le> unat lim"
    unfolding word_less_nat_alt sat by auto
  moreover have "saturating_add a b = w \<longleftrightarrow> unat w = unat a + unat b" if "unat a + unat b \<le> unat lim"
    using that lim sat by (metis min.absorb1 order.trans less_imp_le word_eq_unatI)
  ultimately show ?thesis by simp
qed

lemma check_weight_Inr_iff:
  assumes "weight_limit l info < 2 ^ 32 - 1"
  shows "check_weight l info s = Inr w \<longleftrightarrow>
      unat (all_extrinsics_weight s) + min (unat (weight info)) (weight_limit l info) \<le> weight_limit l info
      \<and> unat w = unat (all_extrinsics_weight s) + min (unat (weight info)) (weight_limit l info)"
  using assms unfolding check_weight_def Let_def weight_limit_def unat_min [symmetric]
  by (rule capped_add_Inr_iff)

lemma check_block_length_Inr_iff:
  assumes "length_limit l info < 2 ^ 32 - 1" and "unat len < 2 ^ 32"
  shows "check_block_length l info len s = Inr n \<longleftrightarrow>
      unat (all_extrinsics_len s) + unat len \<le> length_limit l info
      \<and> unat n = unat (all_extrinsics_len s) + unat len"
proof -
  have "unat (ucast len :: u32) = unat len" using assms(2) by (intro unat_ucast_fits) simp
  then show ?thesis
    unfolding check_block_length_def Let_def length_limit_def
    by (simp only: capped_add_Inr_iff [OF assms(1) [unfolded length_limit_def]])
qed

text \<open>
  C15 (check_weight_accepts_iff): take an encoded length below \<open>2\<^sup>32\<close> and class limits below
  \<open>2\<^sup>32 - 1\<close>.  \<open>CheckWeight\<close> lets an extrinsic in exactly when the length and the weight it adds
  (capped at the limit of its class) fit under the limit of its class.  Then it registers exactly
  these amounts; otherwise it answers \<open>ExhaustsResources\<close>, registers no weight, and registers the
  length exactly when that fitted.  Its \<open>validate\<close> gives the same verdict.
\<close>

theorem check_weight_accepts_iff:
  fixes s :: "('acc, 'hash, 'dig, 'ev) system_state"
  assumes "unat len < 2 ^ 32" and "weight_limit l info < 2 ^ 32 - 1" and "length_limit l info < 2 ^ 32 - 1"
    and pre: "check_weight_pre_dispatch l info len s = (r, t)"
  defines "L \<equiv> unat (all_extrinsics_len s) + unat len"
    and "W \<equiv> unat (all_extrinsics_weight s) + min (unat (weight info)) (weight_limit l info)"
  shows "(r = Inr () \<longleftrightarrow> L \<le> length_limit l info \<and> W \<le> weight_limit l info)
    \<and> (r = Inr () \<longrightarrow> unat (all_extrinsics_len t) = L \<and> unat (all_extrinsics_weight t) = W)
    \<and> (r \<noteq> Inr () \<longrightarrow> r = Inl (Invalid ExhaustsResources) \<and> all_extrinsics_weight t = all_extrinsics_weight s
         \<and> unat (all_extrinsics_len t) = (if L \<le> length_limit l info then L else unat (all_extrinsics_len s)))
    \<and> (is_ok (check_weight_validate l info len s) \<longleftrightarrow> r = Inr ())"
proof -
  have frame: "check_weight l info (s\<lparr>AllExtrinsicsLen := x\<rparr>) = check_weight l info s" for x
    by (simp add: check_weight_def all_extrinsics_weight_def)
  have wgt: "check_weight l info s = Inr w \<longleftrightarrow> W \<le> weight_limit l info \<and> unat w = W" for w
    using check_weight_Inr_iff [OF assms(2)] unfolding W_def .
  have len: "check_block_length l info len s = Inr w \<longleftrightarrow> L \<le> length_limit l info \<and> unat w = L" for w
    using check_block_length_Inr_iff [OF assms(3,1)] unfolding L_def .
  have errs: "check_weight l info s = Inl e \<Longrightarrow> e = Invalid ExhaustsResources"
    "check_block_length l info len s = Inl e \<Longrightarrow> e = Invalid ExhaustsResources" for e
    by (simp_all add: check_weight_def check_block_length_def Let_def split: if_splits)
  have fitW: "\<exists>w. check_weight l info s = Inr w" if "W \<le> weight_limit l info"
  proof -
    have "W < 2 ^ 32" using that assms(2) by linarith
    then have "unat (of_nat W :: u32) = W" by (simp only: unat_of_nat_fits len_u32)
    then show ?thesis using wgt [of "of_nat W"] that by blast
  qed
  have fitL: "\<exists>w. check_block_length l info len s = Inr w" if "L \<le> length_limit l info"
  proof -
    have "L < 2 ^ 32" using that assms(3) by linarith
    then have "unat (of_nat L :: u32) = L" by (simp only: unat_of_nat_fits len_u32)
    then show ?thesis using len [of "of_nat L"] that by blast
  qed
  show ?thesis
  proof (cases "check_block_length l info len s")
    case (Inl e)
    then have "\<not> L \<le> length_limit l info" using fitL by auto
    then show ?thesis using Inl pre errs(2) [OF Inl]
      by (auto simp: check_weight_pre_dispatch_def check_weight_validate_def)
  next
    case L: (Inr n)
    show ?thesis
    proof (cases "check_weight l info s")
      case (Inl e)
      then have "\<not> W \<le> weight_limit l info" using fitW by auto
      then show ?thesis using Inl L len [of n] pre errs(1) [OF Inl]
        by (auto simp: check_weight_pre_dispatch_def check_weight_validate_def Let_def frame
            all_extrinsics_len_def all_extrinsics_weight_def)
    next
      case (Inr w)
      then show ?thesis using L len [of n] wgt [of w] pre
        by (auto simp: check_weight_pre_dispatch_def check_weight_validate_def Let_def frame
            all_extrinsics_len_def all_extrinsics_weight_def)
    qed
  qed
qed

section \<open>Mortal transactions\<close>

lemma saturated_into_u32_fits: "unat x < 2 ^ 32 \<Longrightarrow> unat (saturated_into_u32 x) = unat x"
  by (simp add: saturated_into_u32_def try_into_u32_def unat_ucast_fits)

lemma check_era_at:
  assumes win: "BlockHash s = window hs (Suc (unat bhc))" and num: "unat (Number s) = length hs"
    and b: "birth era (ucast (Number s)) \<le> ucast (Number s)"
  shows "check_era_additional_signed dh era s =
    (let n = unat (birth era (ucast (Number s)))
     in if n < length hs \<and> (n = 0 \<or> length hs \<le> n + unat bhc + 1) then Inr (hs ! n)
        else Inl (Invalid AncientBirthBlock))"
proof -
  let ?b = "birth era (ucast (Number s))"
  have "unat (ucast (Number s) :: u64) = unat (Number s)" by (intro unat_ucast_up) simp
  then have "unat ?b < 2 ^ 32" using b unat_lt_pow [of "Number s"] unfolding word_le_nat_alt by simp
  then have n: "unat (saturated_into_u32 ?b) = unat ?b" by (rule saturated_into_u32_fits)
  then have "saturated_into_u32 ?b = 0 \<longleftrightarrow> unat ?b = 0" by (metis unat_eq_zero)
  with n show ?thesis
    by (simp add: check_era_additional_signed_def win window_def Let_def block_hash_def)
qed

text \<open>
  C17 (mortal_transaction_lifetime): a transaction signed at block \<open>c\<close> with a mortal era no longer
  than the hash window, executed in a later block of the same chain, is checked against the hash
  of the era's birth block until the era dies; after that it is refused or checked against the
  hash of another block.
\<close>

theorem mortal_transaction_lifetime:
  assumes "perbill_wf (AvailableBlockRatio l)" and "chain_init c0"
    and "(chain_step l bhc)\<^sup>*\<^sup>* c0 (hs, True, s)"
    and e: "mortal period c = Mortal p ph" and c: "unat c < length hs" and p: "unat p \<le> unat bhc"
  shows "unat (birth (Mortal p ph) c) \<le> unat c
    \<and> (if length hs < unat (birth (Mortal p ph) c) + unat p
        then check_era_additional_signed dh (Mortal p ph) s = Inr (hs ! unat (birth (Mortal p ph) c))
        else \<exists>n > unat (birth (Mortal p ph) c).
          check_era_additional_signed dh (Mortal p ph) s \<in> {Inr (hs ! n), Inl (Invalid AncientBirthBlock)})"
proof -
  let ?now = "ucast (Number s) :: u64"
  have win: "BlockHash s = window hs (Suc (unat bhc))" and num: "unat (Number s) = length hs"
    using chain_reachable_inv [OF assms(1-3)] by auto
  have now: "unat ?now = length hs" using num unat_ucast_up [where 'a=32 and 'b=64, of "Number s"] by simp
  have pos: "0 < unat p" and ph: "ph \<le> c" using mortal_facts [OF e] by auto
  have le: "c \<le> ?now" using c now by (simp add: word_le_nat_alt)
  have span: "birth (Mortal p ph) ?now \<le> ?now \<and> unat ?now < unat (birth (Mortal p ph) ?now) + unat p"
    using ph le by (intro birth_span pos) simp
  have bc: "unat (birth (Mortal p ph) c) \<le> unat c"
    using birth_span [OF pos ph] by (simp add: word_le_nat_alt)
  note chk = check_era_at [OF win num, of "Mortal p ph" dh]
  show ?thesis
  proof (cases "length hs < unat (birth (Mortal p ph) c) + unat p")
    case True
    then have "birth (Mortal p ph) ?now = birth (Mortal p ph) c"
      using birth_stable [OF pos ph le] now by simp
    then show ?thesis using True bc c p span chk now by (simp add: Let_def)
  next
    case False
    then have "unat (birth (Mortal p ph) c) < unat (birth (Mortal p ph) ?now)"
      using birth_expired [OF pos ph le] now pos by simp
    then show ?thesis using False bc span chk by (auto simp: Let_def)
  qed
qed

section \<open>Witnesses\<close>

definition genesis :: "(nat, nat, unit, (unit, unit) outer_event) system_state" where
  "genesis = \<lparr>AccountNonce = Map.empty, ExtrinsicCount = None, AllExtrinsicsWeight = None,
     AllExtrinsicsLen = None, BlockHash = [0 \<mapsto> 69], ExtrinsicData = Map.empty, Number = 0,
     ParentHash = 0, ExtrinsicsRoot = 0, Digest = [], Events = [], EventCount = 0,
     EventTopics = Map.empty, ExtrinsicIndex = None\<rparr>"

definition limits0 :: limits where
  "limits0 = \<lparr>MaximumBlockWeight = 1000, MaximumBlockLength = 500,
     AvailableBlockRatio = from_percent 75\<rparr>"

definition block1 :: "(nat, nat, unit, (unit, unit) outer_event) system_state" where
  "block1 = initialize 1 7 0 [] genesis"

lemma limits0_wf: "perbill_wf (AvailableBlockRatio limits0)"
  by (simp add: limits0_def perbill_wf_def from_percent_def perbill_max_def word_le_nat_alt)

lemma genesis_init: "chain_init ([], False, genesis)"
  by (auto simp: chain_init_def genesis_def)

lemma block1_reachable: "(chain_step limits0 bhc)\<^sup>*\<^sup>* ([], False, genesis) ([7], True, block1)"
proof -
  have "chain_step limits0 bhc ([], False, genesis) ([7], True, block1)"
    using open_block [of "[]" limits0 bhc genesis 7 0 "[]"] by (simp add: block1_def)
  then show ?thesis by blast
qed

lemmas block1_run = limits0_wf genesis_init block1_reachable

theorem block_hash_window_witness:
  "unat (Number block1) = 1 \<and> BlockHash block1 0 = Some 7 \<and> BlockHash block1 1 = None"
  using block_hash_window [OF block1_run] by simp

theorem block_resources_bounded_witness: "all_extrinsics_weight block1 \<le> 1000"
  using block_resources_bounded [OF block1_run] by (simp add: limits0_def)

lemma mortal_4_0: "mortal 4 0 = Mortal 4 0"
  by (simp add: mortal_def checked_next_power_of_two_def next_power_of_two_def bit_len.simps
      min_def max_def word_le_nat_alt)

theorem mortal_transaction_lifetime_witness:
  "check_era_additional_signed 0 (mortal 4 0) block1 = Inr 7"
  using mortal_transaction_lifetime [OF block1_run mortal_4_0, of 250 0]
  by (simp add: mortal_4_0)

definition info0 :: dispatch_info where
  "info0 = \<lparr>weight = 30, dclass = Operational, pays_fee = True\<rparr>"

lemma limits0_values: "weight_limit limits0 info0 = 1000" "length_limit limits0 info0 = 500"
  by (simp_all add: weight_limit_def length_limit_def limits0_def info0_def perbill_one_def perbill_mul_def
      perbill_max_def saturated_into_u32_def try_into_u32_def)

theorem check_weight_accepts_iff_witness:
  "\<exists>t. check_weight_pre_dispatch limits0 info0 120 genesis = (Inr (), t)
      \<and> unat (all_extrinsics_len t) = 120 \<and> unat (all_extrinsics_weight t) = 30"
proof -
  obtain r t where e: "check_weight_pre_dispatch limits0 info0 120 genesis = (r, t)" by fastforce
  have "unat (all_extrinsics_len genesis) = 0" "unat (all_extrinsics_weight genesis) = 0" "unat (weight info0) = 30"
    by (simp_all add: genesis_def all_extrinsics_len_def all_extrinsics_weight_def info0_def)
  then show ?thesis using check_weight_accepts_iff [OF _ _ _ e] e by (simp add: limits0_values)
qed

end
