(* ===== verification/Balances.thy ===== *)
theory Balances
  imports Frame_System
begin

text \<open>
  The balances module (\<open>frame/balances/src/lib.rs\<close>): free and reserved balances, locks and vesting,
  the total issuance and the imbalances that account for its changes.  Balances are \<open>u128\<close>.
  \<open>DustRemoval\<close> and \<open>TransferPayment\<close> are \<open>()\<close>, as in both runtimes: an imbalance handed to them is
  dropped, which squares up the issuance.  The hooks \<open>OnNewAccount\<close> and \<open>OnFreeBalanceZero\<close> belong
  to other modules; the calls made to them are recorded in order.
\<close>

unbundle bit_operations_syntax

section \<open>Data\<close>

record balances_config =
  ExistentialDeposit :: u128
  TransferFee :: u128
  CreationFee :: u128

datatype balances_error =
    VestingBalance | LiquidityRestrictions | Overflow | InsufficientBalance | ExistentialDeposit_error
  | KeepAlive_error | ExistingVestingSchedule | DeadAccount

datatype 'acc balances_event =
    NewAccount 'acc u128
  | ReapedAccount 'acc u128
  | Transfer 'acc 'acc u128 u128
  | BalanceSet 'acc u128 u128
  | Deposit 'acc u128

datatype existence_requirement = KeepAlive | AllowDeath

datatype update_balance_outcome = Updated | AccountKilled

type_synonym withdraw_reasons = u8

abbreviation (input) WR_TransactionPayment :: withdraw_reasons where "WR_TransactionPayment \<equiv> 1"
abbreviation (input) WR_Transfer :: withdraw_reasons where "WR_Transfer \<equiv> 2"
abbreviation (input) WR_Reserve :: withdraw_reasons where "WR_Reserve \<equiv> 4"
abbreviation (input) WR_Fee :: withdraw_reasons where "WR_Fee \<equiv> 8"
abbreviation (input) WR_Tip :: withdraw_reasons where "WR_Tip \<equiv> 16"

definition intersects :: "withdraw_reasons \<Rightarrow> withdraw_reasons \<Rightarrow> bool" where
  "intersects a b \<longleftrightarrow> a AND b \<noteq> 0"

record vesting_schedule =
  locked :: u128
  per_block :: u128
  starting_block :: u32

record balance_lock =
  lock_id :: u64
  amount :: u128
  until :: u32
  reasons :: withdraw_reasons

datatype 'acc hook = on_new_account 'acc | on_free_balance_zero 'acc

record ('acc, 'hash, 'dig) balances_state =
  TotalIssuance :: u128
  Vesting :: "'acc \<rightharpoonup> vesting_schedule"
  FreeBalance :: "'acc \<rightharpoonup> u128"
  ReservedBalance :: "'acc \<rightharpoonup> u128"
  Locks :: "'acc \<rightharpoonup> balance_lock list"
  Hooks :: "'acc hook list"
  System :: "('acc, 'hash, 'dig, 'acc balances_event) system_state"

definition free_balance :: "('acc, 'hash, 'dig) balances_state \<Rightarrow> 'acc \<Rightarrow> u128" where
  "free_balance s who = (case FreeBalance s who of None \<Rightarrow> 0 | Some b \<Rightarrow> b)"

definition reserved_balance :: "('acc, 'hash, 'dig) balances_state \<Rightarrow> 'acc \<Rightarrow> u128" where
  "reserved_balance s who = (case ReservedBalance s who of None \<Rightarrow> 0 | Some b \<Rightarrow> b)"

definition locks :: "('acc, 'hash, 'dig) balances_state \<Rightarrow> 'acc \<Rightarrow> balance_lock list" where
  "locks s who = (case Locks s who of None \<Rightarrow> [] | Some ls \<Rightarrow> ls)"

definition total_balance :: "('acc, 'hash, 'dig) balances_state \<Rightarrow> 'acc \<Rightarrow> u128" where
  "total_balance s who = free_balance s who + reserved_balance s who"

definition can_slash :: "'acc \<Rightarrow> u128 \<Rightarrow> ('acc, 'hash, 'dig) balances_state \<Rightarrow> bool" where
  "can_slash who value s \<longleftrightarrow> free_balance s who \<ge> value"

definition is_dead_account :: "'acc \<Rightarrow> ('acc, 'hash, 'dig) balances_state \<Rightarrow> bool" where
  "is_dead_account who s \<longleftrightarrow> total_balance s who = 0"

section \<open>Imbalances\<close>

datatype positive_imbalance = PositiveImbalance (pos_peek: u128)

datatype negative_imbalance = NegativeImbalance (neg_peek: u128)

datatype signed_imbalance = Positive positive_imbalance | Negative negative_imbalance

definition drop_positive ::
  "positive_imbalance \<Rightarrow> ('acc, 'hash, 'dig) balances_state \<Rightarrow> ('acc, 'hash, 'dig) balances_state" where
  "drop_positive i s = s\<lparr>TotalIssuance := saturating_add (TotalIssuance s) (pos_peek i)\<rparr>"

definition drop_negative ::
  "negative_imbalance \<Rightarrow> ('acc, 'hash, 'dig) balances_state \<Rightarrow> ('acc, 'hash, 'dig) balances_state" where
  "drop_negative i s = s\<lparr>TotalIssuance := saturating_sub (TotalIssuance s) (neg_peek i)\<rparr>"

text \<open>\<open>OnUnbalanced\<close> for \<open>()\<close>: \<open>try_drop\<close>, and an explicit drop when that refuses.\<close>

definition neg_drop_zero :: "negative_imbalance \<Rightarrow> negative_imbalance + unit" where
  "neg_drop_zero i = (if neg_peek i = 0 then Inr () else Inl i)"

definition on_unbalanced ::
  "negative_imbalance \<Rightarrow> ('acc, 'hash, 'dig) balances_state \<Rightarrow> ('acc, 'hash, 'dig) balances_state" where
  "on_unbalanced i s = (case neg_drop_zero i of Inr _ \<Rightarrow> s | Inl i' \<Rightarrow> drop_negative i' s)"

definition neg_split :: "negative_imbalance \<Rightarrow> u128 \<Rightarrow> negative_imbalance \<times> negative_imbalance" where
  "neg_split i a = (let first = min (neg_peek i) a; second = neg_peek i - first
                    in (NegativeImbalance first, NegativeImbalance second))"

definition neg_merge :: "negative_imbalance \<Rightarrow> negative_imbalance \<Rightarrow> negative_imbalance" where
  "neg_merge i j = NegativeImbalance (saturating_add (neg_peek i) (neg_peek j))"

definition neg_offset ::
  "negative_imbalance \<Rightarrow> positive_imbalance \<Rightarrow> positive_imbalance + negative_imbalance" where
  "neg_offset i j = (let a = neg_peek i; b = pos_peek j
                     in if a \<ge> b then Inr (NegativeImbalance (a - b)) else Inl (PositiveImbalance (b - a)))"

definition pos_split :: "positive_imbalance \<Rightarrow> u128 \<Rightarrow> positive_imbalance \<times> positive_imbalance" where
  "pos_split i a = (let first = min (pos_peek i) a; second = pos_peek i - first
                    in (PositiveImbalance first, PositiveImbalance second))"

definition pos_merge :: "positive_imbalance \<Rightarrow> positive_imbalance \<Rightarrow> positive_imbalance" where
  "pos_merge i j = PositiveImbalance (saturating_add (pos_peek i) (pos_peek j))"

definition pos_offset ::
  "positive_imbalance \<Rightarrow> negative_imbalance \<Rightarrow> negative_imbalance + positive_imbalance" where
  "pos_offset i j = (let a = pos_peek i; b = neg_peek j
                     in if a \<ge> b then Inr (PositiveImbalance (a - b)) else Inl (NegativeImbalance (b - a)))"

definition burn ::
  "u128 \<Rightarrow> ('acc, 'hash, 'dig) balances_state \<Rightarrow> positive_imbalance \<times> ('acc, 'hash, 'dig) balances_state" where
  "burn amt s =
     (case checked_sub (TotalIssuance s) amt of
        Some issued \<Rightarrow> (PositiveImbalance amt, s\<lparr>TotalIssuance := issued\<rparr>)
      | None \<Rightarrow> (PositiveImbalance (TotalIssuance s), s\<lparr>TotalIssuance := 0\<rparr>))"

definition issue ::
  "u128 \<Rightarrow> ('acc, 'hash, 'dig) balances_state \<Rightarrow> negative_imbalance \<times> ('acc, 'hash, 'dig) balances_state" where
  "issue amt s =
     (case checked_add (TotalIssuance s) amt of
        Some issued \<Rightarrow> (NegativeImbalance amt, s\<lparr>TotalIssuance := issued\<rparr>)
      | None \<Rightarrow> (NegativeImbalance (- 1 - TotalIssuance s), s\<lparr>TotalIssuance := - 1\<rparr>))"

section \<open>Accounts\<close>

definition balances_deposit_event ::
  "'acc balances_event \<Rightarrow> ('acc, 'hash, 'dig) balances_state \<Rightarrow> ('acc, 'hash, 'dig) balances_state" where
  "balances_deposit_event ev s = s\<lparr>System := deposit_event ev (System s)\<rparr>"

definition new_account ::
  "'acc \<Rightarrow> u128 \<Rightarrow> ('acc, 'hash, 'dig) balances_state \<Rightarrow> ('acc, 'hash, 'dig) balances_state" where
  "new_account who balance s =
     balances_deposit_event (NewAccount who balance) (s\<lparr>Hooks := Hooks s @ [on_new_account who]\<rparr>)"

definition reap_account ::
  "'acc \<Rightarrow> u128 \<Rightarrow> ('acc, 'hash, 'dig) balances_state \<Rightarrow> ('acc, 'hash, 'dig) balances_state" where
  "reap_account who dust s =
     balances_deposit_event (ReapedAccount who dust)
       (s\<lparr>System := (System s)\<lparr>AccountNonce := (AccountNonce (System s))(who := None)\<rparr>\<rparr>)"

text \<open>
  The four functions call each other: dust on one side of an account goes to the other side when
  that is alive.  They end because the side that receives it is the only one left.
\<close>

definition set_measure :: "balances_config \<Rightarrow> u128 \<Rightarrow> nat" where
  "set_measure cfg side =
     (if ExistentialDeposit cfg = 0 then 0 else if side \<ge> ExistentialDeposit cfg then 5 else 1)"

definition low_measure :: "balances_config \<Rightarrow> u128 \<Rightarrow> nat" where
  "low_measure cfg side =
     (if ExistentialDeposit cfg = 0 then 1 else if side \<ge> ExistentialDeposit cfg then 4 else 0)"

function (sequential) set_reserved_balance ::
  "balances_config \<Rightarrow> 'acc \<Rightarrow> u128 \<Rightarrow> ('acc, 'hash, 'dig) balances_state
    \<Rightarrow> update_balance_outcome \<times> ('acc, 'hash, 'dig) balances_state"
and set_free_balance ::
  "balances_config \<Rightarrow> 'acc \<Rightarrow> u128 \<Rightarrow> ('acc, 'hash, 'dig) balances_state
    \<Rightarrow> update_balance_outcome \<times> ('acc, 'hash, 'dig) balances_state"
and on_free_too_low ::
  "balances_config \<Rightarrow> 'acc \<Rightarrow> ('acc, 'hash, 'dig) balances_state \<Rightarrow> ('acc, 'hash, 'dig) balances_state"
and on_reserved_too_low ::
  "balances_config \<Rightarrow> 'acc \<Rightarrow> ('acc, 'hash, 'dig) balances_state \<Rightarrow> ('acc, 'hash, 'dig) balances_state"
where
  "set_reserved_balance cfg who balance s =
     (let s1 = s\<lparr>ReservedBalance := (ReservedBalance s)(who \<mapsto> balance)\<rparr>
      in if balance < ExistentialDeposit cfg
         then (AccountKilled, on_reserved_too_low cfg who s1)
         else (Updated, s1))"
| "set_free_balance cfg who balance s =
     (let s1 = s\<lparr>FreeBalance := (FreeBalance s)(who \<mapsto> balance)\<rparr>
      in if balance < ExistentialDeposit cfg
         then (AccountKilled, on_free_too_low cfg who s1)
         else (Updated, s1))"
| "on_free_too_low cfg who s =
     (let dust = free_balance s who;
          s1 = s\<lparr>FreeBalance := (FreeBalance s)(who := None), Locks := (Locks s)(who := None),
                 Hooks := Hooks s @ [on_free_balance_zero who]\<rparr>;
          reserved = reserved_balance s1 who;
          (reserved', s2) =
            (if dust \<noteq> 0
             then if reserved \<ge> ExistentialDeposit cfg
                  then (reserved + dust, snd (set_reserved_balance cfg who (reserved + dust) s1))
                  else (reserved, on_unbalanced (NegativeImbalance dust) s1)
             else (reserved, s1))
      in if reserved' = 0 then reap_account who dust s2 else s2)"
| "on_reserved_too_low cfg who s =
     (let dust = reserved_balance s who;
          s1 = s\<lparr>ReservedBalance := (ReservedBalance s)(who := None)\<rparr>;
          free = free_balance s1 who;
          (free', s2) =
            (if dust \<noteq> 0
             then if free \<ge> ExistentialDeposit cfg
                  then (free + dust, snd (set_free_balance cfg who (free + dust) s1))
                  else (free, on_unbalanced (NegativeImbalance dust) s1)
             else (free, s1))
      in if free' = 0 then reap_account who dust s2 else s2)"
  by pat_completeness auto

termination
  by (relation "measure (\<lambda>c. case c of
        Inl (Inl (cfg, who, b, s)) \<Rightarrow> set_measure cfg (free_balance s who)
      | Inl (Inr (cfg, who, b, s)) \<Rightarrow> set_measure cfg (reserved_balance s who)
      | Inr (Inl (cfg, who, s)) \<Rightarrow> low_measure cfg (reserved_balance s who)
      | Inr (Inr (cfg, who, s)) \<Rightarrow> low_measure cfg (free_balance s who))")
    (auto simp: set_measure_def low_measure_def free_balance_def reserved_balance_def)

declare set_reserved_balance.simps [simp del] set_free_balance.simps [simp del]
  on_free_too_low.simps [simp del] on_reserved_too_low.simps [simp del]

section \<open>Vesting and locks\<close>

definition locked_at :: "vesting_schedule \<Rightarrow> u32 \<Rightarrow> u128" where
  "locked_at v n =
     (let vested_block_count = saturating_sub n (starting_block v)
      in case checked_mul (ucast vested_block_count) (per_block v) of
           Some x \<Rightarrow> max (locked v) x - x
         | None \<Rightarrow> 0)"

definition vesting_balance :: "'acc \<Rightarrow> ('acc, 'hash, 'dig) balances_state \<Rightarrow> u128" where
  "vesting_balance who s =
     (case Vesting s who of
        Some v \<Rightarrow> min (free_balance s who) (locked_at v (Number (System s)))
      | None \<Rightarrow> 0)"

definition add_vesting_schedule ::
  "'acc \<Rightarrow> u128 \<Rightarrow> u128 \<Rightarrow> u32 \<Rightarrow> ('acc, 'hash, 'dig) balances_state
    \<Rightarrow> (balances_error dispatch_error + unit) \<times> ('acc, 'hash, 'dig) balances_state" where
  "add_vesting_schedule who lckd pblock sblock s =
     (if Vesting s who \<noteq> None then (Inl (Module ExistingVestingSchedule), s)
      else (Inr (), s\<lparr>Vesting := (Vesting s)(who \<mapsto>
              \<lparr>locked = lckd, per_block = pblock, starting_block = sblock\<rparr>)\<rparr>))"

definition remove_vesting_schedule ::
  "'acc \<Rightarrow> ('acc, 'hash, 'dig) balances_state \<Rightarrow> ('acc, 'hash, 'dig) balances_state" where
  "remove_vesting_schedule who s = s\<lparr>Vesting := (Vesting s)(who := None)\<rparr>"

text \<open>The \<open>filter_map\<close> over the locks hands out the new lock at most once.\<close>

fun set_lock_loop :: "u32 \<Rightarrow> u64 \<Rightarrow> balance_lock option \<Rightarrow> balance_lock list \<Rightarrow> balance_lock list" where
  "set_lock_loop now ident new_lock [] = (case new_lock of Some l \<Rightarrow> [l] | None \<Rightarrow> [])"
| "set_lock_loop now ident new_lock (l # ls) =
     (if lock_id l = ident
      then (case new_lock of Some n \<Rightarrow> [n] | None \<Rightarrow> []) @ set_lock_loop now ident None ls
      else if until l > now then l # set_lock_loop now ident new_lock ls
      else set_lock_loop now ident new_lock ls)"

definition set_lock ::
  "u64 \<Rightarrow> 'acc \<Rightarrow> u128 \<Rightarrow> u32 \<Rightarrow> withdraw_reasons \<Rightarrow> ('acc, 'hash, 'dig) balances_state
    \<Rightarrow> ('acc, 'hash, 'dig) balances_state" where
  "set_lock ident who amt unt rs s =
     (let now = Number (System s);
          new_lock = Some \<lparr>lock_id = ident, amount = amt, until = unt, reasons = rs\<rparr>
      in s\<lparr>Locks := (Locks s)(who \<mapsto> set_lock_loop now ident new_lock (locks s who))\<rparr>)"

fun extend_lock_loop :: "u32 \<Rightarrow> u64 \<Rightarrow> balance_lock option \<Rightarrow> balance_lock list \<Rightarrow> balance_lock list" where
  "extend_lock_loop now ident new_lock [] = (case new_lock of Some l \<Rightarrow> [l] | None \<Rightarrow> [])"
| "extend_lock_loop now ident new_lock (l # ls) =
     (if lock_id l = ident
      then (case new_lock of
              Some nl \<Rightarrow> [\<lparr>lock_id = lock_id l, amount = max (amount l) (amount nl),
                           until = max (until l) (until nl), reasons = reasons l OR reasons nl\<rparr>]
            | None \<Rightarrow> []) @ extend_lock_loop now ident None ls
      else if until l > now then l # extend_lock_loop now ident new_lock ls
      else extend_lock_loop now ident new_lock ls)"

definition extend_lock ::
  "u64 \<Rightarrow> 'acc \<Rightarrow> u128 \<Rightarrow> u32 \<Rightarrow> withdraw_reasons \<Rightarrow> ('acc, 'hash, 'dig) balances_state
    \<Rightarrow> ('acc, 'hash, 'dig) balances_state" where
  "extend_lock ident who amt unt rs s =
     (let now = Number (System s);
          new_lock = Some \<lparr>lock_id = ident, amount = amt, until = unt, reasons = rs\<rparr>
      in s\<lparr>Locks := (Locks s)(who \<mapsto> extend_lock_loop now ident new_lock (locks s who))\<rparr>)"

definition remove_lock ::
  "u64 \<Rightarrow> 'acc \<Rightarrow> ('acc, 'hash, 'dig) balances_state \<Rightarrow> ('acc, 'hash, 'dig) balances_state" where
  "remove_lock ident who s =
     (let now = Number (System s)
      in s\<lparr>Locks := (Locks s)(who \<mapsto> filter (\<lambda>l. until l > now \<and> lock_id l \<noteq> ident) (locks s who))\<rparr>)"

definition ensure_can_withdraw ::
  "'acc \<Rightarrow> u128 \<Rightarrow> withdraw_reasons \<Rightarrow> u128 \<Rightarrow> ('acc, 'hash, 'dig) balances_state
    \<Rightarrow> balances_error dispatch_error + unit" where
  "ensure_can_withdraw who amt rs new_balance s =
     (if intersects rs (WR_Reserve OR WR_Transfer) \<and> vesting_balance who s > new_balance
      then Inl (Module VestingBalance)
      else let ls = locks s who
      in if ls = [] then Inr ()
         else let now = Number (System s)
         in if list_all (\<lambda>l. now \<ge> until l \<or> new_balance \<ge> amount l \<or> \<not> intersects (reasons l) rs) ls
            then Inr () else Inl (Module LiquidityRestrictions))"

section \<open>Currency\<close>

definition currency_transfer ::
  "balances_config \<Rightarrow> 'acc \<Rightarrow> 'acc \<Rightarrow> u128 \<Rightarrow> existence_requirement \<Rightarrow> ('acc, 'hash, 'dig) balances_state
    \<Rightarrow> (balances_error dispatch_error + unit) \<times> ('acc, 'hash, 'dig) balances_state" where
  "currency_transfer cfg transactor dest value existence_requirement s =
     (let from_balance = free_balance s transactor;
          to_balance = free_balance s dest;
          would_create = (to_balance = 0);
          fee = (if would_create then CreationFee cfg else TransferFee cfg)
      in case checked_add value fee of
           None \<Rightarrow> (Inl (Module Overflow), s)
         | Some liability \<Rightarrow>
      (case checked_sub from_balance liability of
           None \<Rightarrow> (Inl (Module InsufficientBalance), s)
         | Some new_from_balance \<Rightarrow>
      if would_create \<and> value < ExistentialDeposit cfg
      then (Inl (Module ExistentialDeposit_error), s)
      else (case ensure_can_withdraw transactor value WR_Transfer new_from_balance s of
           Inl e \<Rightarrow> (Inl e, s)
         | Inr _ \<Rightarrow>
      (case checked_add to_balance value of
           None \<Rightarrow> (Inl (Module Overflow), s)
         | Some new_to_balance \<Rightarrow>
      if transactor \<noteq> dest
      then if existence_requirement = KeepAlive \<and> new_from_balance < ExistentialDeposit cfg
           then (Inl (Module KeepAlive_error), s)
           else let s1 = snd (set_free_balance cfg transactor new_from_balance s);
                    s2 = (if FreeBalance s1 dest = None then new_account dest new_to_balance s1 else s1);
                    s3 = balances_deposit_event (Transfer transactor dest value fee) s2;
                    s4 = snd (set_free_balance cfg dest new_to_balance s3);
                    s5 = on_unbalanced (NegativeImbalance fee) s4
                in (Inr (), s5)
      else (Inr (), s)))))"

definition withdraw ::
  "balances_config \<Rightarrow> 'acc \<Rightarrow> u128 \<Rightarrow> withdraw_reasons \<Rightarrow> existence_requirement
    \<Rightarrow> ('acc, 'hash, 'dig) balances_state
    \<Rightarrow> (balances_error dispatch_error + negative_imbalance) \<times> ('acc, 'hash, 'dig) balances_state" where
  "withdraw cfg who value rs liveness s =
     (let old_balance = free_balance s who
      in case checked_sub old_balance value of
           Some new_balance \<Rightarrow>
             if liveness = KeepAlive \<and> new_balance < ExistentialDeposit cfg
                \<and> old_balance \<ge> ExistentialDeposit cfg
             then (Inl (Module KeepAlive_error), s)
             else (case ensure_can_withdraw who value rs new_balance s of
                     Inl e \<Rightarrow> (Inl e, s)
                   | Inr _ \<Rightarrow> (Inr (NegativeImbalance value), snd (set_free_balance cfg who new_balance s)))
         | None \<Rightarrow> (Inl (Module InsufficientBalance), s))"

definition slash ::
  "balances_config \<Rightarrow> 'acc \<Rightarrow> u128 \<Rightarrow> ('acc, 'hash, 'dig) balances_state
    \<Rightarrow> (negative_imbalance \<times> u128) \<times> ('acc, 'hash, 'dig) balances_state" where
  "slash cfg who value s =
     (let free = free_balance s who;
          free_slash = min free value;
          s1 = snd (set_free_balance cfg who (free - free_slash) s);
          remaining_slash = value - free_slash
      in if remaining_slash \<noteq> 0
         then let reserved = reserved_balance s1 who;
                  reserved_slash = min reserved remaining_slash;
                  s2 = snd (set_reserved_balance cfg who (reserved - reserved_slash) s1)
              in ((NegativeImbalance (free_slash + reserved_slash), remaining_slash - reserved_slash), s2)
         else ((NegativeImbalance value, 0), s1))"

definition deposit_into_existing ::
  "balances_config \<Rightarrow> 'acc \<Rightarrow> u128 \<Rightarrow> ('acc, 'hash, 'dig) balances_state
    \<Rightarrow> (balances_error dispatch_error + positive_imbalance) \<times> ('acc, 'hash, 'dig) balances_state" where
  "deposit_into_existing cfg who value s =
     (if total_balance s who = 0 then (Inl (Module DeadAccount), s)
      else (Inr (PositiveImbalance value), snd (set_free_balance cfg who (free_balance s who + value) s)))"

definition make_free_balance_be ::
  "balances_config \<Rightarrow> 'acc \<Rightarrow> u128 \<Rightarrow> ('acc, 'hash, 'dig) balances_state
    \<Rightarrow> (signed_imbalance \<times> update_balance_outcome) \<times> ('acc, 'hash, 'dig) balances_state" where
  "make_free_balance_be cfg who balance s =
     (let original = free_balance s who
      in if balance < ExistentialDeposit cfg \<and> original = 0
         then ((Positive (PositiveImbalance 0), AccountKilled), s)
         else let imbalance = (if original \<le> balance
                               then Positive (PositiveImbalance (balance - original))
                               else Negative (NegativeImbalance (original - balance)))
              in if balance < ExistentialDeposit cfg
                 then ((imbalance, AccountKilled), snd (set_free_balance cfg who balance s))
                 else let s1 = (if FreeBalance s who = None then new_account who balance s else s)
                      in ((imbalance, Updated), snd (set_free_balance cfg who balance s1)))"

definition deposit_creating ::
  "balances_config \<Rightarrow> 'acc \<Rightarrow> u128 \<Rightarrow> ('acc, 'hash, 'dig) balances_state
    \<Rightarrow> positive_imbalance \<times> ('acc, 'hash, 'dig) balances_state" where
  "deposit_creating cfg who value s =
     (case make_free_balance_be cfg who (free_balance s who + value) s of
        ((Positive p, _), s1) \<Rightarrow> (p, s1)
      | ((Negative n, _), s1) \<Rightarrow> (PositiveImbalance 0, drop_negative n s1))"

section \<open>Provided methods of the currency traits\<close>

text \<open>
  The default methods of \<open>Currency\<close> and \<open>SignedImbalance\<close> (\<open>frame/support/src/traits.rs\<close>), for this
  implementation.  What \<open>offset\<close> leaves over is dropped.
\<close>

definition drop_offset ::
  "positive_imbalance + negative_imbalance \<Rightarrow> ('acc, 'hash, 'dig) balances_state
    \<Rightarrow> ('acc, 'hash, 'dig) balances_state" where
  "drop_offset r s = (case r of Inl p \<Rightarrow> drop_positive p s | Inr n \<Rightarrow> drop_negative n s)"

definition resolve_into_existing ::
  "balances_config \<Rightarrow> 'acc \<Rightarrow> negative_imbalance \<Rightarrow> ('acc, 'hash, 'dig) balances_state
    \<Rightarrow> (negative_imbalance + unit) \<times> ('acc, 'hash, 'dig) balances_state" where
  "resolve_into_existing cfg who value s =
     (case deposit_into_existing cfg who (neg_peek value) s of
        (Inr opposite, s1) \<Rightarrow> (Inr (), drop_offset (neg_offset value opposite) s1)
      | (Inl _, s1) \<Rightarrow> (Inl value, s1))"

definition resolve_creating ::
  "balances_config \<Rightarrow> 'acc \<Rightarrow> negative_imbalance \<Rightarrow> ('acc, 'hash, 'dig) balances_state
    \<Rightarrow> ('acc, 'hash, 'dig) balances_state" where
  "resolve_creating cfg who value s =
     (case deposit_creating cfg who (neg_peek value) s of
        (opposite, s1) \<Rightarrow> drop_offset (neg_offset value opposite) s1)"

definition settle ::
  "balances_config \<Rightarrow> 'acc \<Rightarrow> positive_imbalance \<Rightarrow> withdraw_reasons \<Rightarrow> existence_requirement
    \<Rightarrow> ('acc, 'hash, 'dig) balances_state
    \<Rightarrow> (positive_imbalance + unit) \<times> ('acc, 'hash, 'dig) balances_state" where
  "settle cfg who value rs liveness s =
     (case withdraw cfg who (pos_peek value) rs liveness s of
        (Inr opposite, s1) \<Rightarrow>
          (Inr (), case pos_offset value opposite of
                     Inr p \<Rightarrow> drop_positive p s1
                   | Inl n \<Rightarrow> drop_negative n s1)
      | (Inl _, s1) \<Rightarrow> (Inl value, s1))"

fun signed_merge :: "signed_imbalance \<Rightarrow> signed_imbalance \<Rightarrow> signed_imbalance" where
  "signed_merge (Positive a) (Positive b) = Positive (pos_merge a b)"
| "signed_merge (Negative a) (Negative b) = Negative (neg_merge a b)"
| "signed_merge (Positive a) (Negative b) =
     (if pos_peek a > neg_peek b
      then Positive (case pos_offset a b of Inr p \<Rightarrow> p | Inl _ \<Rightarrow> PositiveImbalance 0)
      else Negative (case neg_offset b a of Inr n \<Rightarrow> n | Inl _ \<Rightarrow> NegativeImbalance 0))"
| "signed_merge (Negative a) (Positive b) =
     (if pos_peek b > neg_peek a
      then Positive (case pos_offset b a of Inr p \<Rightarrow> p | Inl _ \<Rightarrow> PositiveImbalance 0)
      else Negative (case neg_offset a b of Inr n \<Rightarrow> n | Inl _ \<Rightarrow> NegativeImbalance 0))"

text \<open>\<open>SplitTwoWays\<close>: what the two targets are handed.\<close>

definition split_two_ways :: "u32 \<Rightarrow> u32 \<Rightarrow> negative_imbalance \<Rightarrow> negative_imbalance \<times> negative_imbalance" where
  "split_two_ways part1 part2 a =
     (let total = part1 + part2;
          m = (case checked_mul (neg_peek a) (ucast part1) of Some x \<Rightarrow> x | None \<Rightarrow> - 1);
          amount1 = m div ucast total
      in neg_split a amount1)"

section \<open>Reservable currency\<close>

definition can_reserve :: "'acc \<Rightarrow> u128 \<Rightarrow> ('acc, 'hash, 'dig) balances_state \<Rightarrow> bool" where
  "can_reserve who value s =
     (case checked_sub (free_balance s who) value of
        None \<Rightarrow> False
      | Some new_balance \<Rightarrow> is_ok (ensure_can_withdraw who value WR_Reserve new_balance s))"

definition reserve ::
  "balances_config \<Rightarrow> 'acc \<Rightarrow> u128 \<Rightarrow> ('acc, 'hash, 'dig) balances_state
    \<Rightarrow> (balances_error dispatch_error + unit) \<times> ('acc, 'hash, 'dig) balances_state" where
  "reserve cfg who value s =
     (let b = free_balance s who
      in if b < value then (Inl (Module InsufficientBalance), s)
         else let new_balance = b - value
         in case ensure_can_withdraw who value WR_Reserve new_balance s of
              Inl e \<Rightarrow> (Inl e, s)
            | Inr _ \<Rightarrow>
                let s1 = snd (set_reserved_balance cfg who (reserved_balance s who + value) s);
                    s2 = snd (set_free_balance cfg who new_balance s1)
                in (Inr (), s2))"

definition unreserve ::
  "balances_config \<Rightarrow> 'acc \<Rightarrow> u128 \<Rightarrow> ('acc, 'hash, 'dig) balances_state
    \<Rightarrow> u128 \<times> ('acc, 'hash, 'dig) balances_state" where
  "unreserve cfg who value s =
     (let b = reserved_balance s who;
          actual = min b value;
          s1 = snd (set_free_balance cfg who (free_balance s who + actual) s);
          s2 = snd (set_reserved_balance cfg who (b - actual) s1)
      in (value - actual, s2))"

definition slash_reserved ::
  "balances_config \<Rightarrow> 'acc \<Rightarrow> u128 \<Rightarrow> ('acc, 'hash, 'dig) balances_state
    \<Rightarrow> (negative_imbalance \<times> u128) \<times> ('acc, 'hash, 'dig) balances_state" where
  "slash_reserved cfg who value s =
     (let b = reserved_balance s who;
          slsh = min b value
      in ((NegativeImbalance slsh, value - slsh), snd (set_reserved_balance cfg who (b - slsh) s)))"

definition repatriate_reserved ::
  "balances_config \<Rightarrow> 'acc \<Rightarrow> 'acc \<Rightarrow> u128 \<Rightarrow> ('acc, 'hash, 'dig) balances_state
    \<Rightarrow> (balances_error dispatch_error + u128) \<times> ('acc, 'hash, 'dig) balances_state" where
  "repatriate_reserved cfg slashed beneficiary value s =
     (if total_balance s beneficiary = 0 then (Inl (Module DeadAccount), s)
      else let b = reserved_balance s slashed;
               slsh = min b value;
               s1 = snd (set_free_balance cfg beneficiary (free_balance s beneficiary + slsh) s);
               s2 = snd (set_reserved_balance cfg slashed (b - slsh) s1)
           in (Inr (value - slsh), s2))"

section \<open>Dispatchables\<close>

text \<open>\<open>lookup\<close> is the runtime's \<open>StaticLookup\<close>; failing, it gives \<open>CannotLookup\<close>.\<close>

definition transfer_call ::
  "balances_config \<Rightarrow> ('src \<Rightarrow> 'acc option) \<Rightarrow> ('acc, 'o) origin \<Rightarrow> 'src \<Rightarrow> u128
    \<Rightarrow> ('acc, 'hash, 'dig) balances_state
    \<Rightarrow> (balances_error dispatch_error + unit) \<times> ('acc, 'hash, 'dig) balances_state" where
  "transfer_call cfg lookup origin dest value s =
     (case ensure_signed origin of
        Inl e \<Rightarrow> (Inl e, s)
      | Inr transactor \<Rightarrow>
          (case lookup dest of
             None \<Rightarrow> (Inl CannotLookup, s)
           | Some dest \<Rightarrow> currency_transfer cfg transactor dest value AllowDeath s))"

definition transfer_keep_alive ::
  "balances_config \<Rightarrow> ('src \<Rightarrow> 'acc option) \<Rightarrow> ('acc, 'o) origin \<Rightarrow> 'src \<Rightarrow> u128
    \<Rightarrow> ('acc, 'hash, 'dig) balances_state
    \<Rightarrow> (balances_error dispatch_error + unit) \<times> ('acc, 'hash, 'dig) balances_state" where
  "transfer_keep_alive cfg lookup origin dest value s =
     (case ensure_signed origin of
        Inl e \<Rightarrow> (Inl e, s)
      | Inr transactor \<Rightarrow>
          (case lookup dest of
             None \<Rightarrow> (Inl CannotLookup, s)
           | Some dest \<Rightarrow> currency_transfer cfg transactor dest value KeepAlive s))"

definition force_transfer ::
  "balances_config \<Rightarrow> ('src \<Rightarrow> 'acc option) \<Rightarrow> ('acc, 'o) origin \<Rightarrow> 'src \<Rightarrow> 'src \<Rightarrow> u128
    \<Rightarrow> ('acc, 'hash, 'dig) balances_state
    \<Rightarrow> (balances_error dispatch_error + unit) \<times> ('acc, 'hash, 'dig) balances_state" where
  "force_transfer cfg lookup origin source dest value s =
     (case ensure_root origin of
        Inl e \<Rightarrow> (Inl e, s)
      | Inr _ \<Rightarrow>
          (case lookup source of
             None \<Rightarrow> (Inl CannotLookup, s)
           | Some source \<Rightarrow>
               (case lookup dest of
                  None \<Rightarrow> (Inl CannotLookup, s)
                | Some dest \<Rightarrow> currency_transfer cfg source dest value AllowDeath s)))"

definition square_up ::
  "u128 \<Rightarrow> u128 \<Rightarrow> ('acc, 'hash, 'dig) balances_state \<Rightarrow> ('acc, 'hash, 'dig) balances_state" where
  "square_up new current s =
     (if new > current then drop_positive (PositiveImbalance (new - current)) s
      else if new < current then drop_negative (NegativeImbalance (current - new)) s
      else s)"

definition set_balance ::
  "balances_config \<Rightarrow> ('src \<Rightarrow> 'acc option) \<Rightarrow> ('acc, 'o) origin \<Rightarrow> 'src \<Rightarrow> u128 \<Rightarrow> u128
    \<Rightarrow> ('acc, 'hash, 'dig) balances_state
    \<Rightarrow> (balances_error dispatch_error + unit) \<times> ('acc, 'hash, 'dig) balances_state" where
  "set_balance cfg lookup origin who new_free new_reserved s =
     (case ensure_root origin of
        Inl e \<Rightarrow> (Inl e, s)
      | Inr _ \<Rightarrow>
          (case lookup who of
             None \<Rightarrow> (Inl CannotLookup, s)
           | Some who \<Rightarrow>
               let existential_deposit = ExistentialDeposit cfg;
                   new_free = (if new_free < existential_deposit then 0 else new_free);
                   new_reserved = (if new_reserved < existential_deposit then 0 else new_reserved);
                   s1 = square_up new_free (free_balance s who) s;
                   s2 = snd (set_free_balance cfg who new_free s1);
                   s3 = square_up new_reserved (reserved_balance s2 who) s2;
                   s4 = snd (set_reserved_balance cfg who new_reserved s3)
               in (Inr (), balances_deposit_event (BalanceSet who new_free new_reserved) s4)))"

section \<open>Genesis\<close>

text \<open>
  The \<open>build\<close> of the storage: \<open>None\<close> is the failed assertion on the existential deposit.  Later
  entries for an account overwrite earlier ones, in the balances and in the vesting schedules.
\<close>

definition genesis_vesting ::
  "('acc \<times> u128) list \<Rightarrow> 'acc \<times> u32 \<times> u32 \<times> u128 \<Rightarrow> ('acc \<times> vesting_schedule) option" where
  "genesis_vesting bals v =
     (case v of (who, begin, len, liquid) \<Rightarrow>
        (case find (\<lambda>b. fst b = who) bals of
           None \<Rightarrow> None
         | Some (_, balance) \<Rightarrow>
             let lckd = saturating_sub balance liquid;
                 pblock = lckd div max (ucast len) 1
             in Some (who, \<lparr>locked = lckd, per_block = pblock, starting_block = begin\<rparr>)))"

definition balances_genesis ::
  "balances_config \<Rightarrow> ('acc \<times> u128) list \<Rightarrow> ('acc \<times> u32 \<times> u32 \<times> u128) list
    \<Rightarrow> ('acc, 'hash, 'dig, 'acc balances_event) system_state \<Rightarrow> ('acc, 'hash, 'dig) balances_state option" where
  "balances_genesis cfg bals vest sys =
     (if list_all (\<lambda>b. snd b \<ge> ExistentialDeposit cfg) bals
      then Some \<lparr>TotalIssuance = foldl (\<lambda>acc b. acc + snd b) 0 bals,
             Vesting = foldl (\<lambda>m kv. m(fst kv \<mapsto> snd kv)) Map.empty (List.map_filter (genesis_vesting bals) vest),
             FreeBalance = foldl (\<lambda>m kv. m(fst kv \<mapsto> snd kv)) Map.empty bals,
             ReservedBalance = Map.empty,
             Locks = Map.empty,
             Hooks = [],
             System = sys\<rparr>
      else None)"

end
