(* ===== verification/Balances_Laws.thy ===== *)
theory Balances_Laws
  imports Balances
begin

text \<open>
  What the low-level setters of the balances module do to the balances and the issuance, and the
  accounting law that follows: whatever the operations do, the total issuance is the sum of all
  balances plus the imbalances that are still held.
\<close>

section \<open>Observable effect of the setters\<close>

lemma balances_deposit_event_fields [simp]:
  "TotalIssuance (balances_deposit_event ev s) = TotalIssuance s"
  "FreeBalance (balances_deposit_event ev s) = FreeBalance s"
  "ReservedBalance (balances_deposit_event ev s) = ReservedBalance s"
  "Vesting (balances_deposit_event ev s) = Vesting s"
  "Locks (balances_deposit_event ev s) = Locks s"
  "Hooks (balances_deposit_event ev s) = Hooks s"
  "free_balance (balances_deposit_event ev s) = free_balance s"
  "reserved_balance (balances_deposit_event ev s) = reserved_balance s"
  by (simp_all add: balances_deposit_event_def free_balance_def reserved_balance_def fun_eq_iff)

lemma account_hook_fields [simp]:
  "TotalIssuance (new_account who b s) = TotalIssuance s"
  "FreeBalance (new_account who b s) = FreeBalance s"
  "ReservedBalance (new_account who b s) = ReservedBalance s"
  "free_balance (new_account who b s) = free_balance s"
  "reserved_balance (new_account who b s) = reserved_balance s"
  "TotalIssuance (reap_account who b s) = TotalIssuance s"
  "FreeBalance (reap_account who b s) = FreeBalance s"
  "ReservedBalance (reap_account who b s) = ReservedBalance s"
  "Locks (reap_account who b s) = Locks s"
  "Vesting (reap_account who b s) = Vesting s"
  "free_balance (reap_account who b s) = free_balance s"
  "reserved_balance (reap_account who b s) = reserved_balance s"
  by (simp_all add: new_account_def reap_account_def free_balance_def reserved_balance_def fun_eq_iff)

lemma on_unbalanced_eq:
  "on_unbalanced (NegativeImbalance d) s = s\<lparr>TotalIssuance := saturating_sub (TotalIssuance s) d\<rparr>"
  by (cases "d = 0") (simp_all add: on_unbalanced_def neg_drop_zero_def drop_negative_def saturating_sub_def)

text \<open>The balances and the issuance of a state, all that the accounting law sees.\<close>

definition ledger ::
  "('acc, 'hash, 'dig) balances_state \<Rightarrow> ('acc \<Rightarrow> u128) \<times> ('acc \<Rightarrow> u128) \<times> u128" where
  "ledger s = (free_balance s, reserved_balance s, TotalIssuance s)"

lemma free_balance_upd [simp]:
  "free_balance (s\<lparr>FreeBalance := m\<rparr>) a = (case m a of None \<Rightarrow> 0 | Some b \<Rightarrow> b)"
  "free_balance (s\<lparr>ReservedBalance := m'\<rparr>) = free_balance s"
  "free_balance (s\<lparr>TotalIssuance := i\<rparr>) = free_balance s"
  "free_balance (s\<lparr>Locks := l\<rparr>) = free_balance s"
  "free_balance (s\<lparr>Hooks := h\<rparr>) = free_balance s"
  "free_balance (s\<lparr>Vesting := v\<rparr>) = free_balance s"
  by (simp_all add: free_balance_def fun_eq_iff)

lemma reserved_balance_upd [simp]:
  "reserved_balance (s\<lparr>ReservedBalance := m\<rparr>) a = (case m a of None \<Rightarrow> 0 | Some b \<Rightarrow> b)"
  "reserved_balance (s\<lparr>FreeBalance := m'\<rparr>) = reserved_balance s"
  "reserved_balance (s\<lparr>TotalIssuance := i\<rparr>) = reserved_balance s"
  "reserved_balance (s\<lparr>Locks := l\<rparr>) = reserved_balance s"
  "reserved_balance (s\<lparr>Hooks := h\<rparr>) = reserved_balance s"
  "reserved_balance (s\<lparr>Vesting := v\<rparr>) = reserved_balance s"
  by (simp_all add: reserved_balance_def fun_eq_iff)

lemma option_balance: "(case FreeBalance s a of None \<Rightarrow> 0 | Some b \<Rightarrow> b) = free_balance s a"
  "(case ReservedBalance s a of None \<Rightarrow> 0 | Some b \<Rightarrow> b) = reserved_balance s a"
  by (simp_all add: free_balance_def reserved_balance_def)

lemma free_balance_fun_upd:
  "free_balance (s\<lparr>FreeBalance := (FreeBalance s)(who := x)\<rparr>) =
     (free_balance s)(who := case x of None \<Rightarrow> 0 | Some b \<Rightarrow> b)"
  by (simp add: fun_eq_iff option_balance)

lemma reserved_balance_fun_upd:
  "reserved_balance (s\<lparr>ReservedBalance := (ReservedBalance s)(who := x)\<rparr>) =
     (reserved_balance s)(who := case x of None \<Rightarrow> 0 | Some b \<Rightarrow> b)"
  by (simp add: fun_eq_iff option_balance)

text \<open>No addition of the dust to the live side wraps.\<close>

lemma le_plus_no_wrap:
  "unat (a :: 'a::len word) + unat b < 2 ^ LENGTH('a) \<Longrightarrow> a \<le> a + b \<and> (a + b = 0 \<longleftrightarrow> a = 0 \<and> b = 0)"
  by (auto simp: word_le_nat_alt unat_add_no_wrap simp flip: unat_eq_zero)

text \<open>
  The setters on the ledger: a balance below the existential deposit is moved to the other side of
  the account if that is alive, and otherwise burnt from the issuance.
\<close>

type_synonym 'acc ledger = "('acc \<Rightarrow> u128) \<times> ('acc \<Rightarrow> u128) \<times> u128"

definition set_free_ledger :: "u128 \<Rightarrow> 'acc \<Rightarrow> u128 \<Rightarrow> 'acc ledger \<Rightarrow> 'acc ledger" where
  "set_free_ledger ed who b l =
     (case l of (f, r, i) \<Rightarrow>
        if ed \<le> b then (f(who := b), r, i)
        else if ed \<le> r who then (f(who := 0), r(who := r who + b), i)
        else (f(who := 0), r, saturating_sub i b))"

definition set_reserved_ledger :: "u128 \<Rightarrow> 'acc \<Rightarrow> u128 \<Rightarrow> 'acc ledger \<Rightarrow> 'acc ledger" where
  "set_reserved_ledger ed who b l =
     (case l of (f, r, i) \<Rightarrow>
        if ed \<le> b then (f, r(who := b), i)
        else if ed \<le> f who then (f(who := f who + b), r(who := 0), i)
        else (f, r(who := 0), saturating_sub i b))"

lemma saturating_sub_0 [simp]: "saturating_sub i 0 = i"
  by (simp add: saturating_sub_def)

lemma ledger_reap [simp]: "ledger (reap_account who d s) = ledger s"
  by (simp add: ledger_def)

lemma reaped_if_ledger: "ledger (if c then reap_account who d s else s) = ledger s"
  by simp

lemma set_free_balance_ledger:
  assumes wrap: "b < ExistentialDeposit cfg \<Longrightarrow> unat (reserved_balance s who) + unat b < 2 ^ 128"
  shows "ledger (snd (set_free_balance cfg who b s)) = set_free_ledger (ExistentialDeposit cfg) who b (ledger s)"
proof (cases "ExistentialDeposit cfg \<le> b")
  case True
  then show ?thesis
    by (simp add: set_free_balance.simps ledger_def set_free_ledger_def free_balance_fun_upd Let_def
        not_less [symmetric])
next
  case low: False
  let ?r = "reserved_balance s who" let ?ed = "ExistentialDeposit cfg"
  define s1 where "s1 = s\<lparr>FreeBalance := (FreeBalance s)(who := None), Locks := (Locks s)(who := None),
    Hooks := Hooks s @ [on_free_balance_zero who]\<rparr>"
  have s1: "ledger s1 = ((free_balance s)(who := 0), reserved_balance s, TotalIssuance s)" "reserved_balance s1 = reserved_balance s"
    by (simp_all add: s1_def ledger_def fun_eq_iff option_balance)
  have eq: "snd (set_free_balance cfg who b s) =
      (let (r', s2) =
            (if b \<noteq> 0
             then if ?r \<ge> ?ed then (?r + b, snd (set_reserved_balance cfg who (?r + b) s1))
                  else (?r, on_unbalanced (NegativeImbalance b) s1)
             else (?r, s1))
       in if r' = 0 then reap_account who b s2 else s2)"
    using low by (simp add: set_free_balance.simps on_free_too_low.simps Let_def s1_def reserved_balance_def
        free_balance_def)
  have led: "ledger (snd (set_free_balance cfg who b s)) =
      ledger (if b \<noteq> 0 then if ?ed \<le> ?r then snd (set_reserved_balance cfg who (?r + b) s1)
              else on_unbalanced (NegativeImbalance b) s1 else s1)"
    by (auto simp: eq Let_def)
  have s: "ledger s = (free_balance s, reserved_balance s, TotalIssuance s)" by (simp add: ledger_def)
  have un: "ledger (on_unbalanced (NegativeImbalance b) s1) = (fst (ledger s1), fst (snd (ledger s1)), saturating_sub (TotalIssuance s) b)"
    using s1 by (simp add: on_unbalanced_eq ledger_def)
  show ?thesis
  proof (cases "?ed \<le> ?r")
    case True
    have "?r \<le> ?r + b" using le_plus_no_wrap [of ?r b] wrap low by simp
    then have "?ed \<le> ?r + b" using True by simp
    then have "ledger (snd (set_reserved_balance cfg who (?r + b) s1)) =
        (case ledger s1 of (f, r, i) \<Rightarrow> (f, r(who := ?r + b), i))"
      using s1 by (simp add: set_reserved_balance.simps ledger_def reserved_balance_fun_upd Let_def not_less [symmetric])
    then show ?thesis using low True s1 by (simp add: led set_free_ledger_def s)
  next
    case False
    then show ?thesis using low s1 by (simp add: led un set_free_ledger_def s)
  qed
qed

lemma set_reserved_balance_ledger:
  assumes wrap: "b < ExistentialDeposit cfg \<Longrightarrow> unat (free_balance s who) + unat b < 2 ^ 128"
  shows "ledger (snd (set_reserved_balance cfg who b s)) = set_reserved_ledger (ExistentialDeposit cfg) who b (ledger s)"
proof (cases "ExistentialDeposit cfg \<le> b")
  case True
  then show ?thesis
    by (simp add: set_reserved_balance.simps ledger_def set_reserved_ledger_def reserved_balance_fun_upd Let_def
        not_less [symmetric])
next
  case low: False
  let ?f = "free_balance s who" let ?ed = "ExistentialDeposit cfg"
  define s1 where "s1 = s\<lparr>ReservedBalance := (ReservedBalance s)(who := None)\<rparr>"
  have s1: "ledger s1 = (free_balance s, (reserved_balance s)(who := 0), TotalIssuance s)" "free_balance s1 = free_balance s"
    by (simp_all add: s1_def ledger_def fun_eq_iff option_balance)
  have eq: "snd (set_reserved_balance cfg who b s) =
      (let (f', s2) =
            (if b \<noteq> 0
             then if ?f \<ge> ?ed then (?f + b, snd (set_free_balance cfg who (?f + b) s1))
                  else (?f, on_unbalanced (NegativeImbalance b) s1)
             else (?f, s1))
       in if f' = 0 then reap_account who b s2 else s2)"
    using low by (simp add: set_reserved_balance.simps on_reserved_too_low.simps Let_def s1_def reserved_balance_def
        free_balance_def)
  have led: "ledger (snd (set_reserved_balance cfg who b s)) =
      ledger (if b \<noteq> 0 then if ?ed \<le> ?f then snd (set_free_balance cfg who (?f + b) s1)
              else on_unbalanced (NegativeImbalance b) s1 else s1)"
    by (auto simp: eq Let_def)
  have s: "ledger s = (free_balance s, reserved_balance s, TotalIssuance s)" by (simp add: ledger_def)
  have un: "ledger (on_unbalanced (NegativeImbalance b) s1) = (fst (ledger s1), fst (snd (ledger s1)), saturating_sub (TotalIssuance s) b)"
    using s1 by (simp add: on_unbalanced_eq ledger_def)
  show ?thesis
  proof (cases "?ed \<le> ?f")
    case True
    have "?f \<le> ?f + b" using le_plus_no_wrap [of ?f b] wrap low by simp
    then have "?ed \<le> ?f + b" using True by simp
    then have "ledger (snd (set_free_balance cfg who (?f + b) s1)) =
        (case ledger s1 of (f, r, i) \<Rightarrow> (f(who := ?f + b), r, i))"
      using s1 by (simp add: set_free_balance.simps ledger_def free_balance_fun_upd Let_def not_less [symmetric])
    then show ?thesis using low True s1 by (simp add: led set_reserved_ledger_def s)
  next
    case False
    then show ?thesis using low s1 by (simp add: led un set_reserved_ledger_def s)
  qed
qed

section \<open>The accounting law\<close>

text \<open>
  \<open>books f r i k\<close>: the issuance \<open>i\<close> is the sum of the balances plus \<open>k\<close>, the imbalances held
  outside: a negative imbalance counts as funds taken out, a positive one as funds put in.
\<close>

definition funds :: "'acc ledger \<Rightarrow> nat" where
  "funds l = (case l of (f, r, i) \<Rightarrow> supp_sum (\<lambda>a. unat (f a)) + supp_sum (\<lambda>a. unat (r a)))"

definition books :: "int \<Rightarrow> 'acc ledger \<Rightarrow> bool" where
  "books k l \<longleftrightarrow>
     (case l of (f, r, i) \<Rightarrow> finite {a. unat (f a) \<noteq> 0} \<and> finite {a. unat (r a) \<noteq> 0}
        \<and> int (unat i) = int (funds l) + k)"

lemma unat_fun_upd: "(\<lambda>a. unat ((f(x := v)) a)) = (\<lambda>a. unat (f a))(x := unat v)"
  by auto

lemma finite_fun_upd: "finite {a. unat (f a) \<noteq> 0} \<Longrightarrow> finite {a. unat ((f(x := v)) a) \<noteq> 0}"
  using finite_supp_update [of "\<lambda>a. unat (f a)" x "unat v"] by (simp only: unat_fun_upd [of f x v, THEN fun_cong])

lemma supp_sum_upd:
  assumes "finite {a. unat (f a) \<noteq> 0}"
  shows "int (supp_sum (\<lambda>a. unat ((f(x := v)) a))) = int (supp_sum (\<lambda>a. unat (f a))) + int (unat v) - int (unat (f x))"
  using supp_sum_update [OF assms, of x "unat v"] unfolding unat_fun_upd by linarith

lemma books_free_le:
  assumes "books k (f, r, i)"
  shows "int (unat (f a)) + int (unat (r b)) \<le> int (unat i) - k"
proof -
  have "finite {a. unat (f a) \<noteq> 0}" "finite {a. unat (r a) \<noteq> 0}"
    "int (unat i) = int (supp_sum (\<lambda>a. unat (f a)) + supp_sum (\<lambda>a. unat (r a))) + k"
    using assms unfolding books_def funds_def prod.case by blast+
  then show ?thesis
    using supp_sum_ge [of "\<lambda>a. unat (f a)" a] supp_sum_ge [of "\<lambda>a. unat (r a)" b] by linarith
qed

lemma books_update:
  assumes "books k (f, r, i)"
    and "k' = k + (int (unat i') - int (unat i)) + (int (unat (f who)) - int (unat x)) + (int (unat (r who)) - int (unat y))"
  shows "books k' (f(who := x), r(who := y), i')"
proof -
  have fin: "finite {a. unat (f a) \<noteq> 0}" "finite {a. unat (r a) \<noteq> 0}"
    and eq: "int (unat i) = int (supp_sum (\<lambda>a. unat (f a)) + supp_sum (\<lambda>a. unat (r a))) + k"
    using assms(1) unfolding books_def funds_def prod.case by blast+
  have "int (unat i') = int (supp_sum (\<lambda>a. unat ((f(who := x)) a)) + supp_sum (\<lambda>a. unat ((r(who := y)) a))) + k'"
    using supp_sum_upd [OF fin(1), of who x] supp_sum_upd [OF fin(2), of who y] eq assms(2) by linarith
  then show ?thesis
    unfolding books_def funds_def prod.case
    using finite_fun_upd [OF fin(1), of who x] finite_fun_upd [OF fin(2), of who y] by (intro conjI)
qed

lemma books_update_free:
  "books k (f, r, i) \<Longrightarrow> k' = k + (int (unat i') - int (unat i)) + (int (unat (f who)) - int (unat x))
    \<Longrightarrow> books k' (f(who := x), r, i')"
  using books_update [of k f r i k' i' who x "r who"] by simp

lemma books_update_reserved:
  "books k (f, r, i) \<Longrightarrow> k' = k + (int (unat i') - int (unat i)) + (int (unat (r who)) - int (unat y))
    \<Longrightarrow> books k' (f, r(who := y), i')"
  using books_update [of k f r i k' i' who "f who" y] by simp

lemma books_update_issuance:
  "books k (f, r, i) \<Longrightarrow> k' = k + (int (unat i') - int (unat i)) \<Longrightarrow> books k' (f, r, i')"
  using books_update_free [of k f r i k' i' undefined "f undefined"] by simp

text \<open>Every side of every account is empty or at least the existential deposit.\<close>

definition ed_law :: "u128 \<Rightarrow> 'acc ledger \<Rightarrow> bool" where
  "ed_law ed l \<longleftrightarrow> (case l of (f, r, i) \<Rightarrow> \<forall>a. (f a = 0 \<or> ed \<le> f a) \<and> (r a = 0 \<or> ed \<le> r a))"

lemma set_free_ledger_books:
  assumes "books k (f, r, i)" and "\<not> ed \<le> b \<Longrightarrow> unat (r who) + unat b < 2 ^ 128"
    and "\<not> ed \<le> b \<Longrightarrow> \<not> ed \<le> r who \<Longrightarrow> unat b \<le> unat i"
  shows "books (k + int (unat (f who)) - int (unat b)) (set_free_ledger ed who b (f, r, i))"
proof -
  consider "ed \<le> b" | "\<not> ed \<le> b" "ed \<le> r who" | "\<not> ed \<le> b" "\<not> ed \<le> r who" by blast
  then show ?thesis
  proof cases
    case 1
    then show ?thesis using assms(1) by (simp add: set_free_ledger_def books_update_free)
  next
    case 2
    then have "unat (r who + b) = unat (r who) + unat b" using assms(2) by (simp add: unat_add_no_wrap)
    then have "books (k + int (unat (f who)) - int (unat b)) (f(who := 0), r(who := r who + b), i)"
      by (intro books_update [OF assms(1)]) simp
    then show ?thesis using 2 by (simp add: set_free_ledger_def)
  next
    case 3
    then have "int (unat (saturating_sub i b)) = int (unat i) - int (unat b)"
      using assms(3) [OF 3] by (simp only: unat_saturating_sub of_nat_diff)
    then have "books (k + int (unat (f who)) - int (unat b)) (f(who := 0), r, saturating_sub i b)"
      by (intro books_update_free [OF assms(1)]) simp
    then show ?thesis using 3 by (simp add: set_free_ledger_def)
  qed
qed

lemma set_reserved_ledger_books:
  assumes "books k (f, r, i)" and "\<not> ed \<le> b \<Longrightarrow> unat (f who) + unat b < 2 ^ 128"
    and "\<not> ed \<le> b \<Longrightarrow> \<not> ed \<le> f who \<Longrightarrow> unat b \<le> unat i"
  shows "books (k + int (unat (r who)) - int (unat b)) (set_reserved_ledger ed who b (f, r, i))"
proof -
  consider "ed \<le> b" | "\<not> ed \<le> b" "ed \<le> f who" | "\<not> ed \<le> b" "\<not> ed \<le> f who" by blast
  then show ?thesis
  proof cases
    case 1
    then show ?thesis using assms(1) by (simp add: set_reserved_ledger_def books_update_reserved)
  next
    case 2
    then have "unat (f who + b) = unat (f who) + unat b" using assms(2) by (simp add: unat_add_no_wrap)
    then have "books (k + int (unat (r who)) - int (unat b)) (f(who := f who + b), r(who := 0), i)"
      by (intro books_update [OF assms(1)]) simp
    then show ?thesis using 2 by (simp add: set_reserved_ledger_def)
  next
    case 3
    then have "int (unat (saturating_sub i b)) = int (unat i) - int (unat b)"
      using assms(3) [OF 3] by (simp only: unat_saturating_sub of_nat_diff)
    then have "books (k + int (unat (r who)) - int (unat b)) (f, r(who := 0), saturating_sub i b)"
      by (intro books_update_reserved [OF assms(1)]) simp
    then show ?thesis using 3 by (simp add: set_reserved_ledger_def)
  qed
qed

lemma set_free_ledger_law:
  assumes "ed_law ed (f, r, i)" and "\<not> ed \<le> b \<Longrightarrow> unat (r who) + unat b < 2 ^ 128"
  shows "ed_law ed (set_free_ledger ed who b (f, r, i))"
proof (cases "\<not> ed \<le> b \<and> ed \<le> r who")
  case True
  then have "r who \<le> r who + b" using assms(2) le_plus_no_wrap [of "r who" b] by simp
  then have "ed \<le> r who + b" using True order_trans by blast
  with True assms(1) show ?thesis by (simp add: ed_law_def set_free_ledger_def)
next
  case False
  with assms(1) show ?thesis by (cases "ed \<le> b") (simp_all add: ed_law_def set_free_ledger_def)
qed

lemma set_reserved_ledger_law:
  assumes "ed_law ed (f, r, i)" and "\<not> ed \<le> b \<Longrightarrow> unat (f who) + unat b < 2 ^ 128"
  shows "ed_law ed (set_reserved_ledger ed who b (f, r, i))"
proof (cases "\<not> ed \<le> b \<and> ed \<le> f who")
  case True
  then have "f who \<le> f who + b" using assms(2) le_plus_no_wrap [of "f who" b] by simp
  then have "ed \<le> f who + b" using True order_trans by blast
  with True assms(1) show ?thesis by (simp add: ed_law_def set_reserved_ledger_def)
next
  case False
  with assms(1) show ?thesis by (cases "ed \<le> b") (simp_all add: ed_law_def set_reserved_ledger_def)
qed

end
