(* ===== verification/Balances_Accounting.thy ===== *)
theory Balances_Accounting
  imports Balances_Laws
begin

text \<open>
  Every operation of the balances module keeps the books: the imbalance it returns is exactly the
  change it made to the sum of all balances.  The two exceptions are proved as such: \<open>reserve\<close> and
  \<open>unreserve\<close> lose an amount that stays below the existential deposit.
\<close>

section \<open>The invariant and the setters\<close>

definition accounts :: "balances_config \<Rightarrow> int \<Rightarrow> ('acc, 'hash, 'dig) balances_state \<Rightarrow> bool" where
  "accounts cfg k s \<longleftrightarrow> books k (ledger s) \<and> ed_law (ExistentialDeposit cfg) (ledger s)"

lemma ledger_frame [simp]:
  "ledger (balances_deposit_event ev s) = ledger s"
  "ledger (new_account who b s) = ledger s"
  "ledger (s\<lparr>Locks := l\<rparr>) = ledger s"
  "ledger (s\<lparr>Vesting := v\<rparr>) = ledger s"
  "ledger (s\<lparr>Hooks := h\<rparr>) = ledger s"
  by (simp_all add: ledger_def)

lemma accounts_ledger: "ledger s = ledger t \<Longrightarrow> accounts cfg k s = accounts cfg k t"
  by (simp add: accounts_def)

lemma accounts_bound:
  assumes "accounts cfg k s"
  shows "int (unat (free_balance s a)) + int (unat (reserved_balance s b)) \<le> int (unat (TotalIssuance s)) - k"
  using assms unfolding accounts_def ledger_def by (elim conjE) (erule books_free_le)

lemma u128_lt: "unat (x :: u128) < 2 ^ 128"
  using unat_lt_pow [of x] unfolding len_u128 .

lemma u128_0: "unat (0 :: u128) = 0"
  by simp

lemma set_free_accounts:
  assumes "accounts cfg k s" and "0 \<le> k + int (unat (free_balance s who)) - int (unat b)"
  shows "accounts cfg (k + int (unat (free_balance s who)) - int (unat b)) (snd (set_free_balance cfg who b s))"
    and "ledger (snd (set_free_balance cfg who b s)) = set_free_ledger (ExistentialDeposit cfg) who b (ledger s)"
proof -
  have le: "unat (reserved_balance s who) + unat b \<le> unat (TotalIssuance s)"
    using accounts_bound [OF assms(1), of who who] assms(2) by linarith
  then have w: "unat (reserved_balance s who) + unat b < 2 ^ 128"
    using u128_lt [of "TotalIssuance s"] by linarith
  show led: "ledger (snd (set_free_balance cfg who b s)) = set_free_ledger (ExistentialDeposit cfg) who b (ledger s)"
    using w by (rule set_free_balance_ledger)
  have "books (k + int (unat (free_balance s who)) - int (unat b))
      (set_free_ledger (ExistentialDeposit cfg) who b (ledger s))"
    using assms(1) w le unfolding ledger_def accounts_def by (intro set_free_ledger_books) linarith+
  moreover have "ed_law (ExistentialDeposit cfg) (set_free_ledger (ExistentialDeposit cfg) who b (ledger s))"
    using assms(1) w unfolding ledger_def accounts_def by (intro set_free_ledger_law) linarith+
  ultimately show "accounts cfg (k + int (unat (free_balance s who)) - int (unat b)) (snd (set_free_balance cfg who b s))"
    unfolding accounts_def led by blast
qed

lemma set_reserved_accounts:
  assumes "accounts cfg k s" and "0 \<le> k + int (unat (reserved_balance s who)) - int (unat b)"
  shows "accounts cfg (k + int (unat (reserved_balance s who)) - int (unat b)) (snd (set_reserved_balance cfg who b s))"
    and "ledger (snd (set_reserved_balance cfg who b s)) = set_reserved_ledger (ExistentialDeposit cfg) who b (ledger s)"
proof -
  have le: "unat (free_balance s who) + unat b \<le> unat (TotalIssuance s)"
    using accounts_bound [OF assms(1), of who who] assms(2) by linarith
  then have w: "unat (free_balance s who) + unat b < 2 ^ 128"
    using u128_lt [of "TotalIssuance s"] by linarith
  show led: "ledger (snd (set_reserved_balance cfg who b s)) = set_reserved_ledger (ExistentialDeposit cfg) who b (ledger s)"
    using w by (rule set_reserved_balance_ledger)
  have "books (k + int (unat (reserved_balance s who)) - int (unat b))
      (set_reserved_ledger (ExistentialDeposit cfg) who b (ledger s))"
    using assms(1) w le unfolding ledger_def accounts_def by (intro set_reserved_ledger_books) linarith+
  moreover have "ed_law (ExistentialDeposit cfg) (set_reserved_ledger (ExistentialDeposit cfg) who b (ledger s))"
    using assms(1) w unfolding ledger_def accounts_def by (intro set_reserved_ledger_law) linarith+
  ultimately show "accounts cfg (k + int (unat (reserved_balance s who)) - int (unat b)) (snd (set_reserved_balance cfg who b s))"
    unfolding accounts_def led by blast
qed

lemma set_free_keeps:
  "accounts cfg k s \<Longrightarrow> 0 \<le> k' \<Longrightarrow> k' = k + int (unat (free_balance s who)) - int (unat b)
    \<Longrightarrow> accounts cfg k' (snd (set_free_balance cfg who b s))"
  using set_free_accounts(1) [of cfg k s who b] by simp

lemma set_reserved_keeps:
  "accounts cfg k s \<Longrightarrow> 0 \<le> k' \<Longrightarrow> k' = k + int (unat (reserved_balance s who)) - int (unat b)
    \<Longrightarrow> accounts cfg k' (snd (set_reserved_balance cfg who b s))"
  using set_reserved_accounts(1) [of cfg k s who b] by simp

lemma drop_negative_books:
  assumes "accounts cfg k s" and "unat v \<le> unat (TotalIssuance s)"
  shows "accounts cfg (k - int (unat v)) (drop_negative (NegativeImbalance v) s)"
proof -
  have "int (unat (saturating_sub (TotalIssuance s) v)) = int (unat (TotalIssuance s)) - int (unat v)"
    using assms(2) by (simp only: unat_saturating_sub of_nat_diff)
  then have "books (k - int (unat v)) (free_balance s, reserved_balance s, saturating_sub (TotalIssuance s) v)"
    using assms(1) unfolding accounts_def ledger_def by (elim conjE) (rule books_update_issuance, assumption, linarith)
  then show ?thesis using assms(1) by (simp add: accounts_def ledger_def drop_negative_def ed_law_def)
qed

lemma drop_negative_accounts:
  assumes "accounts cfg k s" and "0 \<le> k - int (unat v)"
  shows "accounts cfg (k - int (unat v)) (drop_negative (NegativeImbalance v) s)"
  by (rule drop_negative_books [OF assms(1)])
    (use accounts_bound [OF assms(1), of undefined undefined] assms(2) in linarith)

lemma on_unbalanced_accounts:
  "accounts cfg k s \<Longrightarrow> 0 \<le> k - int (unat v) \<Longrightarrow> accounts cfg (k - int (unat v)) (on_unbalanced (NegativeImbalance v) s)"
  using drop_negative_accounts [of cfg k s v] by (simp add: on_unbalanced_eq drop_negative_def)

lemma drop_positive_accounts:
  assumes "accounts cfg k s" and "unat (TotalIssuance s) + unat v < 2 ^ 128"
  shows "accounts cfg (k + int (unat v)) (drop_positive (PositiveImbalance v) s)"
proof -
  have "saturating_add (TotalIssuance s) v = TotalIssuance s + v" using assms(2) by (simp add: saturating_add_def)
  then have "int (unat (saturating_add (TotalIssuance s) v)) = int (unat (TotalIssuance s)) + int (unat v)"
    using assms(2) unat_add_no_wrap [of "TotalIssuance s" v] by (simp only: len_u128 of_nat_add)
  then have "books (k + int (unat v)) (free_balance s, reserved_balance s, saturating_add (TotalIssuance s) v)"
    using assms(1) unfolding accounts_def ledger_def by (elim conjE) (rule books_update_issuance, assumption, linarith)
  then show ?thesis using assms(1) by (simp add: accounts_def ledger_def drop_positive_def ed_law_def)
qed

section \<open>Transfers\<close>

definition transfer_fee :: "balances_config \<Rightarrow> 'acc \<Rightarrow> ('acc, 'hash, 'dig) balances_state \<Rightarrow> u128" where
  "transfer_fee cfg dest s = (if free_balance s dest = 0 then CreationFee cfg else TransferFee cfg)"

text \<open>The state a transfer between two accounts ends in.\<close>

definition transferred ::
  "balances_config \<Rightarrow> 'acc \<Rightarrow> 'acc \<Rightarrow> u128 \<Rightarrow> u128 \<Rightarrow> ('acc, 'hash, 'dig) balances_state
    \<Rightarrow> ('acc, 'hash, 'dig) balances_state" where
  "transferred cfg a d value fee s =
     (let s1 = snd (set_free_balance cfg a (free_balance s a - (value + fee)) s);
          s2 = (if FreeBalance s1 d = None then new_account d (free_balance s d + value) s1 else s1);
          s3 = balances_deposit_event (Transfer a d value fee) s2
      in on_unbalanced (NegativeImbalance fee) (snd (set_free_balance cfg d (free_balance s d + value) s3)))"

lemma currency_transfer_cases:
  assumes "currency_transfer cfg a d value er s = (res, t)"
  obtains (failed) e where "res = Inl e" "t = s"
  | (self) "res = Inr ()" "a = d" "t = s"
  | (moved) "res = Inr ()" "a \<noteq> d" "t = transferred cfg a d value (transfer_fee cfg d s) s"
      "unat value + unat (transfer_fee cfg d s) \<le> unat (free_balance s a)"
      "unat (free_balance s d) + unat value < 2 ^ 128"
      "free_balance s d = 0 \<Longrightarrow> ExistentialDeposit cfg \<le> value"
      "ensure_can_withdraw a value WR_Transfer (free_balance s a - (value + transfer_fee cfg d s)) s = Inr ()"
      "er = KeepAlive \<Longrightarrow> ExistentialDeposit cfg \<le> free_balance s a - (value + transfer_fee cfg d s)"
proof -
  let ?fee = "transfer_fee cfg d s"
  note def = assms [unfolded currency_transfer_def Let_def transfer_fee_def [symmetric]]
  show thesis
  proof (cases "checked_add value ?fee")
    case None
    then show thesis using def failed by auto
  next
    case (Some liability)
    then have l: "liability = value + ?fee" "unat liability = unat value + unat ?fee"
      by (auto simp: checked_add_def unat_add_no_wrap split: if_splits)
    show thesis
    proof (cases "checked_sub (free_balance s a) liability")
      case None
      then show thesis using def Some failed by auto
    next
      case s2: (Some nf)
      then have nf: "nf = free_balance s a - (value + ?fee)" "unat liability \<le> unat (free_balance s a)"
        using l by (auto simp: checked_sub_def word_le_nat_alt split: if_splits)
      show thesis
      proof (cases "ensure_can_withdraw a value WR_Transfer nf s")
        case (Inl e)
        then show thesis using def Some s2 failed [of "Module ExistentialDeposit_error"] failed [of e]
          by (simp split: if_splits)
      next
        case ok: (Inr u)
        show thesis
        proof (cases "checked_add (free_balance s d) value")
          case None
          then show thesis using def Some s2 ok failed by (auto split: if_splits)
        next
          case s3: (Some nt)
          then have nt: "nt = free_balance s d + value" "unat (free_balance s d) + unat value < 2 ^ 128"
            by (auto simp: checked_add_def split: if_splits)
          show thesis
            using def Some s2 s3 ok failed self moved nf nt l
            by (auto simp: transferred_def Let_def not_less split: if_splits)
        qed
      qed
    qed
  qed
qed

lemma transferred_accounts:
  assumes acc: "accounts cfg k s" and k: "0 \<le> k" and ne: "a \<noteq> d"
    and le: "unat value + unat fee \<le> unat (free_balance s a)" and nw: "unat (free_balance s d) + unat value < 2 ^ 128"
  shows "accounts cfg k (transferred cfg a d value fee s)"
proof -
  let ?nf = "free_balance s a - (value + fee)" let ?nt = "free_balance s d + value"
  have "unat value + unat fee < 2 ^ 128" using le u128_lt [of "free_balance s a"] by linarith
  then have "unat (value + fee) = unat value + unat fee" using unat_add_no_wrap [of "value" fee] by simp
  then have nf: "unat ?nf = unat (free_balance s a) - (unat value + unat fee)"
    using le by (simp add: unat_sub word_le_nat_alt)
  have nt: "unat ?nt = unat (free_balance s d) + unat value" using nw by (simp add: unat_add_no_wrap)
  define s1 where "s1 = snd (set_free_balance cfg a ?nf s)"
  have k1: "k + int (unat (free_balance s a)) - int (unat ?nf) = k + int (unat value) + int (unat fee)"
    using nf le by linarith
  have a1: "accounts cfg (k + int (unat value) + int (unat fee)) s1"
    unfolding s1_def by (rule set_free_keeps [OF acc]) (use k k1 in linarith)+
  have "ledger s1 = set_free_ledger (ExistentialDeposit cfg) a ?nf (ledger s)"
    unfolding s1_def by (rule set_free_accounts(2) [OF acc]) (use k k1 in linarith)
  then have d1: "free_balance s1 d = free_balance s d"
    using ne by (auto simp: ledger_def set_free_ledger_def split: if_splits)
  define s3 where "s3 = balances_deposit_event (Transfer a d value fee)
    (if FreeBalance s1 d = None then new_account d ?nt s1 else s1)"
  have l3: "ledger s3 = ledger s1" by (simp add: s3_def)
  then have a3: "accounts cfg (k + int (unat value) + int (unat fee)) s3" and d3: "free_balance s3 d = free_balance s d"
    using a1 d1 by (simp_all add: accounts_def ledger_def)
  have "accounts cfg (k + int (unat fee)) (snd (set_free_balance cfg d ?nt s3))"
    by (rule set_free_keeps [OF a3], unfold d3) (use k nt in linarith)+
  from on_unbalanced_accounts [OF this, of fee] k show ?thesis
    unfolding transferred_def Let_def s1_def [symmetric] s3_def [symmetric] by simp
qed

lemma currency_transfer_accounts:
  "accounts cfg k s \<Longrightarrow> 0 \<le> k \<Longrightarrow> accounts cfg k (snd (currency_transfer cfg a d v er s))"
  by (rule currency_transfer_cases [of cfg a d v er s "fst (currency_transfer cfg a d v er s)"
        "snd (currency_transfer cfg a d v er s)"]) (auto intro: transferred_accounts)

lemma transferred_ledger:
  assumes acc: "accounts cfg k s" and k: "0 \<le> k" and ne: "a \<noteq> d"
    and le: "unat value + unat fee \<le> unat (free_balance s a)" and nw: "unat (free_balance s d) + unat value < 2 ^ 128"
    and alive: "free_balance s d = 0 \<Longrightarrow> ExistentialDeposit cfg \<le> value"
  shows "ledger (transferred cfg a d value fee s) =
    (case set_free_ledger (ExistentialDeposit cfg) a (free_balance s a - (value + fee)) (ledger s) of
       (f, r, i) \<Rightarrow> (f(d := free_balance s d + value), r, saturating_sub i fee))"
proof -
  let ?ed = "ExistentialDeposit cfg"
  let ?nf = "free_balance s a - (value + fee)" let ?nt = "free_balance s d + value"
  have nt1: "free_balance s d \<le> ?nt" using nw le_plus_no_wrap [of "free_balance s d" "value"] by simp
  have "unat value + unat (free_balance s d) < 2 ^ 128" using nw by linarith
  then have nt2: "value \<le> ?nt"
    using le_plus_no_wrap [of "value" "free_balance s d"] by (simp add: add.commute [of "value"])
  have "?ed \<le> ?nt"
  proof (cases "free_balance s d = 0")
    case False
    then have "?ed \<le> free_balance s d" using acc by (auto simp: accounts_def ledger_def ed_law_def)
    then show ?thesis using nt1 by (rule order_trans)
  qed (use alive nt2 order_trans in blast)
  then have high: "snd (set_free_balance cfg d ?nt s') = s'\<lparr>FreeBalance := (FreeBalance s')(d \<mapsto> ?nt)\<rparr>" for s' :: "('a, 'b, 'c) balances_state"
    by (simp add: set_free_balance.simps Let_def not_less [symmetric])
  define s1 where "s1 = snd (set_free_balance cfg a ?nf s)"
  define s3 where "s3 = balances_deposit_event (Transfer a d value fee)
    (if FreeBalance s1 d = None then new_account d ?nt s1 else s1)"
  have "unat value + unat fee < 2 ^ 128" using le u128_lt [of "free_balance s a"] by linarith
  then have "unat ?nf \<le> unat (free_balance s a)"
    using le by (simp add: unat_sub word_le_nat_alt unat_add_no_wrap)
  then have l1: "ledger s1 = set_free_ledger ?ed a ?nf (ledger s)"
    unfolding s1_def by (intro set_free_accounts(2) [OF acc]) (use k in linarith)
  have "ledger s3 = ledger s1" by (simp add: s3_def)
  then have "ledger (transferred cfg a d value fee s)
      = ((free_balance s1)(d := ?nt), reserved_balance s1, saturating_sub (TotalIssuance s1) fee)"
    unfolding transferred_def Let_def s1_def [symmetric] s3_def [symmetric] high on_unbalanced_eq
    by (simp add: ledger_def free_balance_fun_upd)
  moreover have "(case ledger s1 of (f, r, i) \<Rightarrow> (f(d := ?nt), r, saturating_sub i fee))
      = ((free_balance s1)(d := ?nt), reserved_balance s1, saturating_sub (TotalIssuance s1) fee)"
    by (simp add: ledger_def)
  ultimately show ?thesis by (simp only: l1)
qed

section \<open>Withdrawals, slashes and deposits\<close>

lemma withdraw_accounts:
  assumes "accounts cfg k s" and "0 \<le> k" and "withdraw cfg who v rs lv s = (Inr n, t)"
  shows "accounts cfg (k + int (unat (neg_peek n))) t \<and> neg_peek n = v"
proof -
  have w: "n = NegativeImbalance v" "t = snd (set_free_balance cfg who (free_balance s who - v) s)"
    "v \<le> free_balance s who"
    using assms(3) by (auto simp: withdraw_def Let_def checked_sub_def split: option.splits if_splits sum.splits)
  then have "unat (free_balance s who - v) = unat (free_balance s who) - unat v" by (simp add: unat_sub)
  then have "accounts cfg (k + int (unat v)) t"
    unfolding w(2) by (intro set_free_keeps [OF assms(1)]) (use assms(2) w(3) in \<open>auto simp: word_le_nat_alt\<close>)
  then show ?thesis using w(1) by simp
qed

lemma unat_sub_min: "unat (x - min x v) = unat x - min (unat x) (unat (v :: 'a::len word))"
  by (simp add: unat_sub unat_min)

lemma set_free_reserved:
  assumes "accounts cfg k s" and "0 \<le> k" and "b = 0"
  shows "reserved_balance (snd (set_free_balance cfg who b s)) = reserved_balance s"
  using set_free_accounts(2) [OF assms(1), of who b] assms(2,3)
  by (auto simp: ledger_def set_free_ledger_def split: if_splits)

lemma slash_accounts:
  assumes acc: "accounts cfg k s" and k: "0 \<le> k" and sl: "slash cfg who v s = ((n, rest), t)"
  shows "accounts cfg (k + int (unat (neg_peek n))) t \<and> unat (neg_peek n) + unat rest = unat v"
proof -
  let ?f = "free_balance s who" let ?fs = "min ?f v"
  define s1 where "s1 = snd (set_free_balance cfg who (?f - ?fs) s)"
  have fs: "unat (?f - ?fs) = unat ?f - unat ?fs" "unat ?fs \<le> unat ?f" "unat (v - ?fs) = unat v - unat ?fs" "unat ?fs \<le> unat v"
    by (simp_all add: unat_sub unat_min)
  have a1: "accounts cfg (k + int (unat ?fs)) s1"
    unfolding s1_def by (intro set_free_keeps [OF acc]) (use k fs in linarith)+
  show ?thesis
  proof (cases "v - ?fs = 0")
    case True
    then have "unat v - unat ?fs = 0" using fs(3) by (metis unat_0)
    then have eq: "unat v = unat ?fs" using fs(4) by linarith
    have "n = NegativeImbalance v" "rest = 0" "t = s1"
      using sl True unfolding slash_def Let_def s1_def [symmetric] by simp_all
    with a1 show ?thesis by (simp only: eq negative_imbalance.sel unat_0 add_0_right simp_thms)
  next
    case False
    let ?r = "reserved_balance s1 who" let ?rs = "min ?r (v - ?fs)"
    have rs: "unat (?r - ?rs) = unat ?r - unat ?rs" "unat ?rs \<le> unat ?r"
      "unat (v - ?fs - ?rs) = unat (v - ?fs) - unat ?rs" "unat ?rs \<le> unat (v - ?fs)"
      by (simp_all add: unat_sub unat_min)
    have t: "n = NegativeImbalance (?fs + ?rs)" "rest = v - ?fs - ?rs" "t = snd (set_reserved_balance cfg who (?r - ?rs) s1)"
      using sl False unfolding slash_def Let_def s1_def [symmetric] by auto
    have "unat ?fs + unat ?rs < 2 ^ 128" using fs(3,4) rs(4) u128_lt [of v] by linarith
    then have sum: "unat (?fs + ?rs) = unat ?fs + unat ?rs" using unat_add_no_wrap [of ?fs ?rs] by simp
    have "accounts cfg (k + int (unat ?fs) + int (unat ?rs)) t"
      unfolding t(3) by (intro set_reserved_keeps [OF a1]) (use k rs in linarith)+
    moreover have "k + int (unat ?fs) + int (unat ?rs) = k + int (unat (?fs + ?rs))"
      using sum by linarith
    moreover have "unat (?fs + ?rs) + unat rest = unat v" using sum fs(3,4) rs(3,4) unfolding t(2) by linarith
    ultimately show ?thesis by (simp only: t(1) negative_imbalance.sel simp_thms)
  qed
qed

lemma plus_free_fits:
  assumes "accounts cfg k s" and "int (unat v) \<le> k"
  shows "unat (free_balance s who + v) = unat (free_balance s who) + unat v"
proof -
  have "unat (free_balance s who) + unat v < 2 ^ 128"
    using accounts_bound [OF assms(1), of who who] assms(2) u128_lt [of "TotalIssuance s"] by linarith
  then show ?thesis using unat_add_no_wrap [of "free_balance s who" v] by simp
qed

lemma deposit_into_existing_accounts:
  assumes "accounts cfg k s" and "int (unat v) \<le> k" and "deposit_into_existing cfg who v s = (Inr p, t)"
  shows "accounts cfg (k - int (unat v)) t \<and> pos_peek p = v"
proof -
  have t: "p = PositiveImbalance v" "t = snd (set_free_balance cfg who (free_balance s who + v) s)"
    using assms(3) by (auto simp: deposit_into_existing_def split: if_splits)
  have "accounts cfg (k - int (unat v)) t"
    unfolding t(2) by (intro set_free_keeps [OF assms(1)]) (use plus_free_fits [OF assms(1,2), of who] assms(2) in linarith)+
  with t(1) show ?thesis by simp
qed

lemma make_free_balance_be_accounts:
  assumes acc: "accounts cfg k s" and k: "0 \<le> k + int (unat (free_balance s who)) - int (unat b)" "0 \<le> k"
    and m: "make_free_balance_be cfg who b s = ((imb, oc), t)"
  shows "case imb of Positive p \<Rightarrow> accounts cfg (k - int (unat (pos_peek p))) t \<and> int (unat (pos_peek p)) \<le> k
           | Negative n \<Rightarrow> accounts cfg (k + int (unat (neg_peek n))) t"
proof (cases "b < ExistentialDeposit cfg \<and> free_balance s who = 0")
  case True
  then show ?thesis using m acc k(2) by (auto simp: make_free_balance_be_def Let_def)
next
  case False
  let ?k = "k + int (unat (free_balance s who)) - int (unat b)"
  let ?s = "if b < ExistentialDeposit cfg \<or> FreeBalance s who \<noteq> None then s else new_account who b s"
  have led: "ledger ?s = ledger s" by simp
  have "accounts cfg k ?s" using acc unfolding accounts_def led .
  moreover have "free_balance ?s who = free_balance s who" by simp
  ultimately have a: "accounts cfg ?k (snd (set_free_balance cfg who b ?s))"
    using set_free_keeps [of cfg k ?s ?k who b] k(1) by simp
  have t: "t = snd (set_free_balance cfg who b ?s)"
    "imb = (if free_balance s who \<le> b then Positive (PositiveImbalance (b - free_balance s who))
            else Negative (NegativeImbalance (free_balance s who - b)))"
    using m False unfolding make_free_balance_be_def Let_def by (auto split: if_splits)
  show ?thesis
  proof (cases "free_balance s who \<le> b")
    case True
    then have "int (unat (b - free_balance s who)) = int (unat b) - int (unat (free_balance s who))"
      by (simp add: unat_sub word_le_nat_alt of_nat_diff del: of_nat_unat)
    then have "k - int (unat (b - free_balance s who)) = ?k" "int (unat (b - free_balance s who)) \<le> k"
      using k(1) by linarith+
    with True a show ?thesis
      by (simp only: t if_True signed_imbalance.case positive_imbalance.sel simp_thms)
  next
    case le: False
    then have "int (unat (free_balance s who - b)) = int (unat (free_balance s who)) - int (unat b)"
      by (simp add: unat_sub word_le_nat_alt of_nat_diff del: of_nat_unat)
    then have "k + int (unat (free_balance s who - b)) = ?k" by linarith
    with le a show ?thesis
      by (simp only: t if_False signed_imbalance.case negative_imbalance.sel)
  qed
qed

lemma deposit_creating_accounts:
  assumes acc: "accounts cfg k s" and v: "int (unat v) \<le> k" and d: "deposit_creating cfg who v s = (p, t)"
  shows "accounts cfg (k - int (unat (pos_peek p))) t \<and> unat (pos_peek p) \<le> unat v"
proof -
  let ?b = "free_balance s who + v"
  have b: "unat ?b = unat (free_balance s who) + unat v" by (rule plus_free_fits [OF acc v])
  then have le: "free_balance s who \<le> ?b" by (simp add: word_le_nat_alt)
  obtain imb oc t' where m: "make_free_balance_be cfg who ?b s = ((imb, oc), t')" by (metis surj_pair)
  have imb: "imb = Positive (PositiveImbalance 0) \<or> imb = Positive (PositiveImbalance (?b - free_balance s who))"
    using m le unfolding make_free_balance_be_def Let_def by (auto split: if_splits)
  then obtain q where q: "imb = Positive q" "unat (pos_peek q) \<le> unat v" by auto
  have "0 \<le> k + int (unat (free_balance s who)) - int (unat ?b)" "0 \<le> k" using b v by linarith+
  from make_free_balance_be_accounts [OF acc this m] have "accounts cfg (k - int (unat (pos_peek q))) t'"
    unfolding q(1) signed_imbalance.case by blast
  moreover have "p = q" "t = t'" using d m by (auto simp: deposit_creating_def q(1))
  ultimately show ?thesis using q(2) by simp
qed

lemma neg_offset_drop_accounts:
  assumes acc: "accounts cfg k s" and le: "unat (pos_peek p) \<le> unat (neg_peek n)"
    and k: "int (unat (neg_peek n)) - int (unat (pos_peek p)) \<le> k"
  shows "accounts cfg (k - (int (unat (neg_peek n)) - int (unat (pos_peek p)))) (drop_offset (neg_offset n p) s)"
proof -
  let ?v = "neg_peek n - pos_peek p"
  have w: "pos_peek p \<le> neg_peek n" using le by (simp add: word_le_nat_alt)
  then have eq: "int (unat ?v) = int (unat (neg_peek n)) - int (unat (pos_peek p))"
    using le unat_sub [OF w] by linarith
  have "accounts cfg (k - int (unat ?v)) (drop_negative (NegativeImbalance ?v) s)"
    by (rule drop_negative_accounts [OF acc]) (use eq k in linarith)
  moreover have "drop_offset (neg_offset n p) s = drop_negative (NegativeImbalance ?v) s"
    using w by (simp add: drop_offset_def neg_offset_def)
  ultimately show ?thesis by (simp only: eq)
qed

text \<open>Resolving a negative imbalance into an account uses it up, whatever part of it can be deposited.\<close>

lemma resolve_creating_accounts:
  assumes acc: "accounts cfg k s" and n: "int (unat (neg_peek n)) \<le> k"
  shows "accounts cfg (k - int (unat (neg_peek n))) (resolve_creating cfg who n s)"
proof -
  obtain p t where d: "deposit_creating cfg who (neg_peek n) s = (p, t)" by fastforce
  from deposit_creating_accounts [OF acc n d]
  have a: "accounts cfg (k - int (unat (pos_peek p))) t" and le: "unat (pos_peek p) \<le> unat (neg_peek n)" by blast+
  have "accounts cfg (k - int (unat (pos_peek p)) - (int (unat (neg_peek n)) - int (unat (pos_peek p))))
      (drop_offset (neg_offset n p) t)"
    by (rule neg_offset_drop_accounts [OF a le]) (use n in linarith)
  moreover have "k - int (unat (pos_peek p)) - (int (unat (neg_peek n)) - int (unat (pos_peek p)))
      = k - int (unat (neg_peek n))" by linarith
  ultimately show ?thesis by (simp only: resolve_creating_def d prod.case)
qed

lemma issue_accounts:
  assumes acc: "accounts cfg k s" and i: "issue v s = (n, t)"
  shows "accounts cfg (k + int (unat (neg_peek n))) t"
proof -
  obtain i' where t: "t = s\<lparr>TotalIssuance := i'\<rparr>"
    and i': "int (unat i') = int (unat (TotalIssuance s)) + int (unat (neg_peek n))"
  proof (cases "unat (TotalIssuance s) + unat v < 2 ^ 128")
    case True
    then have "checked_add (TotalIssuance s) v = Some (TotalIssuance s + v)" by (simp add: checked_add_def)
    then have "n = NegativeImbalance v" "t = s\<lparr>TotalIssuance := TotalIssuance s + v\<rparr>" using i by (auto simp: issue_def)
    moreover have "unat (TotalIssuance s + v) = unat (TotalIssuance s) + unat v"
      using True unat_add_no_wrap [of "TotalIssuance s" v] by simp
    ultimately show thesis using that [of "TotalIssuance s + v"] by simp
  next
    case False
    then have "checked_add (TotalIssuance s) v = None" by (simp add: checked_add_def)
    then have n: "n = NegativeImbalance (- 1 - TotalIssuance s)" "t = s\<lparr>TotalIssuance := - 1\<rparr>"
      using i by (auto simp: issue_def)
    have "TotalIssuance s \<le> - 1" by simp
    then have "unat (- 1 - TotalIssuance s) = unat (- 1 :: u128) - unat (TotalIssuance s)" by (rule unat_sub)
    moreover have "unat (TotalIssuance s) \<le> unat (- 1 :: u128)" using \<open>TotalIssuance s \<le> - 1\<close> unfolding word_le_nat_alt .
    ultimately have "int (unat (- 1 :: u128)) = int (unat (TotalIssuance s)) + int (unat (neg_peek n))"
      unfolding n(1) negative_imbalance.sel by linarith
    then show thesis using that [of "- 1"] n(2) by blast
  qed
  have "books (k + int (unat (neg_peek n))) (free_balance s, reserved_balance s, i')"
    using acc i' unfolding accounts_def ledger_def by (elim conjE) (rule books_update_issuance, assumption, linarith)
  then show ?thesis using acc by (simp add: accounts_def ledger_def t ed_law_def)
qed

section \<open>Reserved funds\<close>

lemma slash_reserved_accounts:
  assumes acc: "accounts cfg k s" and k: "0 \<le> k" and sl: "slash_reserved cfg who v s = ((n, rest), t)"
  shows "accounts cfg (k + int (unat (neg_peek n))) t \<and> unat (neg_peek n) + unat rest = unat v"
proof -
  let ?b = "reserved_balance s who" let ?sl = "min ?b v"
  have u: "unat (?b - ?sl) = unat ?b - unat ?sl" "unat ?sl \<le> unat ?b" "unat (v - ?sl) = unat v - unat ?sl" "unat ?sl \<le> unat v"
    by (simp_all add: unat_sub unat_min)
  have t: "n = NegativeImbalance ?sl" "rest = v - ?sl" "t = snd (set_reserved_balance cfg who (?b - ?sl) s)"
    using sl unfolding slash_reserved_def Let_def by blast+
  have "accounts cfg (k + int (unat ?sl)) t"
    unfolding t(3) by (intro set_reserved_keeps [OF acc]) (use k u in linarith)+
  moreover have "unat ?sl + unat rest = unat v" using u(3,4) unfolding t(2) by linarith
  ultimately show ?thesis by (simp only: t(1) negative_imbalance.sel simp_thms)
qed

text \<open>
  Moving reserved funds passes through a state in which they are counted twice, so these lemmas
  ask for head room of one existential deposit above the issuance.
\<close>

definition head_room :: "balances_config \<Rightarrow> ('acc, 'hash, 'dig) balances_state \<Rightarrow> bool" where
  "head_room cfg s \<longleftrightarrow> unat (TotalIssuance s) + unat (ExistentialDeposit cfg) < 2 ^ 128"

lemma repatriate_reserved_accounts:
  assumes acc: "accounts cfg k s" and k: "0 \<le> k" and hr: "head_room cfg s" and ne: "a \<noteq> d"
  shows "accounts cfg k (snd (repatriate_reserved cfg a d v s))"
proof (cases "total_balance s d = 0")
  case False
  let ?ed = "ExistentialDeposit cfg"
  let ?r = "reserved_balance s a" let ?sl = "min ?r v" let ?nf = "free_balance s d + ?sl"
  have sl: "unat ?sl \<le> unat ?r" "unat (?r - ?sl) = unat ?r - unat ?sl" by (simp_all add: unat_sub unat_min)
  have bound: "int (unat (free_balance s d)) + int (unat ?r) \<le> int (unat (TotalIssuance s)) - k"
    by (rule accounts_bound [OF acc])
  then have "unat (free_balance s d) + unat ?sl < 2 ^ 128" using sl k u128_lt [of "TotalIssuance s"] by linarith
  then have nf: "unat ?nf = unat (free_balance s d) + unat ?sl"
    using unat_add_no_wrap [of "free_balance s d" ?sl] by simp
  define s1 where "s1 = snd (set_free_balance cfg d ?nf s)"
  have w: "unat (reserved_balance s d) + unat ?nf < 2 ^ 128" if "?nf < ?ed"
    using that accounts_bound [OF acc, of d d] hr k unfolding head_room_def word_less_nat_alt by linarith
  then have l1: "ledger s1 = set_free_ledger ?ed d ?nf (ledger s)"
    unfolding s1_def by (rule set_free_balance_ledger)
  have i1: "unat ?nf \<le> unat (TotalIssuance s)" using bound nf sl k by linarith
  have b1: "books (k - int (unat ?sl)) (ledger s1)" and e1: "ed_law ?ed (ledger s1)"
  proof -
    have "books (k + int (unat (free_balance s d)) - int (unat ?nf)) (set_free_ledger ?ed d ?nf (ledger s))"
      using acc w i1 unfolding accounts_def ledger_def
      by (intro set_free_ledger_books) (auto simp: not_le)
    moreover have "k + int (unat (free_balance s d)) - int (unat ?nf) = k - int (unat ?sl)" using nf by linarith
    ultimately show "books (k - int (unat ?sl)) (ledger s1)" by (simp only: l1)
    show "ed_law ?ed (ledger s1)"
      unfolding l1 using acc w unfolding accounts_def ledger_def by (intro set_free_ledger_law) (auto simp: not_le)
  qed
  have s1: "reserved_balance s1 a = ?r" "free_balance s1 a = free_balance s a"
      "unat (TotalIssuance s) \<le> unat (TotalIssuance s1) + unat ?nf"
    using l1 ne by (auto simp: ledger_def set_free_ledger_def unat_saturating_sub split: if_splits)
  have "unat (free_balance s1 a) + unat (?r - ?sl) < 2 ^ 128"
    using accounts_bound [OF acc, of a a] k sl u128_lt [of "TotalIssuance s"] unfolding s1(2) by linarith
  note w2 = this
  have i2: "unat (?r - ?sl) \<le> unat (TotalIssuance s1)" using s1(3) nf sl bound k by linarith
  have l2: "ledger (snd (set_reserved_balance cfg a (?r - ?sl) s1)) = set_reserved_ledger ?ed a (?r - ?sl) (ledger s1)"
    using w2 by (rule set_reserved_balance_ledger)
  have "books (k - int (unat ?sl) + int (unat (reserved_balance s1 a)) - int (unat (?r - ?sl)))
      (set_reserved_ledger ?ed a (?r - ?sl) (ledger s1))"
    using b1 w2 i2 unfolding ledger_def by (intro set_reserved_ledger_books) blast+
  moreover have "k - int (unat ?sl) + int (unat (reserved_balance s1 a)) - int (unat (?r - ?sl)) = k"
    using sl unfolding s1(1) by linarith
  moreover have "ed_law ?ed (set_reserved_ledger ?ed a (?r - ?sl) (ledger s1))"
    using e1 w2 unfolding ledger_def by (intro set_reserved_ledger_law) blast+
  ultimately have "accounts cfg k (snd (set_reserved_balance cfg a (?r - ?sl) s1))"
    unfolding accounts_def l2 by metis
  then show ?thesis using False by (simp add: repatriate_reserved_def Let_def s1_def)
qed (use acc in \<open>simp add: repatriate_reserved_def\<close>)

text \<open>What an amount moved between the two sides of an account loses on the way.\<close>

definition unreserve_loss :: "balances_config \<Rightarrow> 'acc \<Rightarrow> u128 \<Rightarrow> ('acc, 'hash, 'dig) balances_state \<Rightarrow> nat" where
  "unreserve_loss cfg who v s =
     (let b = unat (free_balance s who) + min (unat (reserved_balance s who)) (unat v)
      in if b < unat (ExistentialDeposit cfg) then b else 0)"

definition reserve_loss :: "balances_config \<Rightarrow> 'acc \<Rightarrow> u128 \<Rightarrow> ('acc, 'hash, 'dig) balances_state \<Rightarrow> nat" where
  "reserve_loss cfg who v s =
     (let b = unat (reserved_balance s who) + unat v
      in if b < unat (ExistentialDeposit cfg) then b else 0)"

lemma law_zero: "ed_law ed (f, r, i) \<Longrightarrow> (\<not> ed \<le> f a \<longrightarrow> f a = 0) \<and> (\<not> ed \<le> r a \<longrightarrow> r a = 0)"
  by (auto simp: ed_law_def)

lemma unreserve_ledger_books:
  assumes bk: "books k (f, r, i)" and law: "ed_law ed (f, r, i)" and k: "0 \<le> k"
    and hr: "unat i + unat ed < 2 ^ 128" and act: "unat act \<le> unat (r w)"
  shows "books (k + int (if unat (f w) + unat act < unat ed then unat (f w) + unat act else 0))
    (set_reserved_ledger ed w (r w - act) (set_free_ledger ed w (f w + act) (f, r, i)))"
proof -
  have bound: "int (unat (f w)) + int (unat (r w)) \<le> int (unat i) - k" by (rule books_free_le [OF bk])
  then have "unat (f w) + unat act < 2 ^ 128" using act k u128_lt [of i] by linarith
  then have b: "unat (f w + act) = unat (f w) + unat act" using unat_add_no_wrap [of "f w" act] by simp
  have b2: "unat (r w - act) = unat (r w) - unat act" using act by (simp add: unat_sub word_le_nat_alt)
  show ?thesis
  proof (cases "ed \<le> f w + act")
    case True
    have "books (k - int (unat act)) (f(w := f w + act), r, i)"
      by (rule books_update_free [OF bk]) (use b in linarith)
    moreover have "unat ((f(w := f w + act)) w) + unat (r w - act) < 2 ^ 128"
      using b b2 act bound k u128_lt [of i] unfolding fun_upd_same by linarith
    ultimately have "books (k - int (unat act) + int (unat (r w)) - int (unat (r w - act)))
        (set_reserved_ledger ed w (r w - act) (f(w := f w + act), r, i))"
      using True set_reserved_ledger_books [of "k - int (unat act)" "f(w := f w + act)" r i ed "r w - act" w] by simp
    moreover have "k - int (unat act) + int (unat (r w)) - int (unat (r w - act)) = k" using b2 act by linarith
    moreover have nl: "\<not> unat (f w) + unat act < unat ed" using True b by (simp add: word_le_nat_alt)
    moreover have "set_free_ledger ed w (f w + act) (f, r, i) = (f(w := f w + act), r, i)"
      using True by (simp add: set_free_ledger_def)
    ultimately show ?thesis by (simp only: if_False) simp
  next
    case low: False
    then have lb: "unat (f w) + unat act < unat ed" using b by (simp add: word_le_nat_alt)
    show ?thesis
    proof (cases "ed \<le> r w")
      case True
      have ed0: "\<not> ed \<le> 0" using lb by (simp add: word_le_nat_alt)
      have "int (unat (saturating_sub i (r w - act))) = int (unat i) - int (unat (r w - act))"
        using bound k b2 act unfolding unat_saturating_sub by linarith
      then have 1: "books (k + int (unat (f w) + unat act)) (f(w := 0), r(w := 0), saturating_sub i (r w - act))"
        by (intro books_update [OF bk]) (use b2 act u128_0 in linarith)
      have 2: "books (k + int (unat (f w) + unat act)) (f(w := 0), r(w := r w - act), i)"
        by (intro books_update [OF bk]) (use b2 act u128_0 in linarith)
      have sf: "set_free_ledger ed w (f w + act) (f, r, i) = (f(w := 0), r(w := r w + (f w + act)), i)"
        using low True by (simp add: set_free_ledger_def)
      show ?thesis
        unfolding sf if_P [OF lb] using 1 2 ed0
        by (cases "ed \<le> r w - act") (simp_all only: set_reserved_ledger_def prod.case if_True if_False fun_upd_upd fun_upd_same not_True_eq_False)
    next
      case False
      then have r0: "r w = 0" using law_zero [OF law] by blast
      then have a0: "act = 0" using act by (auto intro: word_eq_unatI)
      then have f0: "f w = 0" using law_zero [OF law, of w] low by simp
      then have "f(w := 0) = f" "r(w := 0) = r" using r0 by (simp_all add: fun_upd_idem)
      then show ?thesis using bk low r0 a0 f0 by (simp add: set_free_ledger_def set_reserved_ledger_def)
    qed
  qed
qed

lemma reserve_ledger_books:
  assumes bk: "books k (f, r, i)" and law: "ed_law ed (f, r, i)" and k: "0 \<le> k"
    and hr: "unat i + unat ed < 2 ^ 128" and v: "unat v \<le> unat (f w)"
  shows "books (k + int (if unat (r w) + unat v < unat ed then unat (r w) + unat v else 0))
    (set_free_ledger ed w (f w - v) (set_reserved_ledger ed w (r w + v) (f, r, i)))"
proof -
  have bound: "int (unat (f w)) + int (unat (r w)) \<le> int (unat i) - k" by (rule books_free_le [OF bk])
  then have "unat (r w) + unat v < 2 ^ 128" using v k u128_lt [of i] by linarith
  then have b: "unat (r w + v) = unat (r w) + unat v" using unat_add_no_wrap [of "r w" v] by simp
  have b2: "unat (f w - v) = unat (f w) - unat v" using v by (simp add: unat_sub word_le_nat_alt)
  show ?thesis
  proof (cases "ed \<le> r w + v")
    case True
    have "books (k - int (unat v)) (f, r(w := r w + v), i)"
      by (rule books_update_reserved [OF bk]) (use b in linarith)
    moreover have "unat ((r(w := r w + v)) w) + unat (f w - v) < 2 ^ 128"
      using b b2 v bound k u128_lt [of i] unfolding fun_upd_same by linarith
    ultimately have "books (k - int (unat v) + int (unat (f w)) - int (unat (f w - v)))
        (set_free_ledger ed w (f w - v) (f, r(w := r w + v), i))"
      using True set_free_ledger_books [of "k - int (unat v)" f "r(w := r w + v)" i ed "f w - v" w] by simp
    moreover have "k - int (unat v) + int (unat (f w)) - int (unat (f w - v)) = k" using b2 v by linarith
    moreover have nl: "\<not> unat (r w) + unat v < unat ed" using True b by (simp add: word_le_nat_alt)
    moreover have "set_reserved_ledger ed w (r w + v) (f, r, i) = (f, r(w := r w + v), i)"
      using True by (simp add: set_reserved_ledger_def)
    ultimately show ?thesis by (simp only: if_False) simp
  next
    case low: False
    then have lb: "unat (r w) + unat v < unat ed" using b by (simp add: word_le_nat_alt)
    show ?thesis
    proof (cases "ed \<le> f w")
      case True
      have ed0: "\<not> ed \<le> 0" using lb by (simp add: word_le_nat_alt)
      have "int (unat (saturating_sub i (f w - v))) = int (unat i) - int (unat (f w - v))"
        using bound k b2 v unfolding unat_saturating_sub by linarith
      then have 1: "books (k + int (unat (r w) + unat v)) (f(w := 0), r(w := 0), saturating_sub i (f w - v))"
        by (intro books_update [OF bk]) (use b2 v u128_0 in linarith)
      have 2: "books (k + int (unat (r w) + unat v)) (f(w := f w - v), r(w := 0), i)"
        by (intro books_update [OF bk]) (use b2 v u128_0 in linarith)
      have sr: "set_reserved_ledger ed w (r w + v) (f, r, i) = (f(w := f w + (r w + v)), r(w := 0), i)"
        using low True by (simp add: set_reserved_ledger_def)
      show ?thesis
        unfolding sr if_P [OF lb] using 1 2 ed0
        by (cases "ed \<le> f w - v") (simp_all only: set_free_ledger_def prod.case if_True if_False fun_upd_upd fun_upd_same not_True_eq_False)
    next
      case False
      then have f0: "f w = 0" using law_zero [OF law] by blast
      then have v0: "v = 0" using v by (auto intro: word_eq_unatI)
      then have r0: "r w = 0" using law_zero [OF law, of w] low by simp
      then have "f(w := 0) = f" "r(w := 0) = r" using f0 by (simp_all add: fun_upd_idem)
      then show ?thesis using bk low r0 v0 f0 by (simp add: set_free_ledger_def set_reserved_ledger_def)
    qed
  qed
qed

lemma unreserve_accounts:
  assumes acc: "accounts cfg k s" and k: "0 \<le> k" and hr: "head_room cfg s"
  shows "accounts cfg (k + int (unreserve_loss cfg who v s)) (snd (unreserve cfg who v s))"
proof -
  let ?ed = "ExistentialDeposit cfg"
  let ?r = "reserved_balance s who" let ?a = "min ?r v" let ?f = "free_balance s who"
  have a: "unat ?a \<le> unat ?r" "unat ?a = min (unat ?r) (unat v)" by (simp_all add: unat_min)
  have bound: "int (unat ?f) + int (unat ?r) \<le> int (unat (TotalIssuance s)) - k"
    by (rule accounts_bound [OF acc])
  define s1 where "s1 = snd (set_free_balance cfg who (?f + ?a) s)"
  have w1: "unat ?r + unat (?f + ?a) < 2 ^ 128" if "?f + ?a < ?ed"
    using that bound k hr unfolding head_room_def word_less_nat_alt by linarith
  then have l1: "ledger s1 = set_free_ledger ?ed who (?f + ?a) (ledger s)"
    unfolding s1_def by (rule set_free_balance_ledger)
  have "unat ?f + unat ?a < 2 ^ 128" using bound k a(1) u128_lt [of "TotalIssuance s"] by linarith
  then have fa: "unat (?f + ?a) = unat ?f + unat ?a" using unat_add_no_wrap [of ?f ?a] by simp
  have "unat (free_balance s1 who) \<le> unat (?f + ?a)"
    using l1 by (auto simp: ledger_def set_free_ledger_def split: if_splits)
  moreover have "unat (?r - ?a) = unat ?r - unat ?a" by (simp add: unat_sub)
  ultimately have w2: "unat (free_balance s1 who) + unat (?r - ?a) < 2 ^ 128"
    using fa bound k a(1) u128_lt [of "TotalIssuance s"] by linarith
  then have l2: "ledger (snd (unreserve cfg who v s)) =
      set_reserved_ledger ?ed who (?r - ?a) (set_free_ledger ?ed who (?f + ?a) (ledger s))"
    unfolding l1 [symmetric] using set_reserved_balance_ledger [of "?r - ?a" cfg s1 who]
    by (simp add: unreserve_def Let_def s1_def)
  have "books (k + int (unreserve_loss cfg who v s)) (ledger (snd (unreserve cfg who v s)))"
    unfolding l2 unreserve_loss_def Let_def a(2) [symmetric] unfolding ledger_def
    by (rule unreserve_ledger_books)
      (use acc k hr a(1) in \<open>auto simp: accounts_def ledger_def head_room_def\<close>)
  moreover have "ed_law ?ed (ledger (snd (unreserve cfg who v s)))"
  proof -
    have "ed_law ?ed (ledger s1)"
      unfolding l1 using acc w1 unfolding accounts_def ledger_def by (intro set_free_ledger_law) (auto simp: not_le)
    then show ?thesis unfolding l2 l1 [symmetric] using w2 unfolding ledger_def by (intro set_reserved_ledger_law) blast+
  qed
  ultimately show ?thesis by (simp only: accounts_def simp_thms)
qed

lemma reserve_accounts:
  assumes acc: "accounts cfg k s" and k: "0 \<le> k" and hr: "head_room cfg s"
    and res: "reserve cfg who v s = (Inr (), t)"
  shows "accounts cfg (k + int (reserve_loss cfg who v s)) t"
proof -
  let ?ed = "ExistentialDeposit cfg"
  let ?r = "reserved_balance s who" let ?f = "free_balance s who"
  define s1 where "s1 = snd (set_reserved_balance cfg who (?r + v) s)"
  have v: "unat v \<le> unat ?f" and t: "t = snd (set_free_balance cfg who (?f - v) s1)"
    using res unfolding reserve_def Let_def s1_def by (auto simp: word_less_nat_alt split: if_splits sum.splits)
  have bound: "int (unat ?f) + int (unat ?r) \<le> int (unat (TotalIssuance s)) - k"
    by (rule accounts_bound [OF acc])
  have w1: "unat ?f + unat (?r + v) < 2 ^ 128" if "?r + v < ?ed"
    using that bound k hr unfolding head_room_def word_less_nat_alt by linarith
  then have l1: "ledger s1 = set_reserved_ledger ?ed who (?r + v) (ledger s)"
    unfolding s1_def by (rule set_reserved_balance_ledger)
  have "unat ?r + unat v < 2 ^ 128" using bound k v u128_lt [of "TotalIssuance s"] by linarith
  then have rv: "unat (?r + v) = unat ?r + unat v" using unat_add_no_wrap [of ?r v] by simp
  have "unat (reserved_balance s1 who) \<le> unat (?r + v)"
    using l1 by (auto simp: ledger_def set_reserved_ledger_def split: if_splits)
  moreover have "unat (?f - v) = unat ?f - unat v" using v by (simp add: unat_sub word_le_nat_alt)
  ultimately have w2: "unat (reserved_balance s1 who) + unat (?f - v) < 2 ^ 128"
    using rv bound k v u128_lt [of "TotalIssuance s"] by linarith
  then have l2: "ledger t = set_free_ledger ?ed who (?f - v) (set_reserved_ledger ?ed who (?r + v) (ledger s))"
    unfolding l1 [symmetric] t by (rule set_free_balance_ledger)
  have "books (k + int (reserve_loss cfg who v s)) (ledger t)"
    unfolding l2 reserve_loss_def Let_def unfolding ledger_def
    by (rule reserve_ledger_books) (use acc k hr v in \<open>auto simp: accounts_def ledger_def head_room_def\<close>)
  moreover have "ed_law ?ed (ledger t)"
  proof -
    have "ed_law ?ed (ledger s1)"
      unfolding l1 using acc w1 unfolding accounts_def ledger_def by (intro set_reserved_ledger_law) (auto simp: not_le)
    then show ?thesis unfolding l2 l1 [symmetric] using w2 unfolding ledger_def by (intro set_free_ledger_law) blast+
  qed
  ultimately show ?thesis by (simp only: accounts_def simp_thms)
qed

section \<open>Setting balances by root\<close>

lemma square_up_accounts:
  assumes acc: "accounts cfg k s" and fits: "unat (TotalIssuance s) + unat new < 2 ^ 128"
    and cur: "unat cur \<le> unat (TotalIssuance s)"
  shows "accounts cfg (k + int (unat new) - int (unat cur)) (square_up new cur s)
    \<and> unat (TotalIssuance (square_up new cur s)) \<le> unat (TotalIssuance s) + unat new"
proof -
  consider "cur < new" | "new < cur" | "new = cur" by fastforce
  then show ?thesis
  proof cases
    case 1
    then have d: "unat (new - cur) = unat new - unat cur" "unat cur \<le> unat new"
      by (simp_all add: unat_sub word_less_nat_alt word_le_nat_alt)
    have "accounts cfg (k + int (unat (new - cur))) (drop_positive (PositiveImbalance (new - cur)) s)"
      by (rule drop_positive_accounts [OF acc]) (use d fits in linarith)
    moreover have "k + int (unat (new - cur)) = k + int (unat new) - int (unat cur)" using d by linarith
    moreover have "unat (saturating_add (TotalIssuance s) (new - cur)) \<le> unat (TotalIssuance s) + unat new"
      unfolding unat_saturating_add d by simp
    ultimately show ?thesis using 1 by (simp add: square_up_def drop_positive_def del: of_nat_unat)
  next
    case 2
    then have d: "unat (cur - new) = unat cur - unat new" "unat new \<le> unat cur" "\<not> cur < new"
      by (simp_all add: unat_sub word_less_nat_alt word_le_nat_alt)
    have "accounts cfg (k - int (unat (cur - new))) (drop_negative (NegativeImbalance (cur - new)) s)"
      by (rule drop_negative_books [OF acc]) (use d cur in linarith)
    moreover have "k - int (unat (cur - new)) = k + int (unat new) - int (unat cur)" using d by linarith
    moreover have "unat (saturating_sub (TotalIssuance s) (cur - new)) \<le> unat (TotalIssuance s) + unat new"
      unfolding unat_saturating_sub by simp
    ultimately show ?thesis using 2 d(3) by (simp add: square_up_def drop_negative_def del: of_nat_unat)
  next
    case 3
    then show ?thesis using acc by (simp add: square_up_def)
  qed
qed

lemma set_free_issuance:
  assumes "accounts cfg k s" and "0 \<le> k + int (unat (free_balance s who)) - int (unat b)"
  shows "unat (TotalIssuance (snd (set_free_balance cfg who b s))) \<le> unat (TotalIssuance s)"
  using set_free_accounts(2) [OF assms]
  by (auto simp: ledger_def set_free_ledger_def unat_saturating_sub split: if_splits)

lemma set_balance_accounts:
  assumes acc: "accounts cfg k s" and k: "0 \<le> k"
    and fits: "unat (TotalIssuance s) + unat nf + unat nr < 2 ^ 128"
  shows "accounts cfg k (snd (set_balance cfg lkp origin who nf nr s))"
proof (cases "(ensure_root origin :: balances_error dispatch_error + unit)")
  case (Inl e)
  then show ?thesis using acc by (simp add: set_balance_def)
next
  case (Inr u)
  show ?thesis
  proof (cases "lkp who")
    case None
    then show ?thesis using acc Inr by (simp add: set_balance_def)
  next
    case (Some w)
    define f where "f = (if nf < ExistentialDeposit cfg then 0 else nf)"
    define r where "r = (if nr < ExistentialDeposit cfg then 0 else nr)"
    have le: "unat f \<le> unat nf" "unat r \<le> unat nr" by (simp_all add: f_def r_def)
    let ?f = "free_balance s w"
    define s1 where "s1 = square_up f ?f s"
    define s2 where "s2 = snd (set_free_balance cfg w f s1)"
    define s3 where "s3 = square_up r (reserved_balance s2 w) s2"
    have cur: "unat ?f \<le> unat (TotalIssuance s)" using accounts_bound [OF acc, of w w] k by linarith
    have "unat (TotalIssuance s) + unat f < 2 ^ 128" using fits le by linarith
    from square_up_accounts [OF acc this cur]
    have a1: "accounts cfg (k + int (unat f) - int (unat ?f)) s1"
      and i1: "unat (TotalIssuance s1) \<le> unat (TotalIssuance s) + unat f" unfolding s1_def by blast+
    have f1: "free_balance s1 w = ?f" by (simp add: s1_def square_up_def drop_positive_def drop_negative_def)
    have ge: "0 \<le> k + int (unat f) - int (unat ?f) + int (unat (free_balance s1 w)) - int (unat f)"
      using k unfolding f1 by linarith
    have a2: "accounts cfg k s2"
      unfolding s2_def by (rule set_free_keeps [OF a1]) (use k f1 in \<open>simp_all\<close>)
    have i2: "unat (TotalIssuance s2) \<le> unat (TotalIssuance s1)"
      unfolding s2_def by (rule set_free_issuance [OF a1 ge])
    have "unat (TotalIssuance s2) + unat r < 2 ^ 128" using i1 i2 fits le by linarith
    moreover have "unat (reserved_balance s2 w) \<le> unat (TotalIssuance s2)"
      using accounts_bound [OF a2, of w w] k by linarith
    ultimately have a3: "accounts cfg (k + int (unat r) - int (unat (reserved_balance s2 w))) s3"
      unfolding s3_def using square_up_accounts [OF a2] by blast
    have r3: "reserved_balance s3 w = reserved_balance s2 w"
      by (simp add: s3_def square_up_def drop_positive_def drop_negative_def)
    have "accounts cfg k (snd (set_reserved_balance cfg w r s3))"
      by (rule set_reserved_keeps [OF a3]) (use k r3 in \<open>simp_all\<close>)
    then show ?thesis
      using Inr Some unfolding set_balance_def Let_def f_def [symmetric] r_def [symmetric]
      by (simp add: accounts_def s1_def s2_def s3_def)
  qed
qed

end
