(* ===== verification/Balances_Steps.thy ===== *)
theory Balances_Steps
  imports Balances_Accounting
begin

text \<open>
  The balances module as one transition system.  A state carries the negative imbalances other
  modules hold; every operation is a step, and the held imbalances are dropped, resolved into
  accounts, split and merged in any order.  The invariant of the reachable states covers what is held.
\<close>

section \<open>The issuance only falls in the setters\<close>

lemma saturating_sub_le: "saturating_sub i d \<le> i"
  by (simp add: word_le_nat_alt unat_saturating_sub)

lemma setters_issuance:
  "TotalIssuance (snd (set_reserved_balance cfg who b s)) \<le> TotalIssuance s"
  "TotalIssuance (snd (set_free_balance cfg who b s)) \<le> TotalIssuance s"
  "TotalIssuance (on_free_too_low cfg who s) \<le> TotalIssuance s"
  "TotalIssuance (on_reserved_too_low cfg who s) \<le> TotalIssuance s"
proof (induction cfg who b s and cfg who b s and cfg who s and cfg who s
    rule: set_reserved_balance_set_free_balance_on_free_too_low_on_reserved_too_low.induct)
  case (1 cfg who balance s)
  then show ?case by (auto simp: set_reserved_balance.simps Let_def)
next
  case (2 cfg who balance s)
  then show ?case by (auto simp: set_free_balance.simps Let_def)
next
  case (3 cfg who s)
  then show ?case
    by (auto simp: on_free_too_low.simps Let_def on_unbalanced_eq saturating_sub_le)
next
  case (4 cfg who s)
  then show ?case
    by (auto simp: on_reserved_too_low.simps Let_def on_unbalanced_eq saturating_sub_le)
qed


lemma on_unbalanced_issuance: "TotalIssuance (on_unbalanced n s) \<le> TotalIssuance s"
  by (cases n) (simp add: on_unbalanced_eq saturating_sub_le)

lemma drop_negative_issuance: "TotalIssuance (drop_negative n s) \<le> TotalIssuance s"
  by (simp add: drop_negative_def saturating_sub_le)

lemmas issuance_le = setters_issuance on_unbalanced_issuance drop_negative_issuance

lemma set_free_le: "TotalIssuance s \<le> i \<Longrightarrow> TotalIssuance (snd (set_free_balance cfg who b s)) \<le> i"
  and set_reserved_le: "TotalIssuance s \<le> i \<Longrightarrow> TotalIssuance (snd (set_reserved_balance cfg who b s)) \<le> i"
  and on_unbalanced_le: "TotalIssuance s \<le> i \<Longrightarrow> TotalIssuance (on_unbalanced n s) \<le> i"
  and drop_negative_le: "TotalIssuance s \<le> i \<Longrightarrow> TotalIssuance (drop_negative n s) \<le> i"
  by (rule order_trans [OF issuance_le(2)], assumption, rule order_trans [OF issuance_le(1)], assumption,
      rule order_trans [OF issuance_le(5)], assumption, rule order_trans [OF issuance_le(6)], assumption)

lemma new_account_issuance [simp]: "TotalIssuance (new_account who b s) = TotalIssuance s"
  by (simp add: new_account_def)

lemma transferred_issuance: "TotalIssuance (transferred cfg a d v fee s) \<le> TotalIssuance s"
  unfolding transferred_def Let_def
  by (intro on_unbalanced_le set_free_le) (simp add: issuance_le)

lemma currency_transfer_issuance: "TotalIssuance (snd (currency_transfer cfg a d v er s)) \<le> TotalIssuance s"
  by (rule currency_transfer_cases [of cfg a d v er s "fst (currency_transfer cfg a d v er s)"
        "snd (currency_transfer cfg a d v er s)"])
    (simp_all add: transferred_issuance)

lemma withdraw_issuance: "TotalIssuance (snd (withdraw cfg who v rs lv s)) \<le> TotalIssuance s"
  by (simp add: withdraw_def Let_def issuance_le split: option.split sum.split)

lemma slash_issuance: "TotalIssuance (snd (slash cfg who v s)) \<le> TotalIssuance s"
  by (simp add: slash_def Let_def issuance_le set_reserved_le)

lemma slash_reserved_issuance: "TotalIssuance (snd (slash_reserved cfg who v s)) \<le> TotalIssuance s"
  by (simp add: slash_reserved_def Let_def issuance_le)

lemma reserve_issuance: "TotalIssuance (snd (reserve cfg who v s)) \<le> TotalIssuance s"
  by (simp add: reserve_def Let_def issuance_le set_free_le split: sum.split)

lemma unreserve_issuance: "TotalIssuance (snd (unreserve cfg who v s)) \<le> TotalIssuance s"
  by (simp add: unreserve_def Let_def issuance_le set_reserved_le)

lemma repatriate_reserved_issuance: "TotalIssuance (snd (repatriate_reserved cfg a d v s)) \<le> TotalIssuance s"
  by (simp add: repatriate_reserved_def Let_def issuance_le set_reserved_le)

lemma deposit_creating_issuance: "TotalIssuance (snd (deposit_creating cfg who v s)) \<le> TotalIssuance s"
  by (simp add: deposit_creating_def make_free_balance_be_def Let_def issuance_le drop_negative_le
      set_free_le split: prod.split signed_imbalance.split)


lemma resolve_creating_issuance:
  assumes "accounts cfg k s" and "int (unat (neg_peek n)) \<le> k"
  shows "TotalIssuance (resolve_creating cfg who n s) \<le> TotalIssuance s"
proof -
  obtain p t where d: "deposit_creating cfg who (neg_peek n) s = (p, t)" by fastforce
  have "unat (pos_peek p) \<le> unat (neg_peek n)"
    using deposit_creating_accounts [OF assms d] by blast
  moreover have "TotalIssuance t \<le> TotalIssuance s"
    using deposit_creating_issuance [of cfg who "neg_peek n" s] by (simp add: d)
  ultimately show ?thesis
    by (simp add: resolve_creating_def d drop_offset_def neg_offset_def Let_def word_le_nat_alt [symmetric]
        drop_negative_le)
qed

lemma issue_issuance: "unat (TotalIssuance (snd (issue v s))) \<le> unat (TotalIssuance s) + unat v"
proof (cases "checked_add (TotalIssuance s) v")
  case None
  then have "2 ^ 128 \<le> unat (TotalIssuance s) + unat v" by (simp only: checked_add_None_iff len_u128)
  then show ?thesis using u128_lt [of "TotalIssuance (snd (issue v s))"] by linarith
next
  case (Some i)
  then have "unat i = unat (TotalIssuance s) + unat v" by (simp only: checked_add_Some_iff)
  then show ?thesis by (simp add: issue_def Some)
qed

lemma square_up_issuance: "unat (TotalIssuance (square_up new cur s)) \<le> unat (TotalIssuance s) + unat new"
proof -
  have "unat (saturating_add i (new - cur)) \<le> unat i + unat new" if "cur < new" for i
  proof -
    have "unat (saturating_add i (new - cur)) \<le> unat i + unat (new - cur)"
      unfolding unat_saturating_add by (rule min.cobounded1)
    then show ?thesis using that unat_sub [of cur new] by simp
  qed
  moreover have "unat (saturating_sub i d) \<le> unat i + unat new" for i d :: u128
    unfolding unat_saturating_sub by simp
  ultimately show ?thesis by (simp add: square_up_def drop_positive_def drop_negative_def)
qed

lemma set_balance_issuance:
  "unat (TotalIssuance (snd (set_balance cfg lkp origin who nf nr s)))
    \<le> unat (TotalIssuance s) + unat nf + unat nr"
proof (cases "set_balance cfg lkp origin who nf nr s = (Inl BadOrigin, s)
    \<or> set_balance cfg lkp origin who nf nr s = (Inl CannotLookup, s)")
  case False
  then obtain w where t: "snd (set_balance cfg lkp origin who nf nr s) =
      (let f = (if nf < ExistentialDeposit cfg then 0 else nf);
           r = (if nr < ExistentialDeposit cfg then 0 else nr);
           s1 = square_up f (free_balance s w) s;
           s2 = snd (set_free_balance cfg w f s1);
           s3 = square_up r (reserved_balance s2 w) s2
       in balances_deposit_event (BalanceSet w f r) (snd (set_reserved_balance cfg w r s3)))"
    unfolding set_balance_def
    by (cases origin rule: ensure_root.cases) (auto simp: Let_def split: option.splits)
  show ?thesis
  proof -
    define f where "f = (if nf < ExistentialDeposit cfg then 0 else nf)"
    define r where "r = (if nr < ExistentialDeposit cfg then 0 else nr)"
    define s1 where "s1 = square_up f (free_balance s w) s"
    define s2 where "s2 = snd (set_free_balance cfg w f s1)"
    define s3 where "s3 = square_up r (reserved_balance s2 w) s2"
    have "unat (TotalIssuance s1) \<le> unat (TotalIssuance s) + unat f"
      unfolding s1_def by (rule square_up_issuance)
    moreover have "unat (TotalIssuance s2) \<le> unat (TotalIssuance s1)"
      unfolding s2_def word_le_nat_alt [symmetric] by (rule issuance_le)
    moreover have "unat (TotalIssuance s3) \<le> unat (TotalIssuance s2) + unat r"
      unfolding s3_def by (rule square_up_issuance)
    moreover have "unat (TotalIssuance (snd (set_reserved_balance cfg w r s3))) \<le> unat (TotalIssuance s3)"
      unfolding word_le_nat_alt [symmetric] by (rule issuance_le)
    moreover have "unat f \<le> unat nf" "unat r \<le> unat nr" by (simp_all add: f_def r_def)
    ultimately show ?thesis
      unfolding t Let_def f_def [symmetric] r_def [symmetric] s1_def [symmetric] s2_def [symmetric]
        s3_def [symmetric] balances_deposit_event_fields by linarith
  qed
qed auto

section \<open>All operations as one transition system\<close>

definition balances_inv :: "balances_config \<Rightarrow> ('acc, 'hash, 'dig) balances_state \<Rightarrow> bool" where
  "balances_inv cfg s \<longleftrightarrow> (\<exists>k\<ge>0. accounts cfg k s) \<and> head_room cfg s"

lemma balances_invI: "accounts cfg k s \<Longrightarrow> 0 \<le> k \<Longrightarrow> head_room cfg s \<Longrightarrow> balances_inv cfg s"
  by (auto simp: balances_inv_def)

lemma balances_invE:
  assumes "balances_inv cfg s"
  obtains k where "accounts cfg k s" "0 \<le> k" "head_room cfg s"
  using assms by (auto simp: balances_inv_def)

lemma head_room_mono: "head_room cfg s \<Longrightarrow> TotalIssuance t \<le> TotalIssuance s \<Longrightarrow> head_room cfg t"
  unfolding head_room_def word_le_nat_alt by linarith

lemma inv_same_ledger:
  assumes "balances_inv cfg s" and "ledger t = ledger s"
  shows "balances_inv cfg t"
proof -
  have "TotalIssuance t = TotalIssuance s" using assms(2) by (simp add: ledger_def)
  then show ?thesis using assms(1) by (simp only: balances_inv_def head_room_def accounts_def assms(2))
qed

text \<open>
  A state and the negative imbalances that were handed out and not yet used up.  A positive imbalance
  is dropped right after the operation that made it; that of a burn may also be settled at once.  Four operations
  are bounded so that the issuance stays away from \<open>2\<^sup>128\<close>, because the code adds without a check
  there: issuing, the two deposits, and setting a balance.  Origins of other modules are one value,
  the calls here refuse them all.
\<close>

type_synonym ('acc, 'hash, 'dig) held_state = "('acc, 'hash, 'dig) balances_state \<times> negative_imbalance list"

inductive balances_step ::
  "balances_config \<Rightarrow> ('src \<Rightarrow> 'acc option) \<Rightarrow> ('acc, 'hash, 'dig) held_state
    \<Rightarrow> ('acc, 'hash, 'dig) held_state \<Rightarrow> bool" for cfg lkp where
  transfer: "balances_step cfg lkp (s, N) (snd (transfer_call cfg lkp (origin :: (_, unit) origin) dest v s), N)"
| keep_alive: "balances_step cfg lkp (s, N) (snd (transfer_keep_alive cfg lkp (origin :: (_, unit) origin) dest v s), N)"
| force: "balances_step cfg lkp (s, N) (snd (force_transfer cfg lkp (origin :: (_, unit) origin) source dest v s), N)"
| set: "unat (TotalIssuance s) + unat nf + unat nr + unat (ExistentialDeposit cfg) < 2 ^ 128
    \<Longrightarrow> balances_step cfg lkp (s, N) (snd (set_balance cfg lkp (origin :: (_, unit) origin) dest nf nr s), N)"
| withdraw: "withdraw cfg who v rs lv s = (r, t)
    \<Longrightarrow> balances_step cfg lkp (s, N) (t, case r of Inl _ \<Rightarrow> N | Inr n \<Rightarrow> n # N)"
| slash: "slash cfg who v s = ((n, r), t) \<Longrightarrow> balances_step cfg lkp (s, N) (t, n # N)"
| slash_reserved: "slash_reserved cfg who v s = ((n, r), t) \<Longrightarrow> balances_step cfg lkp (s, N) (t, n # N)"
| issue: "unat (TotalIssuance s) + unat v + unat (ExistentialDeposit cfg) < 2 ^ 128
    \<Longrightarrow> issue v s = (n, t) \<Longrightarrow> balances_step cfg lkp (s, N) (t, n # N)"
| burn: "burn v s = (p, t) \<Longrightarrow> balances_step cfg lkp (s, N) (drop_positive p t, N)"
| settle: "burn v s = (p, s1) \<Longrightarrow> settle cfg who p rs lv s1 = (r, t)
    \<Longrightarrow> balances_step cfg lkp (s, N) (case r of Inl p' \<Rightarrow> drop_positive p' t | Inr _ \<Rightarrow> t, N)"
| deposit: "unat (TotalIssuance s) + unat v + unat (ExistentialDeposit cfg) < 2 ^ 128
    \<Longrightarrow> deposit_into_existing cfg who v s = (r, t)
    \<Longrightarrow> balances_step cfg lkp (s, N) (case r of Inl _ \<Rightarrow> t | Inr p \<Rightarrow> drop_positive p t, N)"
| create: "unat (TotalIssuance s) + unat v + unat (ExistentialDeposit cfg) < 2 ^ 128
    \<Longrightarrow> deposit_creating cfg who v s = (p, t) \<Longrightarrow> balances_step cfg lkp (s, N) (drop_positive p t, N)"
| make: "unat (TotalIssuance s) + unat b + unat (ExistentialDeposit cfg) < 2 ^ 128
    \<Longrightarrow> make_free_balance_be cfg who b s = ((imb, oc), t)
    \<Longrightarrow> balances_step cfg lkp (s, N) (case imb of Positive p \<Rightarrow> (drop_positive p t, N) | Negative n \<Rightarrow> (t, n # N))"
| drop: "balances_step cfg lkp (s, xs @ n # ys) (drop_negative n s, xs @ ys)"
| unbalanced: "balances_step cfg lkp (s, xs @ n # ys) (on_unbalanced n s, xs @ ys)"
| resolve: "balances_step cfg lkp (s, xs @ n # ys) (resolve_creating cfg who n s, xs @ ys)"
| resolve_existing: "resolve_into_existing cfg who n s = (r, t)
    \<Longrightarrow> balances_step cfg lkp (s, xs @ n # ys) (t, case r of Inl n' \<Rightarrow> n' # xs @ ys | Inr _ \<Rightarrow> xs @ ys)"
| split: "neg_split n v = (n1, n2) \<Longrightarrow> balances_step cfg lkp (s, xs @ n # ys) (s, n1 # n2 # xs @ ys)"
| merge: "balances_step cfg lkp (s, xs @ n # ys @ m # zs) (s, neg_merge n m # xs @ ys @ zs)"
| reserve: "balances_step cfg lkp (s, N) (snd (reserve cfg who v s), N)"
| unreserve: "balances_step cfg lkp (s, N) (snd (unreserve cfg who v s), N)"
| repatriate: "balances_step cfg lkp (s, N) (snd (repatriate_reserved cfg who to v s), N)"
| lock: "balances_step cfg lkp (s, N) (set_lock ident who v unt rs s, N)"
| extend: "balances_step cfg lkp (s, N) (extend_lock ident who v unt rs s, N)"
| unlock: "balances_step cfg lkp (s, N) (remove_lock ident who s, N)"
| vest: "balances_step cfg lkp (s, N) (snd (add_vesting_schedule who v pb sb s), N)"
| unvest: "balances_step cfg lkp (s, N) (remove_vesting_schedule who s, N)"
| block: "balances_step cfg lkp (s, N) (s\<lparr>System := sys\<rparr>, N)"

definition held :: "negative_imbalance list \<Rightarrow> int" where
  "held N = sum_list (map (\<lambda>n. int (unat (neg_peek n))) N)"

definition held_inv :: "balances_config \<Rightarrow> ('acc, 'hash, 'dig) held_state \<Rightarrow> bool" where
  "held_inv cfg x \<longleftrightarrow> (\<exists>k. accounts cfg k (fst x) \<and> held (snd x) \<le> k) \<and> head_room cfg (fst x)"

lemma held_simps [simp]:
  "held [] = 0" "held (n # N) = int (unat (neg_peek n)) + held N" "held (xs @ ys) = held xs + held ys"
  by (simp_all add: held_def)

lemma held_nonneg: "0 \<le> held N"
  by (induction N) simp_all

lemma held_invI: "accounts cfg k s \<Longrightarrow> held N \<le> k \<Longrightarrow> head_room cfg s \<Longrightarrow> held_inv cfg (s, N)"
  by (auto simp: held_inv_def)

lemma held_invE:
  assumes "held_inv cfg (s, N)"
  obtains k where "accounts cfg k s" "held N \<le> k" "0 \<le> k" "head_room cfg s"
  using assms held_nonneg [of N] order_trans [of 0 "held N"] by (auto simp: held_inv_def)

lemma held_inv_inv: "held_inv cfg (s, N) \<Longrightarrow> balances_inv cfg s"
  by (erule held_invE) (rule balances_invI)

lemma held_step:
  assumes "accounts cfg k s" and "held N \<le> k" and "head_room cfg s"
    and "accounts cfg (k + d) t" and "TotalIssuance t \<le> TotalIssuance s" and "held M \<le> held N + d"
  shows "held_inv cfg (t, M)"
  by (rule held_invI [OF assms(4) _ head_room_mono [OF assms(3,5)]]) (use assms(2,6) in linarith)

lemma held_same_ledger:
  assumes "held_inv cfg (s, N)" and "ledger t = ledger s"
  shows "held_inv cfg (t, N)"
proof -
  have "TotalIssuance t = TotalIssuance s" using assms(2) by (simp add: ledger_def)
  then show ?thesis using assms(1) by (simp only: held_inv_def fst_conv snd_conv head_room_def accounts_def assms(2))
qed

subsection \<open>Calls, charges and reserves\<close>

lemma held_transfer:
  assumes "held_inv cfg (s, N)"
  shows "held_inv cfg (snd (currency_transfer cfg a d v er s), N)"
proof -
  obtain k where k: "accounts cfg k s" "held N \<le> k" "0 \<le> k" "head_room cfg s" using assms by (rule held_invE)
  show ?thesis
    by (rule held_invI [OF currency_transfer_accounts [OF k(1,3)] k(2) head_room_mono [OF k(4) currency_transfer_issuance]])
qed

lemma held_dispatch_transfer:
  assumes "held_inv cfg (s, N)"
  shows "held_inv cfg (snd (transfer_call cfg lkp origin dest v s), N)"
    and "held_inv cfg (snd (transfer_keep_alive cfg lkp origin dest v s), N)"
    and "held_inv cfg (snd (force_transfer cfg lkp origin source dest v s), N)"
  by (simp_all add: transfer_call_def transfer_keep_alive_def force_transfer_def held_transfer assms
      split: sum.split option.split)

lemma held_withdraw:
  assumes "held_inv cfg (s, N)" and w: "withdraw cfg who v rs lv s = (r, t)"
  shows "held_inv cfg (t, case r of Inl _ \<Rightarrow> N | Inr n \<Rightarrow> n # N)"
proof (cases r)
  case (Inl e)
  then have "t = s" using w by (auto simp: withdraw_def Let_def split: option.splits if_splits sum.splits)
  then show ?thesis using assms(1) Inl by simp
next
  case (Inr n)
  obtain k where k: "accounts cfg k s" "held N \<le> k" "0 \<le> k" "head_room cfg s" using assms(1) by (rule held_invE)
  have "accounts cfg (k + int (unat (neg_peek n))) t"
    using withdraw_accounts [OF k(1,3) w [unfolded Inr]] by (rule conjunct1)
  moreover have "TotalIssuance t \<le> TotalIssuance s" using withdraw_issuance [of cfg who v rs lv s] by (simp add: w)
  ultimately have "held_inv cfg (t, n # N)" by (rule held_step [OF k(1,2,4)]) simp
  then show ?thesis by (simp add: Inr)
qed

lemma held_slash:
  assumes "held_inv cfg (s, N)" and sl: "slash cfg who v s = ((n, r), t) \<or> slash_reserved cfg who v s = ((n, r), t)"
  shows "held_inv cfg (t, n # N)"
proof -
  obtain k where k: "accounts cfg k s" "held N \<le> k" "0 \<le> k" "head_room cfg s" using assms(1) by (rule held_invE)
  have "accounts cfg (k + int (unat (neg_peek n))) t"
    using sl slash_accounts [OF k(1,3)] slash_reserved_accounts [OF k(1,3)] by blast
  moreover have "TotalIssuance t \<le> TotalIssuance s"
    using sl slash_issuance [of cfg who v s] slash_reserved_issuance [of cfg who v s] by (metis snd_conv)
  ultimately show ?thesis by (rule held_step [OF k(1,2,4)]) simp
qed

lemma held_set_balance:
  assumes "held_inv cfg (s, N)"
    and fits: "unat (TotalIssuance s) + unat nf + unat nr + unat (ExistentialDeposit cfg) < 2 ^ 128"
  shows "held_inv cfg (snd (set_balance cfg lkp origin who nf nr s), N)"
proof -
  obtain k where k: "accounts cfg k s" "held N \<le> k" "0 \<le> k" using assms(1) by (rule held_invE)
  have "unat (TotalIssuance s) + unat nf + unat nr < 2 ^ 128" using fits by linarith
  note acc = set_balance_accounts [OF k(1,3) this]
  have "head_room cfg (snd (set_balance cfg lkp origin who nf nr s))"
    using set_balance_issuance [of cfg lkp origin who nf nr s] fits unfolding head_room_def by linarith
  then show ?thesis by (rule held_invI [OF acc k(2)])
qed

text \<open>Repatriating an account's reserve to itself makes the same changes as releasing it.\<close>

lemma repatriate_self:
  "snd (repatriate_reserved cfg who who v s) = (if total_balance s who = 0 then s else snd (unreserve cfg who v s))"
  by (simp add: repatriate_reserved_def unreserve_def Let_def)

lemma held_reserves:
  assumes "held_inv cfg (s, N)"
  shows "held_inv cfg (snd (reserve cfg who v s), N)" "held_inv cfg (snd (unreserve cfg who v s), N)"
    "held_inv cfg (snd (repatriate_reserved cfg who to v s), N)"
proof -
  obtain k where k: "accounts cfg k s" "held N \<le> k" "0 \<le> k" "head_room cfg s" using assms by (rule held_invE)
  have nn: "held N \<le> k + int m" for m using k(2) by linarith
  show un: "held_inv cfg (snd (unreserve cfg who v s), N)"
    by (rule held_invI [OF unreserve_accounts [OF k(1,3,4)] nn head_room_mono [OF k(4) unreserve_issuance]])
  show "held_inv cfg (snd (repatriate_reserved cfg who to v s), N)"
  proof (cases "who = to")
    case True
    then show ?thesis using un assms by (simp add: repatriate_self)
  next
    case False
    show ?thesis
      by (rule held_invI [OF repatriate_reserved_accounts [OF k(1,3,4) False] k(2)
            head_room_mono [OF k(4) repatriate_reserved_issuance]])
  qed
  show "held_inv cfg (snd (reserve cfg who v s), N)"
  proof (cases "reserve cfg who v s")
    case (Pair r t)
    show ?thesis
    proof (cases r)
      case (Inr u)
      then have "accounts cfg (k + int (reserve_loss cfg who v s)) t"
        using reserve_accounts [OF k(1,3,4), of who v t] Pair by simp
      then show ?thesis
        using held_invI [OF _ nn head_room_mono [OF k(4) reserve_issuance [of cfg who v]]] Pair by simp
    next
      case (Inl e)
      then have "t = s" using Pair by (auto simp: reserve_def Let_def split: if_splits sum.splits)
      then show ?thesis using assms Pair by simp
    qed
  qed
qed

subsection \<open>Held imbalances\<close>

lemma held_issue:
  assumes "held_inv cfg (s, N)" and i: "issue v s = (n, t)"
    and "unat (TotalIssuance s) + unat v + unat (ExistentialDeposit cfg) < 2 ^ 128"
  shows "held_inv cfg (t, n # N)"
proof -
  obtain k where k: "accounts cfg k s" "held N \<le> k" using assms(1) by (rule held_invE)
  have "unat (TotalIssuance t) \<le> unat (TotalIssuance s) + unat v"
    using issue_issuance [of v s] unfolding i snd_conv .
  then have "head_room cfg t" using assms(3) unfolding head_room_def by linarith
  moreover have "held (n # N) \<le> k + int (unat (neg_peek n))" using k(2) by simp
  ultimately show ?thesis using held_invI [OF issue_accounts [OF k(1) i]] by blast
qed

lemma held_drop:
  assumes "held_inv cfg (s, xs @ n # ys)"
  shows "held_inv cfg (drop_negative n s, xs @ ys)" "held_inv cfg (on_unbalanced n s, xs @ ys)"
    "held_inv cfg (resolve_creating cfg who n s, xs @ ys)"
proof -
  obtain k where k: "accounts cfg k s" "held (xs @ n # ys) \<le> k" "head_room cfg s" using assms by (rule held_invE)
  obtain w where w: "n = NegativeImbalance w" by (cases n)
  have le: "int (unat w) \<le> k" using k(2) held_nonneg [of xs] held_nonneg [of ys] by (simp add: w)
  then have ge: "0 \<le> k - int (unat w)" by linarith
  have rest: "held (xs @ ys) \<le> k - int (unat w)" using k(2) by (simp add: w)
  show "held_inv cfg (drop_negative n s, xs @ ys)"
    unfolding w by (rule held_invI [OF drop_negative_accounts [OF k(1) ge] rest head_room_mono [OF k(3) issuance_le(6)]])
  show "held_inv cfg (on_unbalanced n s, xs @ ys)"
    unfolding w by (rule held_invI [OF on_unbalanced_accounts [OF k(1) ge] rest head_room_mono [OF k(3) issuance_le(5)]])
  have le': "int (unat (neg_peek n)) \<le> k" using le by (simp add: w)
  show "held_inv cfg (resolve_creating cfg who n s, xs @ ys)"
    by (rule held_invI [OF resolve_creating_accounts [OF k(1) le'] _ head_room_mono [OF k(3) resolve_creating_issuance [OF k(1) le']]])
      (use rest in \<open>simp add: w\<close>)
qed

lemma held_resolve_existing:
  assumes "held_inv cfg (s, xs @ n # ys)" and "resolve_into_existing cfg who n s = (r, t)"
  shows "held_inv cfg (t, case r of Inl n' \<Rightarrow> n' # xs @ ys | Inr _ \<Rightarrow> xs @ ys)"
proof -
  obtain k where k: "accounts cfg k s" "held (xs @ n # ys) \<le> k" "head_room cfg s" using assms(1) by (rule held_invE)
  have le: "int (unat (neg_peek n)) \<le> k" using k(2) held_nonneg [of xs] held_nonneg [of ys] by simp
  obtain e t1 where d: "deposit_into_existing cfg who (neg_peek n) s = (e, t1)" by fastforce
  show ?thesis
  proof (cases e)
    case (Inl err)
    then have "t1 = s" using d by (auto simp: deposit_into_existing_def split: if_splits)
    then have "r = Inl n" "t = s" using assms(2) d Inl by (auto simp: resolve_into_existing_def)
    then show ?thesis using held_invI [OF k(1) _ k(3), of "n # xs @ ys"] k(2) by simp
  next
    case (Inr p)
    from deposit_into_existing_accounts [OF k(1) le d [unfolded Inr]]
    have a: "accounts cfg (k - int (unat (neg_peek n))) t1" and p: "pos_peek p = neg_peek n" by blast+
    have t: "r = Inr ()" "t = drop_negative (NegativeImbalance 0) t1"
      using assms(2) d Inr p by (auto simp: resolve_into_existing_def neg_offset_def drop_offset_def)
    have "accounts cfg (k - int (unat (neg_peek n)) - int (unat (0 :: u128))) t"
      unfolding t(2) by (rule drop_negative_accounts [OF a]) (use le in simp)
    then have "accounts cfg (k + - int (unat (neg_peek n))) t" by simp
    moreover have "TotalIssuance t1 \<le> TotalIssuance s"
      using d Inr by (auto simp: deposit_into_existing_def issuance_le split: if_splits)
    then have "TotalIssuance t \<le> TotalIssuance s" unfolding t(2) by (rule drop_negative_le)
    ultimately have "held_inv cfg (t, xs @ ys)" by (rule held_step [OF k]) simp
    then show ?thesis by (simp add: t(1))
  qed
qed

lemma held_split:
  assumes "held_inv cfg (s, xs @ n # ys)" and "neg_split n v = (n1, n2)"
  shows "held_inv cfg (s, n1 # n2 # xs @ ys)"
proof -
  have "unat (neg_peek n1) + unat (neg_peek n2) = unat (neg_peek n)"
    using assms(2) by (auto simp: neg_split_def Let_def unat_sub unat_min)
  then have "held (n1 # n2 # xs @ ys) = held (xs @ n # ys)" by (simp del: of_nat_unat flip: of_nat_add)
  then show ?thesis using assms(1) by (simp only: held_inv_def fst_conv snd_conv)
qed

lemma held_merge:
  assumes "held_inv cfg (s, xs @ n # ys @ m # zs)"
  shows "held_inv cfg (s, neg_merge n m # xs @ ys @ zs)"
proof -
  have "unat (neg_peek (neg_merge n m)) \<le> unat (neg_peek n) + unat (neg_peek m)"
    by (simp add: neg_merge_def unat_saturating_add)
  then have "held (neg_merge n m # xs @ ys @ zs) \<le> held (xs @ n # ys @ m # zs)"
    unfolding held_simps by linarith
  then show ?thesis using assms order_trans by (fastforce simp: held_inv_def)
qed

subsection \<open>Positive imbalances\<close>

text \<open>Setting a free balance with nothing said of the slack that is left.\<close>

lemma set_free_open:
  assumes "accounts cfg k s" and w: "b < ExistentialDeposit cfg \<Longrightarrow> unat (reserved_balance s who) + unat b < 2 ^ 128"
    and "b < ExistentialDeposit cfg \<Longrightarrow> \<not> ExistentialDeposit cfg \<le> reserved_balance s who \<Longrightarrow> unat b \<le> unat (TotalIssuance s)"
  shows "accounts cfg (k + int (unat (free_balance s who)) - int (unat b)) (snd (set_free_balance cfg who b s))"
proof -
  have led: "ledger (snd (set_free_balance cfg who b s)) = set_free_ledger (ExistentialDeposit cfg) who b (ledger s)"
    by (rule set_free_balance_ledger [OF w])
  have "books (k + int (unat (free_balance s who)) - int (unat b))
      (set_free_ledger (ExistentialDeposit cfg) who b (ledger s))"
    using assms unfolding ledger_def accounts_def by (intro set_free_ledger_books) (auto simp: not_le)
  moreover have "ed_law (ExistentialDeposit cfg) (set_free_ledger (ExistentialDeposit cfg) who b (ledger s))"
    using assms unfolding ledger_def accounts_def by (intro set_free_ledger_law) (auto simp: not_le)
  ultimately show ?thesis unfolding accounts_def led by blast
qed

lemma held_drop_positive:
  assumes "accounts cfg k s" and "held N \<le> k" and "accounts cfg (k - int (unat (pos_peek p))) t"
    and "TotalIssuance t \<le> TotalIssuance s" and "unat (pos_peek p) \<le> unat v"
    and fits: "unat (TotalIssuance s) + unat v + unat (ExistentialDeposit cfg) < 2 ^ 128"
  shows "held_inv cfg (drop_positive p t, N)"
proof -
  obtain w where w: "p = PositiveImbalance w" by (cases p)
  have t: "unat (TotalIssuance t) + unat w + unat (ExistentialDeposit cfg) < 2 ^ 128"
    using assms(4-6) unfolding w positive_imbalance.sel word_le_nat_alt by linarith
  have "unat (TotalIssuance t) + unat w < 2 ^ 128" using t by linarith
  from drop_positive_accounts [OF assms(3) this] have "accounts cfg k (drop_positive p t)"
    by (simp only: w positive_imbalance.sel diff_add_cancel)
  moreover have "unat (TotalIssuance (drop_positive p t)) \<le> unat (TotalIssuance t) + unat w"
    by (simp add: w drop_positive_def unat_saturating_add)
  then have "head_room cfg (drop_positive p t)" using t unfolding head_room_def by linarith
  ultimately show ?thesis using assms(2) by (intro held_invI)
qed

lemma make_free_open:
  assumes acc: "accounts cfg k s" and k: "0 \<le> k" and fits: "unat (TotalIssuance s) + unat b < 2 ^ 128"
    and m: "make_free_balance_be cfg who b s = ((imb, oc), t)"
  shows "case imb of Positive p \<Rightarrow> accounts cfg (k - int (unat (pos_peek p))) t \<and> unat (pos_peek p) \<le> unat b - unat (free_balance s who)
           | Negative n \<Rightarrow> accounts cfg (k + int (unat (neg_peek n))) t"
proof (cases "free_balance s who \<le> b")
  case False
  then have "0 \<le> k + int (unat (free_balance s who)) - int (unat b)"
    using k unfolding word_le_nat_alt by linarith
  moreover have "imb = Negative (NegativeImbalance (free_balance s who - b))"
    using m False by (auto simp: make_free_balance_be_def Let_def split: if_splits)
  ultimately show ?thesis using make_free_balance_be_accounts [OF acc _ k m] by simp
next
  case le: True
  show ?thesis
  proof (cases "b < ExistentialDeposit cfg \<and> free_balance s who = 0")
    case True
    then show ?thesis using m acc by (auto simp: make_free_balance_be_def Let_def)
  next
    case False
    have "free_balance s who = 0 \<or> ExistentialDeposit cfg \<le> free_balance s who"
      using acc by (auto simp: accounts_def ed_law_def ledger_def)
    then have high: "\<not> b < ExistentialDeposit cfg" using False le by auto
    let ?s = "if FreeBalance s who = None then new_account who b s else s"
    have t: "t = snd (set_free_balance cfg who b ?s)" "imb = Positive (PositiveImbalance (b - free_balance s who))"
      using m high le by (auto simp: make_free_balance_be_def Let_def split: if_splits)
    have led: "ledger ?s = ledger s" by simp
    have "accounts cfg k ?s" using acc unfolding accounts_def led .
    then have "accounts cfg (k + int (unat (free_balance ?s who)) - int (unat b)) t"
      unfolding t(1) by (rule set_free_open) (use high in blast)+
    moreover have "free_balance ?s who = free_balance s who" by simp
    moreover have "unat (b - free_balance s who) = unat b - unat (free_balance s who)" "unat (free_balance s who) \<le> unat b"
      using le by (simp_all add: unat_sub word_le_nat_alt)
    then have "k + int (unat (free_balance s who)) - int (unat b) = k - int (unat (b - free_balance s who))"
      by linarith
    ultimately show ?thesis
      using \<open>unat (b - free_balance s who) = unat b - unat (free_balance s who)\<close>
      by (simp only: t(2) signed_imbalance.case positive_imbalance.sel order_refl simp_thms)
  qed
qed

lemma make_free_issuance: "TotalIssuance (snd (make_free_balance_be cfg who b s)) \<le> TotalIssuance s"
  by (simp add: make_free_balance_be_def Let_def issuance_le set_free_le)

lemma drop_positive_zero: "drop_positive (PositiveImbalance 0) s = s"
  using u128_lt [of "TotalIssuance s"] by (simp add: drop_positive_def saturating_add_def)

lemma held_make:
  assumes "held_inv cfg (s, N)" and fits: "unat (TotalIssuance s) + unat b + unat (ExistentialDeposit cfg) < 2 ^ 128"
    and m: "make_free_balance_be cfg who b s = ((imb, oc), t)"
  shows "held_inv cfg (case imb of Positive p \<Rightarrow> (drop_positive p t, N) | Negative n \<Rightarrow> (t, n # N))"
proof -
  obtain k where k: "accounts cfg k s" "held N \<le> k" "0 \<le> k" "head_room cfg s" using assms(1) by (rule held_invE)
  have "unat (TotalIssuance s) + unat b < 2 ^ 128" using fits by linarith
  note slack = make_free_open [OF k(1,3) this m]
  have i: "TotalIssuance t \<le> TotalIssuance s" using make_free_issuance [of cfg who b s] by (simp add: m)
  show ?thesis
  proof (cases imb)
    case (Positive p)
    then have "accounts cfg (k - int (unat (pos_peek p))) t" "unat (pos_peek p) \<le> unat b" using slack by auto
    then have "held_inv cfg (drop_positive p t, N)" using held_drop_positive [OF k(1,2) _ i _ fits] by blast
    then show ?thesis by (simp add: Positive)
  next
    case (Negative n)
    then have "accounts cfg (k + int (unat (neg_peek n))) t" using slack by simp
    then have "held_inv cfg (t, n # N)" by (rule held_step [OF k(1,2,4) _ i]) simp
    then show ?thesis by (simp add: Negative)
  qed
qed

lemma held_create:
  assumes "held_inv cfg (s, N)" and fits: "unat (TotalIssuance s) + unat v + unat (ExistentialDeposit cfg) < 2 ^ 128"
    and d: "deposit_creating cfg who v s = (p, t)"
  shows "held_inv cfg (drop_positive p t, N)"
proof (cases "free_balance s who + v < ExistentialDeposit cfg \<and> free_balance s who = 0")
  case True
  then have "p = PositiveImbalance 0" "t = s" using d by (auto simp: deposit_creating_def make_free_balance_be_def Let_def)
  then show ?thesis using assms(1) by (simp add: drop_positive_zero)
next
  case False
  obtain k where k: "accounts cfg k s" "held N \<le> k" "0 \<le> k" using assms(1) by (rule held_invE)
  let ?b = "free_balance s who + v"
  have f: "unat (free_balance s who) \<le> unat (TotalIssuance s)" using accounts_bound [OF k(1), of who who] k(3) by linarith
  then have "unat (free_balance s who) + unat v < 2 ^ 128" using fits by linarith
  then have b: "unat ?b = unat (free_balance s who) + unat v" using unat_add_no_wrap [of "free_balance s who" v] by simp
  then have le: "free_balance s who \<le> ?b" by (simp add: word_le_nat_alt)
  have "free_balance s who = 0 \<or> ExistentialDeposit cfg \<le> free_balance s who"
    using k(1) by (auto simp: accounts_def ed_law_def ledger_def)
  then have high: "\<not> ?b < ExistentialDeposit cfg" using False le by auto
  let ?s = "if FreeBalance s who = None then new_account who ?b s else s"
  have p: "p = PositiveImbalance v" "t = snd (set_free_balance cfg who ?b ?s)"
    using d high le by (auto simp: deposit_creating_def make_free_balance_be_def Let_def split: if_splits)
  have led: "ledger ?s = ledger s" by simp
  have "accounts cfg k ?s" using k(1) unfolding accounts_def led .
  then have "accounts cfg (k + int (unat (free_balance ?s who)) - int (unat ?b)) t"
    unfolding p(2) by (rule set_free_open) (use high in blast)+
  moreover have "free_balance ?s who = free_balance s who" by simp
  moreover have "k + int (unat (free_balance s who)) - int (unat ?b) = k - int (unat v)" using b by linarith
  ultimately have "accounts cfg (k - int (unat (pos_peek p))) t" by (simp only: p(1) positive_imbalance.sel)
  moreover have "TotalIssuance t \<le> TotalIssuance s" unfolding p(2) by (rule set_free_le) simp
  ultimately show ?thesis by (rule held_drop_positive [OF k(1,2) _ _ _ fits]) (simp add: p(1))
qed

lemma held_deposit:
  assumes "held_inv cfg (s, N)" and fits: "unat (TotalIssuance s) + unat v + unat (ExistentialDeposit cfg) < 2 ^ 128"
    and d: "deposit_into_existing cfg who v s = (r, t)"
  shows "held_inv cfg (case r of Inl _ \<Rightarrow> t | Inr p \<Rightarrow> drop_positive p t, N)"
proof (cases "total_balance s who = 0")
  case True
  then show ?thesis using d assms(1) by (auto simp: deposit_into_existing_def)
next
  case False
  obtain k where k: "accounts cfg k s" "held N \<le> k" "0 \<le> k" using assms(1) by (rule held_invE)
  let ?b = "free_balance s who + v"
  have r: "r = Inr (PositiveImbalance v)" and t: "t = snd (set_free_balance cfg who ?b s)"
    using d False by (auto simp: deposit_into_existing_def)
  have bound: "unat (free_balance s who) + unat (reserved_balance s who) \<le> unat (TotalIssuance s)"
    using accounts_bound [OF k(1), of who who] k(3) by linarith
  then have "unat (free_balance s who) + unat v < 2 ^ 128" using fits by linarith
  then have b: "unat ?b = unat (free_balance s who) + unat v" using unat_add_no_wrap [of "free_balance s who" v] by simp
  then have le: "free_balance s who \<le> ?b" by (simp add: word_le_nat_alt)
  have law: "free_balance s who = 0 \<or> ExistentialDeposit cfg \<le> free_balance s who"
    "reserved_balance s who = 0 \<or> ExistentialDeposit cfg \<le> reserved_balance s who"
    using k(1) by (auto simp: accounts_def ed_law_def ledger_def)
  have "accounts cfg (k + int (unat (free_balance s who)) - int (unat ?b)) t"
    unfolding t
  proof (rule set_free_open [OF k(1)])
    show "unat (reserved_balance s who) + unat ?b < 2 ^ 128" using b bound fits by linarith
    show "unat ?b \<le> unat (TotalIssuance s)" if "?b < ExistentialDeposit cfg" "\<not> ExistentialDeposit cfg \<le> reserved_balance s who"
      using law that le False by (auto simp: total_balance_def)
  qed
  moreover have "k + int (unat (free_balance s who)) - int (unat ?b) = k - int (unat v)" using b by linarith
  ultimately have "accounts cfg (k - int (unat (pos_peek (PositiveImbalance v)))) t" by (simp only: positive_imbalance.sel)
  moreover have "TotalIssuance t \<le> TotalIssuance s" unfolding t by (rule issuance_le)
  ultimately have "held_inv cfg (drop_positive (PositiveImbalance v) t, N)"
    by (rule held_drop_positive [OF k(1,2) _ _ _ fits]) simp
  then show ?thesis by (simp add: r)
qed

lemma burn_accounts:
  assumes "accounts cfg k s" and b: "burn v s = (p, t)"
  shows "accounts cfg (k - int (unat (pos_peek p))) t \<and> t = s\<lparr>TotalIssuance := TotalIssuance t\<rparr>
    \<and> unat (TotalIssuance t) + unat (pos_peek p) = unat (TotalIssuance s)"
proof -
  obtain i where t: "t = s\<lparr>TotalIssuance := i\<rparr>" and i: "unat i + unat (pos_peek p) = unat (TotalIssuance s)"
    using b by (auto simp: burn_def checked_sub_Some_iff split: option.splits)
  have "int (unat i) = int (unat (TotalIssuance s)) - int (unat (pos_peek p))" using i by linarith
  then have "books (k - int (unat (pos_peek p))) (free_balance s, reserved_balance s, i)"
    using assms(1) unfolding accounts_def ledger_def by (elim conjE) (rule books_update_issuance, assumption, linarith)
  then show ?thesis using assms(1) i by (simp add: accounts_def ledger_def t ed_law_def)
qed

lemma held_burn:
  assumes "held_inv cfg (s, N)" and "burn v s = (p, t)"
  shows "held_inv cfg (drop_positive p t, N)"
proof -
  obtain k where k: "accounts cfg k s" "held N \<le> k" "0 \<le> k" "head_room cfg s" using assms(1) by (rule held_invE)
  from burn_accounts [OF k(1) assms(2)] have a: "accounts cfg (k - int (unat (pos_peek p))) t"
    and i: "unat (TotalIssuance t) + unat (pos_peek p) = unat (TotalIssuance s)" by blast+
  obtain w where w: "p = PositiveImbalance w" by (cases p)
  have "unat (TotalIssuance t) + unat w < 2 ^ 128" using i u128_lt [of "TotalIssuance s"] by (simp add: w)
  from drop_positive_accounts [OF a this] have "accounts cfg k (drop_positive p t)" by (simp add: w)
  moreover have "TotalIssuance (drop_positive p t) \<le> TotalIssuance s"
    using i by (simp add: word_le_nat_alt w drop_positive_def unat_saturating_add)
  ultimately show ?thesis using held_invI [OF _ k(2) head_room_mono [OF k(4)]] by blast
qed

lemma held_settle:
  assumes "held_inv cfg (s, N)" and b: "burn v s = (p, s1)" and st: "settle cfg who p rs lv s1 = (r, t)"
  shows "held_inv cfg (case r of Inl p' \<Rightarrow> drop_positive p' t | Inr _ \<Rightarrow> t, N)"
proof -
  obtain k where k: "accounts cfg k s" "held N \<le> k" "0 \<le> k" "head_room cfg s" using assms(1) by (rule held_invE)
  from burn_accounts [OF k(1) b] have a: "accounts cfg (k - int (unat (pos_peek p))) s1"
    and i: "unat (TotalIssuance s1) + unat (pos_peek p) = unat (TotalIssuance s)" by blast+
  obtain e t1 where w: "withdraw cfg who (pos_peek p) rs lv s1 = (e, t1)" by fastforce
  show ?thesis
  proof (cases e)
    case (Inl err)
    then have "t1 = s1" using w by (auto simp: withdraw_def Let_def split: option.splits if_splits sum.splits)
    then have "r = Inl p" "t = s1" using st w Inl by (auto simp: settle_def)
    then show ?thesis using held_burn [OF assms(1) b] by simp
  next
    case (Inr n)
    let ?f = "free_balance s1 who"
    have n: "n = NegativeImbalance (pos_peek p)" "t1 = snd (set_free_balance cfg who (?f - pos_peek p) s1)" "pos_peek p \<le> ?f"
      using w Inr by (auto simp: withdraw_def Let_def checked_sub_def split: option.splits if_splits sum.splits)
    then have "unat (?f - pos_peek p) = unat ?f - unat (pos_peek p)" "unat (pos_peek p) \<le> unat ?f"
      by (simp_all add: unat_sub word_le_nat_alt)
    then have "accounts cfg k t1"
      unfolding n(2) by (intro set_free_keeps [OF a]) (use k(3) in linarith)+
    moreover have t: "r = Inr ()" "t = t1"
      using st w Inr n(1) by (auto simp: settle_def pos_offset_def drop_positive_zero)
    ultimately have acc: "accounts cfg k t" by simp
    have "TotalIssuance t1 \<le> TotalIssuance s1" unfolding n(2) by (rule issuance_le)
    then have "TotalIssuance t \<le> TotalIssuance s" using i unfolding t(2) word_le_nat_alt by simp
    then have "held_inv cfg (t, N)" by (rule held_invI [OF acc k(2) head_room_mono [OF k(4)]])
    then show ?thesis by (simp add: t(1))
  qed
qed

lemma balances_step_inv:
  assumes "balances_step cfg lkp x y" and "held_inv cfg x"
  shows "held_inv cfg y"
  using assms
proof cases
  case (block s N sys)
  have "ledger (s\<lparr>System := sys\<rparr>) = ledger s" by (simp add: ledger_def fun_eq_iff free_balance_def reserved_balance_def)
  then show ?thesis using held_same_ledger assms(2) unfolding block by blast
qed (use assms(2) in \<open>simp_all only: held_dispatch_transfer held_withdraw held_set_balance held_reserves held_issue
      held_drop held_resolve_existing held_split held_merge held_make held_create held_deposit held_burn held_settle\<close>,
   (blast intro: held_slash)+, (rule held_same_ledger, assumption, simp add: set_lock_def extend_lock_def remove_lock_def
       add_vesting_schedule_def remove_vesting_schedule_def Let_def)+)

section \<open>Genesis\<close>

definition genesis_fits :: "balances_config \<Rightarrow> ('acc \<times> u128) list \<Rightarrow> bool" where
  "genesis_fits cfg bals \<longleftrightarrow>
     distinct (map fst bals) \<and> sum_list (map (unat \<circ> snd) bals) + unat (ExistentialDeposit cfg) < 2 ^ 128"

lemma genesis_issuance:
  "sum_list (map (unat \<circ> snd) bals) < 2 ^ 128 \<Longrightarrow>
    unat (foldl (\<lambda>acc b. acc + snd b) (0 :: u128) bals) = sum_list (map (unat \<circ> snd) bals)"
proof (induction bals rule: rev_induct)
  case (snoc b bals)
  then have "unat (foldl (\<lambda>acc b. acc + snd b) 0 bals) + unat (snd b) < 2 ^ 128" by simp
  then show ?case using snoc by (simp add: unat_add_no_wrap)
qed simp

lemma genesis_dom: "foldl (\<lambda>m kv. m(fst kv \<mapsto> snd kv)) Map.empty bals a \<noteq> None \<longleftrightarrow> a \<in> fst ` set bals"
  by (induction bals rule: rev_induct) auto

lemma genesis_funds:
  fixes bals :: "('acc \<times> u128) list"
  assumes "distinct (map fst bals)"
  defines "f \<equiv> \<lambda>bals a. case foldl (\<lambda>m kv. m(fst kv \<mapsto> snd kv)) Map.empty bals a of None \<Rightarrow> 0 | Some (b :: u128) \<Rightarrow> b"
  shows "finite {a. unat (f bals a) \<noteq> 0} \<and> supp_sum (\<lambda>a. unat (f bals a)) = sum_list (map (unat \<circ> snd) bals)"
  using assms(1)
proof (induction bals rule: rev_induct)
  case Nil
  then show ?case by (simp add: f_def)
next
  case (snoc b bals)
  have fresh: "f bals (fst b) = 0"
    using genesis_dom [of bals "fst b"] snoc.prems by (auto simp: f_def image_iff split: option.split)
  have "f (bals @ [b]) = (f bals)(fst b := snd b)" by (auto simp: f_def fun_eq_iff)
  then have upd: "(\<lambda>a. unat (f (bals @ [b]) a)) = (\<lambda>a. unat (f bals a))(fst b := unat (snd b))" by auto
  have IH: "finite {a. unat (f bals a) \<noteq> 0}" "supp_sum (\<lambda>a. unat (f bals a)) = sum_list (map (unat \<circ> snd) bals)"
    using snoc.IH snoc.prems by (simp_all only: map_append distinct_append)
  have "finite {a. ((\<lambda>a. unat (f bals a))(fst b := unat (snd b))) a \<noteq> 0}" by (rule finite_supp_update [OF IH(1)])
  moreover have "supp_sum ((\<lambda>a. unat (f bals a))(fst b := unat (snd b))) = sum_list (map (unat \<circ> snd) bals) + unat (snd b)"
    using supp_sum_update [OF IH(1), of "fst b" "unat (snd b)"] IH(2) fresh by simp
  ultimately show ?case unfolding upd [symmetric] by (simp add: comp_def)
qed

lemma genesis_ge:
  fixes ed :: "'v::order"
  shows "list_all (\<lambda>b. ed \<le> snd b) bals \<Longrightarrow> foldl (\<lambda>m kv. m(fst kv \<mapsto> snd kv)) Map.empty bals a = Some b \<Longrightarrow> ed \<le> b"
  by (induction bals arbitrary: b rule: rev_induct) (auto split: if_splits)

lemma genesis_inv:
  fixes bals :: "('acc \<times> u128) list"
  assumes g: "balances_genesis cfg bals vest sys = Some s" and fits: "genesis_fits cfg bals"
  shows "accounts cfg 0 s \<and> balances_inv cfg s"
proof -
  let ?f = "\<lambda>a. case foldl (\<lambda>m kv. m(fst kv \<mapsto> snd kv)) Map.empty bals a of None \<Rightarrow> 0 | Some (b :: u128) \<Rightarrow> b"
  let ?n = "sum_list (map (unat \<circ> snd) bals)"
  have ed: "list_all (\<lambda>b. ExistentialDeposit cfg \<le> snd b) bals"
    and TI: "TotalIssuance s = foldl (\<lambda>acc b. acc + snd b) 0 bals"
    and lf: "free_balance s = ?f" "reserved_balance s = (\<lambda>_. 0)"
    using g by (auto simp: balances_genesis_def free_balance_def reserved_balance_def fun_eq_iff split: if_splits)
  have small: "?n < 2 ^ 128" using fits unfolding genesis_fits_def by linarith
  have i: "unat (TotalIssuance s) = ?n" unfolding TI by (rule genesis_issuance [OF small])
  have fs: "finite {a. unat (?f a) \<noteq> 0}" "supp_sum (\<lambda>a. unat (?f a)) = ?n"
    using genesis_funds [of bals] fits unfolding genesis_fits_def by blast+
  have "books 0 (ledger s)" unfolding books_def ledger_def funds_def lf using fs i by (simp del: of_nat_unat)
  moreover have "?f a = 0 \<or> ExistentialDeposit cfg \<le> ?f a" for a
    using genesis_ge [OF ed, of a] by (cases "foldl (\<lambda>m kv. m(fst kv \<mapsto> snd kv)) Map.empty bals a") simp_all
  then have "ed_law (ExistentialDeposit cfg) (ledger s)"
    unfolding ed_law_def ledger_def lf by simp
  ultimately have acc: "accounts cfg 0 s" by (simp add: accounts_def)
  moreover have "head_room cfg s" using fits unfolding head_room_def i genesis_fits_def by (rule conjunct2)
  ultimately show ?thesis using balances_invI [OF acc order_refl] by (intro conjI)
qed

interpretation ledger_states: guarded_system
  "\<lambda>x. \<exists>bals vest sys s. x = (s, []) \<and> genesis_fits cfg bals \<and> balances_genesis cfg bals vest sys = Some s"
  "balances_step cfg lkp" "held_inv cfg"
proof
  fix x y :: "('acc, 'hash, 'dig) held_state" and cfg lkp
  assume "\<exists>bals vest sys s. x = (s, []) \<and> genesis_fits cfg bals \<and> balances_genesis cfg bals vest sys = Some s"
  then obtain bals vest sys s where x: "x = (s, [])" "genesis_fits cfg bals" "balances_genesis cfg bals vest sys = Some s"
    by blast
  then have "accounts cfg 0 s" "balances_inv cfg s" using genesis_inv by blast+
  then show "held_inv cfg x" unfolding x(1) by (intro held_invI [of cfg 0]) (simp_all add: balances_inv_def)
qed (rule balances_step_inv)

lemma inv_solvent:
  assumes "balances_inv cfg t"
  shows "supp_sum (\<lambda>a. unat (free_balance t a)) + supp_sum (\<lambda>a. unat (reserved_balance t a)) \<le> unat (TotalIssuance t)"
    and "free_balance t a = 0 \<or> ExistentialDeposit cfg \<le> free_balance t a"
    and "reserved_balance t a = 0 \<or> ExistentialDeposit cfg \<le> reserved_balance t a"
    and "unat (total_balance t a) = unat (free_balance t a) + unat (reserved_balance t a)"
proof -
  obtain k where k: "accounts cfg k t" "0 \<le> k" using assms by (rule balances_invE)
  have "int (unat (TotalIssuance t)) = int (funds (ledger t)) + k"
    using k(1) by (simp add: accounts_def books_def ledger_def)
  then show "supp_sum (\<lambda>a. unat (free_balance t a)) + supp_sum (\<lambda>a. unat (reserved_balance t a)) \<le> unat (TotalIssuance t)"
    using k(2) unfolding funds_def ledger_def prod.case by linarith
  show "free_balance t a = 0 \<or> ExistentialDeposit cfg \<le> free_balance t a"
    "reserved_balance t a = 0 \<or> ExistentialDeposit cfg \<le> reserved_balance t a"
    using k(1) by (auto simp: accounts_def ed_law_def ledger_def)
  have "unat (free_balance t a) + unat (reserved_balance t a) < 2 ^ 128"
    using accounts_bound [OF k(1), of a a] k(2) u128_lt [of "TotalIssuance t"] by linarith
  then show "unat (total_balance t a) = unat (free_balance t a) + unat (reserved_balance t a)"
    unfolding total_balance_def by (simp add: unat_add_no_wrap)
qed

text \<open>
  C1 (balances_reachable_solvent): start from a genesis without duplicate accounts.  Follow it by any
  sequence of the module's operations, with the negative imbalances they return held for any time and
  then dropped, resolved into accounts, split or merged; positive imbalances are dropped at once or,
  after a burn, settled against an account, and issuing, depositing and setting a balance stay so small that the issuance does not
  come within one existential deposit of \<open>2\<^sup>128\<close>.  Then the balances of all accounts together with
  all imbalances still held never exceed the total issuance, every balance is zero or at least the
  existential deposit, and the total of an account does not overflow.
\<close>

theorem balances_reachable_solvent:
  assumes "balances_genesis cfg bals vest sys = Some s" and "genesis_fits cfg bals"
    and "(balances_step cfg lkp)\<^sup>*\<^sup>* (s, []) (t, N)"
  shows "supp_sum (\<lambda>a. unat (free_balance t a)) + supp_sum (\<lambda>a. unat (reserved_balance t a))
           + sum_list (map (\<lambda>n. unat (neg_peek n)) N) \<le> unat (TotalIssuance t)
    \<and> (\<forall>a. (free_balance t a = 0 \<or> ExistentialDeposit cfg \<le> free_balance t a)
         \<and> (reserved_balance t a = 0 \<or> ExistentialDeposit cfg \<le> reserved_balance t a)
         \<and> unat (total_balance t a) = unat (free_balance t a) + unat (reserved_balance t a))"
proof -
  have inv: "held_inv cfg (t, N)" by (rule ledger_states.inv_reachable [OF _ assms(3)]) (use assms in blast)
  then obtain k where k: "accounts cfg k t" "held N \<le> k" by (rule held_invE)
  have "int (unat (TotalIssuance t)) = int (funds (ledger t)) + k"
    using k(1) by (simp add: accounts_def books_def ledger_def)
  moreover have "held N = int (sum_list (map (\<lambda>n. unat (neg_peek n)) N))"
    by (induction N) (simp_all del: of_nat_unat)
  ultimately have "supp_sum (\<lambda>a. unat (free_balance t a)) + supp_sum (\<lambda>a. unat (reserved_balance t a))
           + sum_list (map (\<lambda>n. unat (neg_peek n)) N) \<le> unat (TotalIssuance t)"
    using k(2) unfolding funds_def ledger_def prod.case by linarith
  then show ?thesis using inv_solvent(2-4) [OF held_inv_inv [OF inv]] by blast
qed

section \<open>A genesis state\<close>

definition bal_system :: "(nat, nat, unit, nat balances_event) system_state" where
  "bal_system = \<lparr>AccountNonce = Map.empty, ExtrinsicCount = None, AllExtrinsicsWeight = None,
     AllExtrinsicsLen = None, BlockHash = [0 \<mapsto> 69], ExtrinsicData = Map.empty, Number = 1,
     ParentHash = 0, ExtrinsicsRoot = 0, Digest = [], Events = [], EventCount = 0,
     EventTopics = Map.empty, ExtrinsicIndex = None\<rparr>"

definition bal_cfg :: balances_config where
  "bal_cfg = \<lparr>ExistentialDeposit = 10, TransferFee = 1, CreationFee = 2\<rparr>"

definition bal0 :: "(nat, nat, unit) balances_state" where
  "bal0 = \<lparr>TotalIssuance = 150, Vesting = Map.empty, FreeBalance = [0 \<mapsto> 100, 1 \<mapsto> 50],
     ReservedBalance = Map.empty, Locks = Map.empty, Hooks = [], System = bal_system\<rparr>"

lemma bal0_genesis: "balances_genesis bal_cfg [(0, 100), (1, 50)] [] bal_system = Some bal0"
  by (simp add: balances_genesis_def bal_cfg_def bal0_def map_filter_def)

lemma bal0_fits: "genesis_fits bal_cfg [(0 :: nat, 100), (1, 50)]"
  by (simp add: genesis_fits_def bal_cfg_def)

lemma bal0_inv: "balances_inv bal_cfg bal0" and bal0_accounts: "accounts bal_cfg 0 bal0"
  using genesis_inv [OF bal0_genesis bal0_fits] by blast+

theorem balances_reachable_solvent_witness:
  "\<exists>n t. slash bal_cfg 0 30 bal0 = ((n, 0), t) \<and>
     supp_sum (\<lambda>a. unat (free_balance t a)) + supp_sum (\<lambda>a. unat (reserved_balance t a)) + 30 \<le> unat (TotalIssuance t)"
proof -
  obtain n r t where sl: "slash bal_cfg 0 30 bal0 = ((n, r), t)" by (metis prod.collapse)
  have f: "free_balance bal0 0 = 100" by (simp add: bal0_def free_balance_def)
  have n: "n = NegativeImbalance 30" "r = 0" using sl by (simp_all add: slash_def Let_def f min_def)
  have "(balances_step bal_cfg Some)\<^sup>*\<^sup>* (bal0, []) (t, [n])"
    by (rule r_into_rtranclp) (rule balances_step.slash [OF sl])
  from balances_reachable_solvent [OF bal0_genesis bal0_fits this] show ?thesis using sl by (simp add: n)
qed

end
