(* ===== verification/Balances_Properties.thy ===== *)
theory Balances_Properties
  imports Balances_Steps
begin

text \<open>
  The properties of the single operations of the balances module: transfers are exact, the calls keep
  the books, reservations lose dust, locks restrain and stay in place, vesting falls linearly.
\<close>

section \<open>Single operations\<close>

lemma set_free_ledger_at:
  assumes "set_free_ledger ed a b (f, r, i) = (f', r', i')"
  shows "ed \<le> b \<Longrightarrow> f' a = b \<and> r' a = r a \<and> i' = i"
    and "\<not> ed \<le> b \<Longrightarrow> ed \<le> r a \<Longrightarrow> f' a = 0 \<and> r' a = r a + b \<and> i' = i"
    and "\<not> ed \<le> b \<Longrightarrow> \<not> ed \<le> r a \<Longrightarrow> f' a = 0 \<and> r' a = r a \<and> i' = saturating_sub i b"
    and "c \<noteq> a \<Longrightarrow> f' c = f c \<and> r' c = r c"
  using assms by (auto simp: set_free_ledger_def split: if_splits)

text \<open>
  C21 (transfer_exact): a successful transfer between two accounts adds exactly the value to the
  recipient; the sender keeps the rest after value and fee if that reaches the existential
  deposit, else the rest joins a live reserve or is burnt; all other balances stay, and the issuance
  falls by the fee and what was burnt.  A failed transfer changes nothing.
\<close>

theorem transfer_exact:
  assumes "balances_inv cfg s" and "a \<noteq> d" and "currency_transfer cfg a d v er s = (res, t)"
  defines "fee \<equiv> transfer_fee cfg d s"
  defines "rest \<equiv> free_balance s a - (v + fee)"
  shows "(res \<noteq> Inr () \<longrightarrow> t = s) \<and>
    (res = Inr () \<longrightarrow>
      unat (free_balance s a) = unat v + unat fee + unat rest
      \<and> unat (free_balance t d) = unat (free_balance s d) + unat v \<and> reserved_balance t d = reserved_balance s d
      \<and> (\<forall>c. c \<noteq> a \<longrightarrow> c \<noteq> d \<longrightarrow> free_balance t c = free_balance s c \<and> reserved_balance t c = reserved_balance s c)
      \<and> (if ExistentialDeposit cfg \<le> rest
         then free_balance t a = rest \<and> reserved_balance t a = reserved_balance s a
              \<and> TotalIssuance t = saturating_sub (TotalIssuance s) fee
         else if ExistentialDeposit cfg \<le> reserved_balance s a
         then free_balance t a = 0 \<and> reserved_balance t a = reserved_balance s a + rest
              \<and> TotalIssuance t = saturating_sub (TotalIssuance s) fee
         else free_balance t a = 0 \<and> reserved_balance t a = reserved_balance s a
              \<and> TotalIssuance t = saturating_sub (saturating_sub (TotalIssuance s) rest) fee))"
  using assms(3)
proof (cases rule: currency_transfer_cases)
  case moved
  obtain k where k: "accounts cfg k s" "0 \<le> k" using assms(1) by (rule balances_invE)
  obtain f r i where sf: "set_free_ledger (ExistentialDeposit cfg) a rest (ledger s) = (f, r, i)"
    by (metis prod_cases3)
  have L: "ledger t = (f(d := free_balance s d + v), r, saturating_sub i fee)"
    using transferred_ledger [OF k assms(2) moved(4-6)]
    unfolding moved(3) fee_def [symmetric] rest_def [symmetric] sf by simp
  note at = set_free_ledger_at [OF sf [unfolded ledger_def]]
  have le: "unat v + unat fee \<le> unat (free_balance s a)" using moved(4) unfolding fee_def .
  then have "unat v + unat fee < 2 ^ 128" using u128_lt [of "free_balance s a"] by linarith
  then have vf: "unat (v + fee) = unat v + unat fee" by (simp add: unat_add_no_wrap)
  then have "v + fee \<le> free_balance s a" using le by (simp add: word_le_nat_alt)
  then have "unat rest = unat (free_balance s a) - unat (v + fee)" unfolding rest_def by (rule unat_sub_no_wrap)
  then have A: "unat (free_balance s a) = unat v + unat fee + unat rest" using vf le by linarith
  have B: "unat (free_balance s d + v) = unat (free_balance s d) + unat v"
    using moved(5) by (simp add: unat_add_no_wrap)
  show ?thesis using moved(1) A B L at assms(2) unfolding ledger_def by (auto simp: fun_eq_iff)
qed (use assms(2) in simp_all)

definition squared :: "('acc, 'hash, 'dig) balances_state \<Rightarrow> bool" where
  "squared s \<longleftrightarrow> finite {a. free_balance s a \<noteq> 0} \<and> finite {a. reserved_balance s a \<noteq> 0}
     \<and> unat (TotalIssuance s) = supp_sum (\<lambda>a. unat (free_balance s a)) + supp_sum (\<lambda>a. unat (reserved_balance s a))"

definition deposits_met :: "balances_config \<Rightarrow> ('acc, 'hash, 'dig) balances_state \<Rightarrow> bool" where
  "deposits_met cfg s \<longleftrightarrow> (\<forall>a. (free_balance s a = 0 \<or> ExistentialDeposit cfg \<le> free_balance s a)
     \<and> (reserved_balance s a = 0 \<or> ExistentialDeposit cfg \<le> reserved_balance s a))"

lemma squared_accounts: "squared s \<and> deposits_met cfg s \<longleftrightarrow> accounts cfg 0 s"
proof -
  have "(unat i = m + n) = (int (unat i) = int (m + n) + 0)" for i :: u128 and m n by linarith
  then show ?thesis
    unfolding squared_def deposits_met_def accounts_def books_def ed_law_def ledger_def funds_def
    by (simp only: prod.case unat_eq_zero conj_assoc)
qed

lemmas squaredI = squared_accounts [THEN iffD2, THEN conjunct1]

text \<open>What a call by root that only raises a free balance leaves, when the issuance saturates.\<close>

lemma set_balance_saturated:
  assumes acc: "accounts cfg 0 s" and ed: "ExistentialDeposit cfg \<le> v" "0 < ExistentialDeposit cfg"
    and over: "2 ^ 128 + unat (free_balance s a) \<le> unat (TotalIssuance s) + unat v"
    and t: "t = snd (set_balance cfg lkp (system Root) dest v (reserved_balance s a) s)" and lk: "lkp dest = Some a"
  shows "ledger t = ((free_balance s)(a := v), reserved_balance s, - 1)"
proof -
  let ?f = "free_balance s a" let ?r = "reserved_balance s a"
  have fv: "?f < v" using over u128_lt [of "TotalIssuance s"] unfolding word_less_nat_alt by linarith
  then have "unat (v - ?f) = unat v - unat ?f" by (simp add: unat_sub order_less_imp_le)
  then have no: "\<not> unat (TotalIssuance s) + unat (v - ?f) < 2 ^ 128"
    using over fv unfolding word_less_nat_alt by linarith
  have s1: "square_up v ?f s = s\<lparr>TotalIssuance := - 1\<rparr>"
    using fv no by (simp add: square_up_def drop_positive_def saturating_add_def)
  have s2: "snd (set_free_balance cfg a v (s\<lparr>TotalIssuance := - 1\<rparr>))
      = s\<lparr>TotalIssuance := - 1, FreeBalance := (FreeBalance s)(a \<mapsto> v)\<rparr>"
    using ed(1) by (simp add: set_free_balance.simps Let_def not_less [symmetric])
  let ?s2 = "s\<lparr>TotalIssuance := - 1, FreeBalance := (FreeBalance s)(a \<mapsto> v)\<rparr>"
  have law: "?r = 0 \<or> ExistentialDeposit cfg \<le> ?r"
    using acc by (auto simp: accounts_def ed_law_def ledger_def)
  then have kept: "(if ?r < ExistentialDeposit cfg then 0 else ?r) = ?r" by auto
  have b2: "ledger ?s2 = ((free_balance s)(a := v), reserved_balance s, - 1)"
    by (simp add: ledger_def fun_eq_iff free_balance_def reserved_balance_def)
  then have r2: "reserved_balance ?s2 a = ?r" by (simp add: ledger_def)
  have same: "square_up x x z = z" for x and z :: "('a, 'b, 'c) balances_state" by (simp add: square_up_def)
  have t': "t = balances_deposit_event (BalanceSet a v ?r) (snd (set_reserved_balance cfg a ?r ?s2))"
    unfolding t set_balance_def using ed(1) kept
    by (simp add: Let_def s1 s2 r2 lk same not_less [symmetric])
  have "unat (free_balance ?s2 a) + unat ?r < 2 ^ 128" if "?r < ExistentialDeposit cfg"
    using that law u128_lt [of v] by (auto simp: free_balance_def)
  then have "ledger (snd (set_reserved_balance cfg a ?r ?s2)) = set_reserved_ledger (ExistentialDeposit cfg) a ?r (ledger ?s2)"
    by (rule set_reserved_balance_ledger)
  then show ?thesis unfolding t' using law ed unfolding b2
    by (auto simp: set_reserved_ledger_def)
qed

text \<open>
  C22 (dispatch_conserves): the dispatchables and the books.  Suppose the issuance is the sum of all
  balances and every balance is zero or at least the existential deposit.  Then the three transfer
  calls keep the issuance equal to the sum, for every origin and every outcome, and so does
  \<open>set_balance\<close> when the issuance and the two new balances together stay below \<open>2\<^sup>128\<close>.  Beyond that
  bound it does not: when root raises a free balance by so much that the issuance saturates, the
  balances exceed the issuance afterwards.
\<close>

theorem dispatch_conserves:
  fixes s :: "('acc, 'hash, 'dig) balances_state" and origin :: "('acc, 'o) origin"
  assumes "squared s" and "deposits_met cfg s"
  shows "squared (snd (transfer_call cfg lkp origin dest v s))
    \<and> squared (snd (transfer_keep_alive cfg lkp origin dest v s))
    \<and> squared (snd (force_transfer cfg lkp origin source dest v s))
    \<and> (unat (TotalIssuance s) + unat v + unat w < 2 ^ 128 \<longrightarrow> squared (snd (set_balance cfg lkp origin dest v w s)))
    \<and> (\<forall>a t. lkp dest = Some a \<longrightarrow> 0 < ExistentialDeposit cfg \<longrightarrow> ExistentialDeposit cfg \<le> v
         \<longrightarrow> 2 ^ 128 + unat (free_balance s a) \<le> unat (TotalIssuance s) + unat v
         \<longrightarrow> t = snd (set_balance cfg lkp (system Root :: ('acc, 'o) origin) dest v (reserved_balance s a) s)
         \<longrightarrow> unat (TotalIssuance t)
               < supp_sum (\<lambda>a. unat (free_balance t a)) + supp_sum (\<lambda>a. unat (reserved_balance t a)))"
proof -
  have acc: "accounts cfg 0 s" using assms squared_accounts by blast
  have tr: "squared (snd (currency_transfer cfg a d v er s))" for a d er
    by (rule squaredI [OF currency_transfer_accounts [OF acc order_refl]])
  show ?thesis
  proof (intro conjI impI allI)
    assume "unat (TotalIssuance s) + unat v + unat w < 2 ^ 128"
    then show "squared (snd (set_balance cfg lkp origin dest v w s))"
      by (rule squaredI [OF set_balance_accounts [OF acc order_refl]])
  next
    fix a t
    assume lk: "lkp dest = Some a" "0 < ExistentialDeposit cfg" "ExistentialDeposit cfg \<le> v"
      and over: "2 ^ 128 + unat (free_balance s a) \<le> unat (TotalIssuance s) + unat v"
      and t: "t = snd (set_balance cfg lkp (system Root :: ('acc, 'o) origin) dest v (reserved_balance s a) s)"
    have L: "ledger t = ((free_balance s)(a := v), reserved_balance s, - 1)"
      by (rule set_balance_saturated [OF acc lk(3,2) over t lk(1)])
    have "books (int (unat (- 1 :: u128)) - int (unat (TotalIssuance s)) + int (unat (free_balance s a)) - int (unat v))
        ((free_balance s)(a := v), reserved_balance s, - 1)"
      using acc unfolding accounts_def ledger_def by (elim conjE) (rule books_update_free, assumption, linarith)
    then have "int (unat (- 1 :: u128)) = int (funds (ledger t))
        + (int (unat (- 1 :: u128)) - int (unat (TotalIssuance s)) + int (unat (free_balance s a)) - int (unat v))"
      by (simp only: L books_def prod.case)
    moreover have i: "TotalIssuance t = - 1" using L by (simp add: ledger_def)
    ultimately show "unat (TotalIssuance t)
        < supp_sum (\<lambda>a. unat (free_balance t a)) + supp_sum (\<lambda>a. unat (reserved_balance t a))"
      using over u128_lt [of "- 1"] unfolding funds_def ledger_def prod.case i by linarith
  qed (simp_all add: transfer_call_def transfer_keep_alive_def force_transfer_def tr assms(1)
      split: sum.split option.split)
qed

text \<open>
  When both sides of the account stay above the existential deposit,
  reserving an amount and releasing it again gives back the balances and the issuance.
\<close>

theorem reserve_unreserve:
  assumes "balances_inv cfg s" and "reserve cfg who v s = (Inr (), t)"
    and "ExistentialDeposit cfg \<le> reserved_balance s who + v" and "ExistentialDeposit cfg \<le> free_balance s who - v"
  shows "reserved_balance t who = reserved_balance s who + v \<and> free_balance t who = free_balance s who - v
    \<and> fst (unreserve cfg who v t) = 0 \<and> ledger (snd (unreserve cfg who v t)) = ledger s"
proof -
  let ?r = "reserved_balance s who" let ?f = "free_balance s who" let ?ed = "ExistentialDeposit cfg"
  obtain k where k: "accounts cfg k s" "0 \<le> k" using assms(1) by (rule balances_invE)
  have v: "v \<le> ?f" and t: "t = snd (set_free_balance cfg who (?f - v) (snd (set_reserved_balance cfg who (?r + v) s)))"
    using assms(2) unfolding reserve_def Let_def by (auto split: if_splits sum.splits)
  have bound: "unat ?f + unat ?r < 2 ^ 128"
    using accounts_bound [OF k(1), of who who] k(2) u128_lt [of "TotalIssuance s"] by linarith
  then have "unat ?r + unat v < 2 ^ 128" using v unfolding word_le_nat_alt by linarith
  then have rv: "v \<le> ?r + v" using unat_add_no_wrap [of ?r v] by (simp add: word_le_nat_alt)
  let ?s1 = "snd (set_reserved_balance cfg who (?r + v) s)"
  have "ledger ?s1 = set_reserved_ledger ?ed who (?r + v) (ledger s)"
    by (rule set_reserved_balance_ledger) (use leD [OF assms(3)] in contradiction)
  moreover have "ledger t = set_free_ledger ?ed who (?f - v) (ledger ?s1)"
    unfolding t by (rule set_free_balance_ledger) (use leD [OF assms(4)] in contradiction)
  ultimately have lt: "ledger t = ((free_balance s)(who := ?f - v), (reserved_balance s)(who := ?r + v), TotalIssuance s)"
    unfolding ledger_def using assms(3,4) by (simp only: set_free_ledger_def set_reserved_ledger_def prod.case if_True)
  then have bt: "free_balance t who = ?f - v" "reserved_balance t who = ?r + v" by (simp_all add: ledger_def)
  have fits: "?ed \<le> ?f" using assms(4) word_sub_le [OF v] by (rule order.trans)
  let ?t1 = "snd (set_free_balance cfg who ?f t)"
  have "ledger ?t1 = set_free_ledger ?ed who ?f (ledger t)"
    by (rule set_free_balance_ledger) (use leD [OF fits] in contradiction)
  then have l1: "ledger ?t1 = (free_balance s, (reserved_balance s)(who := ?r + v), TotalIssuance s)"
    using fits unfolding lt by (simp add: set_free_ledger_def)
  have b1: "free_balance ?t1 who = ?f" using l1 by (simp add: ledger_def)
  have "ledger (snd (set_reserved_balance cfg who ?r ?t1)) = set_reserved_ledger ?ed who ?r (ledger ?t1)"
    by (rule set_reserved_balance_ledger) (simp only: b1 bound)
  moreover have "?r = 0 \<or> ?ed \<le> ?r" by (rule inv_solvent(3) [OF assms(1)])
  ultimately have "ledger (snd (set_reserved_balance cfg who ?r ?t1)) = ledger s"
    using fits unfolding l1 by (auto simp: set_reserved_ledger_def ledger_def)
  then show ?thesis
    using bt rv by (simp add: unreserve_def Let_def min_absorb2)
qed



section \<open>Locks and vesting\<close>

lemma set_lock_loop_mem: "l \<in> set (set_lock_loop now ident (Some l) ls)"
  by (induction ls) auto

lemma ensure_can_withdraw_iff:
  "ensure_can_withdraw who v rs b s = Inr () \<longleftrightarrow>
    \<not> (intersects rs (WR_Reserve OR WR_Transfer) \<and> vesting_balance who s > b)
    \<and> (\<forall>l\<in>set (locks s who). until l \<le> Number (System s) \<or> amount l \<le> b \<or> \<not> intersects (reasons l) rs)"
  by (auto simp: ensure_can_withdraw_def Let_def list_all_iff)

text \<open>
  The setters and an account's locks.  Those of other accounts leave its locks and its free balance;
  its own change the locks only when they leave the free balance empty, and writing the reserve does
  not fill an empty free balance.
\<close>

definition locks_follow :: "'acc \<Rightarrow> ('acc, 'hash, 'dig) balances_state \<Rightarrow> ('acc, 'hash, 'dig) balances_state \<Rightarrow> bool" where
  "locks_follow who s t \<longleftrightarrow> locks t who = locks s who \<or> free_balance t who = 0"

definition untouched :: "'acc \<Rightarrow> ('acc, 'hash, 'dig) balances_state \<Rightarrow> ('acc, 'hash, 'dig) balances_state \<Rightarrow> bool" where
  "untouched who s t \<longleftrightarrow> locks t who = locks s who \<and> free_balance t who = free_balance s who"

lemma lock_frame [simp]:
  "locks (balances_deposit_event ev s) = locks s"
  "locks (new_account a b s) = locks s"
  "locks (reap_account a b s) = locks s"
  "locks (on_unbalanced n s) = locks s"
  "locks (drop_negative n s) = locks s"
  "locks (drop_positive p s) = locks s"
  "locks (s\<lparr>TotalIssuance := i\<rparr>) = locks s"
  "locks (s\<lparr>FreeBalance := f\<rparr>) = locks s"
  "locks (s\<lparr>ReservedBalance := f\<rparr>) = locks s"
  "locks (s\<lparr>System := y\<rparr>) = locks s"
  "locks (s\<lparr>Hooks := h\<rparr>) = locks s"
  "locks (s\<lparr>Vesting := v\<rparr>) = locks s"
  "free_balance (on_unbalanced n s) = free_balance s"
  "free_balance (drop_negative n s) = free_balance s"
  "free_balance (drop_positive p s) = free_balance s"
  "free_balance (reap_account a b s) = free_balance s"
  by (simp_all add: fun_eq_iff locks_def free_balance_def balances_deposit_event_def new_account_def reap_account_def
      on_unbalanced_def drop_negative_def drop_positive_def split: sum.split)

lemma setters_locks:
  "(a \<noteq> who \<longrightarrow> untouched who s (snd (set_reserved_balance cfg a b s))) \<and> locks_follow who s (snd (set_reserved_balance cfg a b s))
     \<and> (free_balance s who = 0 \<longrightarrow> free_balance (snd (set_reserved_balance cfg a b s)) who = 0)"
  "(a \<noteq> who \<longrightarrow> untouched who s (snd (set_free_balance cfg a b s))) \<and> locks_follow who s (snd (set_free_balance cfg a b s))"
  "(a \<noteq> who \<longrightarrow> untouched who s (on_free_too_low cfg a s)) \<and> (a = who \<longrightarrow> free_balance (on_free_too_low cfg a s) who = 0)"
  "(a \<noteq> who \<longrightarrow> untouched who s (on_reserved_too_low cfg a s)) \<and> locks_follow who s (on_reserved_too_low cfg a s)
     \<and> (0 < ExistentialDeposit cfg \<longrightarrow> free_balance s who = 0 \<longrightarrow> free_balance (on_reserved_too_low cfg a s) who = 0)"
proof (induction cfg a b s and cfg a b s and cfg a s and cfg a s
    rule: set_reserved_balance_set_free_balance_on_free_too_low_on_reserved_too_low.induct)
  case (1 cfg a b s)
  let ?s = "s\<lparr>ReservedBalance := (ReservedBalance s)(a \<mapsto> b)\<rparr>"
  have f: "locks ?s = locks s" "free_balance ?s = free_balance s" by (simp_all add: fun_eq_iff free_balance_def)
  show ?case
  proof (cases "b < ExistentialDeposit cfg")
    case True
    then have "0 < ExistentialDeposit cfg" using word_neq_0_conv by fastforce
    with 1 [OF refl True] show ?thesis
      using True by (simp add: set_reserved_balance.simps Let_def untouched_def locks_follow_def f)
  qed (simp add: set_reserved_balance.simps Let_def untouched_def locks_follow_def f)
next
  case (2 cfg a b s)
  let ?s = "s\<lparr>FreeBalance := (FreeBalance s)(a \<mapsto> b)\<rparr>"
  have f: "locks ?s = locks s" "free_balance ?s = (free_balance s)(a := b)" by (simp_all add: free_balance_fun_upd)
  show ?case
  proof (cases "b < ExistentialDeposit cfg")
    case True
    with 2 [OF refl True] show ?thesis
      by (cases "a = who") (simp_all add: set_free_balance.simps Let_def untouched_def locks_follow_def f)
  qed (simp add: set_free_balance.simps Let_def untouched_def locks_follow_def f)
next
  case (3 cfg a s)
  define s1 where "s1 = s\<lparr>FreeBalance := (FreeBalance s)(a := None), Locks := (Locks s)(a := None),
    Hooks := Hooks s @ [on_free_balance_zero a]\<rparr>"
  have f: "free_balance s1 = (free_balance s)(a := 0)" "a \<noteq> who \<Longrightarrow> locks s1 who = locks s who"
    by (simp_all add: s1_def fun_eq_iff free_balance_def locks_def)
  show ?case
  proof (cases "free_balance s a \<noteq> 0 \<and> ExistentialDeposit cfg \<le> reserved_balance s1 a")
    case True
    define s2 where "s2 = snd (set_reserved_balance cfg a (reserved_balance s1 a + free_balance s a) s1)"
    have IH: "(a \<noteq> who \<longrightarrow> untouched who s1 s2) \<and> (free_balance s1 who = 0 \<longrightarrow> free_balance s2 who = 0)"
      unfolding s2_def s1_def using True 3 [OF refl refl refl] unfolding s1_def by blast
    have "on_free_too_low cfg a s
        = (if reserved_balance s1 a + free_balance s a = 0 then reap_account a (free_balance s a) s2 else s2)"
      using True unfolding on_free_too_low.simps [of cfg a s] Let_def s1_def [symmetric] s2_def by simp
    then have "locks (on_free_too_low cfg a s) = locks s2" "free_balance (on_free_too_low cfg a s) = free_balance s2"
      by simp_all
    then show ?thesis using IH f by (auto simp: untouched_def)
  next
    case False
    then have "locks (on_free_too_low cfg a s) = locks s1" "free_balance (on_free_too_low cfg a s) = free_balance s1"
      unfolding on_free_too_low.simps [of cfg a s] Let_def s1_def [symmetric] by auto
    then show ?thesis using f by (auto simp: untouched_def)
  qed
next
  case (4 cfg a s)
  define s1 where "s1 = s\<lparr>ReservedBalance := (ReservedBalance s)(a := None)\<rparr>"
  have f: "free_balance s1 = free_balance s" "locks s1 = locks s"
    by (simp_all add: s1_def fun_eq_iff free_balance_def)
  show ?case
  proof (cases "reserved_balance s a \<noteq> 0 \<and> ExistentialDeposit cfg \<le> free_balance s1 a")
    case True
    define s2 where "s2 = snd (set_free_balance cfg a (free_balance s1 a + reserved_balance s a) s1)"
    have IH: "(a \<noteq> who \<longrightarrow> untouched who s1 s2) \<and> locks_follow who s1 s2"
      unfolding s2_def s1_def using True 4 [OF refl refl refl] unfolding s1_def by blast
    have "on_reserved_too_low cfg a s
        = (if free_balance s1 a + reserved_balance s a = 0 then reap_account a (reserved_balance s a) s2 else s2)"
      using True unfolding on_reserved_too_low.simps [of cfg a s] Let_def s1_def [symmetric] s2_def by simp
    then have t: "locks (on_reserved_too_low cfg a s) = locks s2" "free_balance (on_reserved_too_low cfg a s) = free_balance s2"
      by simp_all
    have "a \<noteq> who" if "0 < ExistentialDeposit cfg" "free_balance s who = 0" using that True f by auto
    then show ?thesis using IH f t by (auto simp: untouched_def locks_follow_def)
  next
    case False
    then have "locks (on_reserved_too_low cfg a s) = locks s1" "free_balance (on_reserved_too_low cfg a s) = free_balance s1"
      unfolding on_reserved_too_low.simps [of cfg a s] Let_def s1_def [symmetric] by auto
    then show ?thesis using f by (simp add: untouched_def locks_follow_def)
  qed
qed

lemma set_free_follow: "locks_follow who s (snd (set_free_balance cfg a b s))"
  using setters_locks(2) [of a who s cfg b] by (rule conjunct2)

lemma set_free_other: "a \<noteq> who \<Longrightarrow> untouched who s (snd (set_free_balance cfg a b s))"
  using setters_locks(2) [of a who s cfg b] by simp

lemma follow_refl: "locks_follow who s s"
  by (simp add: locks_follow_def)

lemma follow_same: "locks_follow who s t \<Longrightarrow> locks u = locks t \<Longrightarrow> free_balance u = free_balance t \<Longrightarrow> locks_follow who s u"
  by (simp add: locks_follow_def)

lemma follow_free:
  "locks s' who = locks s who \<Longrightarrow> locks_follow who s (snd (set_free_balance cfg a b s'))"
  using set_free_follow [of who s' cfg a b] by (simp add: locks_follow_def)

lemma follow_reserved:
  "locks_follow who s s' \<Longrightarrow> locks_follow who s (snd (set_reserved_balance cfg a b s'))"
  using setters_locks(1) [of a who s' cfg b] by (auto simp: locks_follow_def)

lemma transferred_follow:
  assumes "a \<noteq> d"
  shows "locks_follow who s (transferred cfg a d v fee s)"
proof -
  define s1 where "s1 = snd (set_free_balance cfg a (free_balance s a - (v + fee)) s)"
  define s3 where "s3 = balances_deposit_event (Transfer a d v fee)
    (if FreeBalance s1 d = None then new_account d (free_balance s d + v) s1 else s1)"
  define s4 where "s4 = snd (set_free_balance cfg d (free_balance s d + v) s3)"
  have t: "transferred cfg a d v fee s = on_unbalanced (NegativeImbalance fee) s4"
    by (simp add: transferred_def Let_def s1_def s3_def s4_def)
  have s3: "locks s3 = locks s1" "free_balance s3 = free_balance s1" by (simp_all add: s3_def)
  have "locks_follow who s s4"
  proof (cases "a = who")
    case True
    have "untouched who s3 s4" unfolding s4_def by (rule set_free_other) (use assms True in simp)
    moreover have "locks_follow who s s1" unfolding s1_def by (rule set_free_follow)
    ultimately show ?thesis using s3 by (simp add: locks_follow_def untouched_def)
  next
    case False
    then have "locks s1 who = locks s who" using set_free_other [of a who s cfg] by (simp add: s1_def untouched_def)
    then show ?thesis unfolding s4_def using s3 by (intro follow_free) simp
  qed
  then show ?thesis unfolding t by (rule follow_same) simp_all
qed

lemma currency_transfer_follow: "locks_follow who s (snd (currency_transfer cfg a d v er s))"
  by (rule currency_transfer_cases [of cfg a d v er s "fst (currency_transfer cfg a d v er s)"
        "snd (currency_transfer cfg a d v er s)"])
    (simp_all add: transferred_follow follow_refl)

lemma square_up_frame [simp]: "locks (square_up n c s) = locks s" "free_balance (square_up n c s) = free_balance s"
  by (simp_all add: square_up_def)

lemma dispatch_follow:
  "locks_follow who s (snd (transfer_call cfg lkp origin dest v s))"
  "locks_follow who s (snd (transfer_keep_alive cfg lkp origin dest v s))"
  "locks_follow who s (snd (force_transfer cfg lkp origin source dest v s))"
  "locks_follow who s (snd (set_balance cfg lkp origin dest v w s))"
proof -
  have "locks_follow who s (balances_deposit_event ev (snd (set_reserved_balance cfg a r
      (square_up r x (snd (set_free_balance cfg a f (square_up f y s)))))))" for ev a r x f y
  proof -
    have "locks_follow who s (snd (set_free_balance cfg a f (square_up f y s)))" by (rule follow_free) simp
    then have "locks_follow who s (square_up r x (snd (set_free_balance cfg a f (square_up f y s))))"
      by (rule follow_same) simp_all
    from follow_reserved [OF this, of cfg a r] show ?thesis by (rule follow_same) simp_all
  qed
  then show "locks_follow who s (snd (set_balance cfg lkp origin dest v w s))"
    by (simp add: set_balance_def Let_def follow_refl split: sum.split option.split)
qed (simp_all add: transfer_call_def transfer_keep_alive_def force_transfer_def currency_transfer_follow follow_refl
      split: sum.split option.split)

lemma make_free_follow: "locks_follow who s (snd (make_free_balance_be cfg a b s))"
  by (auto simp: make_free_balance_be_def Let_def intro!: follow_refl follow_free)

lemma deposit_follow:
  "locks_follow who s (snd (deposit_into_existing cfg a v s))"
  "locks_follow who s (snd (deposit_creating cfg a v s))"
proof -
  obtain imb oc t where m: "make_free_balance_be cfg a (free_balance s a + v) s = ((imb, oc), t)" by (metis surj_pair)
  then have "locks_follow who s t" using make_free_follow [of who s cfg a "free_balance s a + v"] by simp
  then show "locks_follow who s (snd (deposit_creating cfg a v s))"
    by (auto simp: deposit_creating_def m intro: follow_same split: signed_imbalance.split)
qed (simp add: deposit_into_existing_def follow_refl set_free_follow)

lemma drop_offset_frame [simp]: "locks (drop_offset r s) = locks s" "free_balance (drop_offset r s) = free_balance s"
  by (simp_all add: drop_offset_def split: sum.split)

lemma resolve_follow:
  "locks_follow who s (resolve_creating cfg a n s)"
  "locks_follow who s (snd (resolve_into_existing cfg a n s))"
proof -
  show "locks_follow who s (resolve_creating cfg a n s)"
    using deposit_follow(2) [of who s cfg a "neg_peek n"]
    by (auto simp: resolve_creating_def split: prod.split intro: follow_same)
  show "locks_follow who s (snd (resolve_into_existing cfg a n s))"
    using deposit_follow(1) [of who s cfg a "neg_peek n"]
    by (auto simp: resolve_into_existing_def split: prod.split sum.split intro: follow_same)
qed

lemma withdraw_follow: "locks_follow who s (snd (withdraw cfg a v rs lv s))"
  by (auto simp: withdraw_def Let_def intro: follow_refl set_free_follow split: option.split sum.split)

lemma settle_follow:
  assumes "burn v s = (p, s1)"
  shows "locks_follow who s s1 \<and> locks_follow who s (snd (settle cfg a p rs lv s1))"
proof -
  have s1: "locks s1 = locks s" "free_balance s1 = free_balance s"
    using assms by (auto simp: burn_def split: option.splits)
  then have "locks_follow who s (snd (withdraw cfg a (pos_peek p) rs lv s1))"
    using withdraw_follow [of who s1] by (simp add: locks_follow_def)
  then have "locks_follow who s (snd (settle cfg a p rs lv s1))"
    by (auto simp: settle_def intro: follow_same split: prod.split sum.split)
  then show ?thesis using s1 by (simp add: locks_follow_def)
qed

lemma slash_follow:
  "locks_follow who s (snd (slash cfg a v s))" "locks_follow who s (snd (slash_reserved cfg a v s))"
  by (auto simp: slash_def slash_reserved_def Let_def intro!: follow_reserved set_free_follow follow_refl)

lemma set_reserved_keeps_locks:
  assumes "b < ExistentialDeposit cfg \<Longrightarrow> unat (free_balance s a) + unat b < 2 ^ 128"
  shows "locks (snd (set_reserved_balance cfg a b s)) = locks s"
proof (cases "b < ExistentialDeposit cfg \<and> ExistentialDeposit cfg \<le> free_balance s a")
  case True
  then have "free_balance s a \<le> free_balance s a + b"
    using assms le_plus_no_wrap [of "free_balance s a" b] by simp
  then have high: "\<not> free_balance s a + b < ExistentialDeposit cfg" using True by auto
  let ?s = "s\<lparr>ReservedBalance := (ReservedBalance s)(a := None)\<rparr>"
  have "locks (snd (set_free_balance cfg a (free_balance s a + b) ?s)) = locks s"
    using high by (simp add: set_free_balance.simps Let_def)
  then show ?thesis using True
    by (auto simp: set_reserved_balance.simps on_reserved_too_low.simps Let_def option_balance)
next
  case False
  then show ?thesis by (auto simp: set_reserved_balance.simps on_reserved_too_low.simps Let_def)
qed

lemma reserves_follow:
  assumes "held_inv cfg (s, N)"
  shows "locks_follow who s (snd (reserve cfg a v s))" "locks_follow who s (snd (unreserve cfg a v s))"
    "locks_follow who s (snd (repatriate_reserved cfg a d v s))"
proof -
  obtain k where k: "accounts cfg k s" "0 \<le> k" "head_room cfg s" using assms by (rule held_invE)
  let ?r = "reserved_balance s a + v"
  have "unat (free_balance s a) + unat ?r < 2 ^ 128" if "?r < ExistentialDeposit cfg"
    using that accounts_bound [OF k(1), of a a] k(2,3) unfolding head_room_def word_less_nat_alt by linarith
  then have "locks (snd (set_reserved_balance cfg a ?r s)) = locks s" by (rule set_reserved_keeps_locks)
  then show "locks_follow who s (snd (reserve cfg a v s))"
    by (auto simp: reserve_def Let_def intro: follow_refl follow_free split: sum.split)
  show "locks_follow who s (snd (unreserve cfg a v s))"
    by (auto simp: unreserve_def Let_def intro!: follow_reserved set_free_follow)
  show "locks_follow who s (snd (repatriate_reserved cfg a d v s))"
    by (auto simp: repatriate_reserved_def Let_def intro!: follow_reserved set_free_follow follow_refl)
qed

definition lock_call :: "('acc, 'hash, 'dig) balances_state \<Rightarrow> u64 \<Rightarrow> 'acc \<Rightarrow> ('acc, 'hash, 'dig) balances_state \<Rightarrow> bool" where
  "lock_call s ident who t \<longleftrightarrow> t = remove_lock ident who s
     \<or> (\<exists>amt unt rs. t = set_lock ident who amt unt rs s \<or> t = extend_lock ident who amt unt rs s)"

lemma step_locks:
  assumes "balances_step cfg lkp (s, N) (t, M)" and inv: "held_inv cfg (s, N)"
  shows "locks_follow who s t \<or> (\<exists>ident a. lock_call s ident a t)"
  using assms(1)
proof cases
  case (settle v p s1 a rs lv r t1)
  show ?thesis using settle_follow [OF settle(3), of who cfg a rs lv] settle(1,4)
    by (auto intro: follow_same split: sum.splits)
next
  case (make b a imb oc t1)
  then show ?thesis using make_free_follow [of who s cfg a b]
    by (auto intro: follow_same split: signed_imbalance.splits)
next
  case (deposit v a r t1)
  then show ?thesis using deposit_follow(1) [of who s cfg a v] by (auto intro: follow_same split: sum.splits)
next
  case (create v a p t1)
  then show ?thesis using deposit_follow(2) [of who s cfg a v] by (auto intro: follow_same)
next
  case (resolve_existing a n r xs ys)
  then show ?thesis using resolve_follow(2) [of who s cfg a n] by simp
next
  case (withdraw a v rs lv r)
  then show ?thesis using withdraw_follow [of who s cfg a v rs lv] by simp
next
  case (slash a v n r)
  then show ?thesis using slash_follow(1) [of who s cfg a v] by simp
next
  case (slash_reserved a v n r)
  then show ?thesis using slash_follow(2) [of who s cfg a v] by simp
next
  case (issue v n)
  then show ?thesis by (auto simp: issue_def locks_follow_def split: option.splits)
next
  case (burn v p t1)
  have "locks_follow who s t1" using settle_follow [OF burn(3), of who cfg undefined 0 KeepAlive] by (rule conjunct1)
  then have "locks_follow who s t" unfolding burn(1) by (rule follow_same) simp_all
  then show ?thesis ..
next
  case (lock ident a v unt rs)
  then show ?thesis unfolding lock_call_def by blast
next
  case (extend ident a v unt rs)
  then show ?thesis unfolding lock_call_def by blast
qed (simp_all only: dispatch_follow reserves_follow [OF inv] resolve_follow(1) simp_thms,
     (auto simp: locks_follow_def lock_call_def add_vesting_schedule_def remove_vesting_schedule_def)+)

lemma lock_loops_keep:
  assumes "l \<in> set ls" and "now < until l" and "lock_id l \<noteq> ident"
  shows "l \<in> set (set_lock_loop now ident new_lock ls)" "l \<in> set (extend_lock_loop now ident new_lock ls)"
  using assms by (induction ls arbitrary: new_lock) auto

lemma lock_call_keeps:
  assumes "lock_call s ident a t" and "l \<in> set (locks s who)" and "Number (System s) < until l"
    and "ident \<noteq> lock_id l \<or> a \<noteq> who"
  shows "l \<in> set (locks t who)"
proof (cases "a = who")
  case True
  then show ?thesis
    using assms lock_loops_keep [OF assms(2,3), of ident]
    by (auto simp: lock_call_def set_lock_def extend_lock_def remove_lock_def Let_def locks_def)
next
  case False
  then have "locks t who = locks s who"
    using assms(1) by (auto simp: lock_call_def set_lock_def extend_lock_def remove_lock_def Let_def locks_def)
  then show ?thesis using assms(2) by simp
qed

lemma set_free_high:
  "ExistentialDeposit cfg \<le> b \<Longrightarrow> free_balance (snd (set_free_balance cfg a b s)) a = b"
  by (simp add: set_free_balance.simps Let_def not_less [symmetric] free_balance_fun_upd)

lemma transferred_sender:
  assumes "a \<noteq> d" and "ExistentialDeposit cfg \<le> free_balance s a - (v + fee)"
  shows "free_balance (transferred cfg a d v fee s) a = free_balance s a - (v + fee)"
proof -
  define s1 where "s1 = snd (set_free_balance cfg a (free_balance s a - (v + fee)) s)"
  define s3 where "s3 = balances_deposit_event (Transfer a d v fee)
    (if FreeBalance s1 d = None then new_account d (free_balance s d + v) s1 else s1)"
  have "free_balance s3 = free_balance s1" by (simp add: s3_def)
  moreover have "free_balance (snd (set_free_balance cfg d (free_balance s d + v) s3)) a = free_balance s3 a"
    using set_free_other [of d a s3 cfg] assms(1) by (simp add: untouched_def)
  moreover have "free_balance s1 a = free_balance s a - (v + fee)" unfolding s1_def by (rule set_free_high [OF assms(2)])
  ultimately show ?thesis by (simp add: transferred_def Let_def s1_def [symmetric] s3_def [symmetric])
qed

text \<open>
  C24 (lock_restrains): take a running lock of an account.  Every successful transfer, withdrawal or
  reservation for one of its reasons leaves at least the locked amount after what it takes; dust is
  removed after that, so the amount is really left when it reaches the existential deposit.  And in
  every state that has the invariant of the module, which all reachable states have, each step of the
  transition system leaves the lock in place, except one that leaves the account without free balance and a lock call for the same account with
  the lock's own identifier.
\<close>

theorem lock_restrains:
  fixes s :: "('acc, 'hash, 'dig) balances_state"
  assumes "l \<in> set (locks s who)" and "Number (System s) < until l" and "held_inv cfg (s, N)"
  shows "(intersects (reasons l) WR_Transfer \<longrightarrow> who \<noteq> d \<longrightarrow> currency_transfer cfg who d v er s = (Inr (), t)
            \<longrightarrow> unat (amount l) + unat v + unat (transfer_fee cfg d s) \<le> unat (free_balance s who)
              \<and> (ExistentialDeposit cfg \<le> amount l \<longrightarrow> amount l \<le> free_balance t who))
    \<and> (intersects (reasons l) rs \<longrightarrow> withdraw cfg who v rs er s = (Inr n, t)
            \<longrightarrow> unat (amount l) + unat v \<le> unat (free_balance s who)
              \<and> (ExistentialDeposit cfg \<le> amount l \<longrightarrow> amount l \<le> free_balance t who))
    \<and> (intersects (reasons l) WR_Reserve \<longrightarrow> reserve cfg who v s = (Inr (), t)
            \<longrightarrow> unat (amount l) + unat v \<le> unat (free_balance s who)
              \<and> (ExistentialDeposit cfg \<le> amount l \<longrightarrow> amount l \<le> free_balance t who))
    \<and> (balances_step cfg lkp (s, N) (t, M) \<longrightarrow>
         l \<in> set (locks t who) \<or> free_balance t who = 0 \<or> lock_call s (lock_id l) who t)"
proof -
  let ?f = "free_balance s who"
  have run: "amount l \<le> b" if "intersects (reasons l) rs''" "ensure_can_withdraw who w rs'' b s = Inr ()" for rs'' b w
    using that assms(1,2) unfolding ensure_can_withdraw_iff by (meson not_le)
  have split: "unat (amount l) + unat w \<le> unat ?f" if "w \<le> ?f" "amount l \<le> ?f - w" for w
    using that by (simp add: word_le_nat_alt unat_sub)
  show ?thesis
  proof (intro conjI impI)
    assume r: "intersects (reasons l) WR_Transfer" and ne: "who \<noteq> d" and ok: "currency_transfer cfg who d v er s = (Inr (), t)"
    let ?fee = "transfer_fee cfg d s"
    from ok have "(unat (amount l) + unat v + unat ?fee \<le> unat ?f) \<and> (ExistentialDeposit cfg \<le> amount l \<longrightarrow> amount l \<le> free_balance t who)"
    proof (cases rule: currency_transfer_cases)
      case moved
      have "unat v + unat ?fee < 2 ^ 128" using moved(4) u128_lt [of ?f] by linarith
      then have vf: "unat (v + ?fee) = unat v + unat ?fee" using unat_add_no_wrap [of v ?fee] by simp
      have left: "amount l \<le> ?f - (v + ?fee)" by (rule run [OF r moved(7)])
      moreover have "v + ?fee \<le> ?f" using moved(4) vf by (simp add: word_le_nat_alt)
      ultimately have "unat (amount l) + unat (v + ?fee) \<le> unat ?f" by (intro split)
      moreover have "amount l \<le> free_balance t who" if "ExistentialDeposit cfg \<le> amount l"
        unfolding moved(3) using transferred_sender [OF ne order_trans [OF that left]] left by simp
      ultimately show ?thesis using vf by simp
    qed (use ne in simp_all)
    then show "unat (amount l) + unat v + unat ?fee \<le> unat ?f" "ExistentialDeposit cfg \<le> amount l \<Longrightarrow> amount l \<le> free_balance t who"
      by blast+
  next
    assume r: "intersects (reasons l) rs" and ok: "withdraw cfg who v rs er s = (Inr n, t)"
    have w: "ensure_can_withdraw who v rs (?f - v) s = Inr ()" "v \<le> ?f" "t = snd (set_free_balance cfg who (?f - v) s)"
      using ok by (auto simp: withdraw_def Let_def checked_sub_def split: option.splits if_splits sum.splits)
    note left = run [OF r w(1)]
    show "unat (amount l) + unat v \<le> unat ?f" by (rule split [OF w(2) left])
    show "amount l \<le> free_balance t who" if "ExistentialDeposit cfg \<le> amount l"
      unfolding w(3) set_free_high [OF order_trans [OF that left]] by (rule left)
  next
    assume r: "intersects (reasons l) WR_Reserve" and ok: "reserve cfg who v s = (Inr (), t)"
    let ?s1 = "snd (set_reserved_balance cfg who (reserved_balance s who + v) s)"
    have w: "ensure_can_withdraw who v WR_Reserve (?f - v) s = Inr ()" "v \<le> ?f" "t = snd (set_free_balance cfg who (?f - v) ?s1)"
      using ok by (auto simp: reserve_def Let_def split: if_splits sum.splits)
    note left = run [OF r w(1)]
    show "unat (amount l) + unat v \<le> unat ?f" by (rule split [OF w(2) left])
    show "amount l \<le> free_balance t who" if "ExistentialDeposit cfg \<le> amount l"
      unfolding w(3) set_free_high [OF order_trans [OF that left]] by (rule left)
  next
    assume "balances_step cfg lkp (s, N) (t, M)"
    from step_locks [OF this assms(3), of who] show "l \<in> set (locks t who) \<or> free_balance t who = 0 \<or> lock_call s (lock_id l) who t"
      using lock_call_keeps [OF _ assms(1,2), of _ _ t] assms(1) unfolding locks_follow_def by metis
  qed
qed

lemma extend_lock_loop_None:
  "ident \<notin> lock_id ` set ls \<Longrightarrow> extend_lock_loop now ident None ls = filter (\<lambda>l. until l > now) ls"
  by (induction ls) auto

lemma intersects_OR: "intersects a r \<Longrightarrow> intersects (a OR b) r"
  unfolding intersects_def by (metis and.left_commute and.right_idem bit.conj_disj_distrib2 or_eq_0_iff)

lemma extend_lock_loop_covers:
  assumes "distinct (map lock_id ls)" and "l \<in> set ls" and "now < until l"
  shows "\<exists>l'\<in>set (extend_lock_loop now ident (Some n) ls).
    amount l \<le> amount l' \<and> until l \<le> until l' \<and> (\<forall>r. intersects (reasons l) r \<longrightarrow> intersects (reasons l') r)"
  using assms
proof (induction ls)
  case (Cons x ls)
  show ?case
  proof (cases "lock_id x = ident")
    case True
    then have "extend_lock_loop now ident None ls = filter (\<lambda>l. until l > now) ls"
      using Cons.prems(1) by (intro extend_lock_loop_None) auto
    then show ?thesis using True Cons.prems(2,3) by (auto intro: intersects_OR)
  next
    case False
    then show ?thesis using Cons by auto
  qed
qed simp

text \<open>
  On an account whose locks have different identifiers, extending a lock
  never allows a withdrawal that was refused before.
\<close>

theorem extend_lock_keeps:
  assumes "distinct (map lock_id (locks s who))"
    and "ensure_can_withdraw who v rs b (extend_lock ident who amt unt lrs s) = Inr ()"
  shows "ensure_can_withdraw who v rs b s = Inr ()"
proof -
  let ?s = "extend_lock ident who amt unt lrs s"
  have now: "Number (System ?s) = Number (System s)" and vb: "vesting_balance who ?s = vesting_balance who s"
    by (simp_all add: extend_lock_def Let_def vesting_balance_def free_balance_def split: option.split)
  have ls: "locks ?s who = extend_lock_loop (Number (System s)) ident
      (Some \<lparr>lock_id = ident, amount = amt, until = unt, reasons = lrs\<rparr>) (locks s who)"
    by (simp add: extend_lock_def Let_def locks_def)
  have "until l \<le> Number (System s) \<or> amount l \<le> b \<or> \<not> intersects (reasons l) rs" if l: "l \<in> set (locks s who)" for l
  proof (cases "Number (System s) < until l")
    case True
    obtain l' where "l' \<in> set (locks ?s who)" "amount l \<le> amount l'" "until l \<le> until l'"
      "\<forall>r. intersects (reasons l) r \<longrightarrow> intersects (reasons l') r"
      using extend_lock_loop_covers [OF assms(1) l True] unfolding ls by blast
    moreover have "until l' \<le> Number (System s) \<or> amount l' \<le> b \<or> \<not> intersects (reasons l') rs"
      using assms(2) calculation(1) unfolding ensure_can_withdraw_iff now by blast
    ultimately show ?thesis by (meson order.trans)
  qed (simp add: not_less)
  then show ?thesis using assms(2) unfolding ensure_can_withdraw_iff vb by blast
qed

text \<open>
  The amount a schedule still locks falls linearly with the blocks since its
  start until nothing is left, with no overflow at any block number.
\<close>

theorem vesting_linear:
  "unat (locked_at v n) = unat (locked v) - (unat n - unat (starting_block v)) * unat (per_block v)"
proof -
  let ?c = "saturating_sub n (starting_block v)"
  have c: "unat (ucast ?c :: u128) = unat n - unat (starting_block v)"
    by (simp add: unat_ucast_up unat_saturating_sub)
  show ?thesis
  proof (cases "checked_mul (ucast ?c) (per_block v)")
    case None
    then have "2 ^ 128 \<le> (unat n - unat (starting_block v)) * unat (per_block v)"
      unfolding checked_mul_None_iff c len_u128 .
    then show ?thesis using None u128_lt [of "locked v"] by (simp add: locked_at_def)
  next
    case (Some x)
    then have "unat x = (unat n - unat (starting_block v)) * unat (per_block v)"
      unfolding checked_mul_Some_iff c .
    then show ?thesis using Some by (simp add: locked_at_def Let_def unat_sub max_def word_le_nat_alt)
  qed
qed

text \<open>
  Slashing takes the amount from the free and then from the reserved balance, all
  of it if the account has as much and everything otherwise, and reports what it could not take.
\<close>

theorem slash_exact:
  assumes "balances_inv cfg s" and "slash cfg who v s = ((n, rest), t)"
  shows "unat (neg_peek n) = min (unat v) (unat (free_balance s who) + unat (reserved_balance s who))
    \<and> unat rest = unat v - (unat (free_balance s who) + unat (reserved_balance s who))"
proof -
  obtain k where k: "accounts cfg k s" "0 \<le> k" using assms(1) by (rule balances_invE)
  let ?f = "free_balance s who" let ?r = "reserved_balance s who"
  let ?s1 = "snd (set_free_balance cfg who (?f - min ?f v) s)"
  have sum: "unat (neg_peek n) + unat rest = unat v" using slash_accounts [OF k assms(2)] by (rule conjunct2)
  have rem: "unat (v - min ?f v) = unat v - unat ?f"
    by (cases "?f \<le> v") (simp_all add: min_def unat_sub word_le_nat_alt)
  show ?thesis
  proof (cases "v - min ?f v = 0")
    case True
    then have "unat v \<le> unat ?f" using rem by simp
    moreover have "n = NegativeImbalance v" "rest = 0" using assms(2) True by (simp_all add: slash_def Let_def)
    ultimately show ?thesis by simp
  next
    case False
    then have "unat (v - min ?f v) \<noteq> 0" by (simp add: unat_eq_zero)
    then have fv: "unat ?f < unat v" using rem by simp
    then have "?f - min ?f v = 0" by (simp add: min_def word_le_nat_alt)
    then have "reserved_balance ?s1 = reserved_balance s" by (rule set_free_reserved [OF k])
    then have "rest = v - min ?f v - min ?r (v - min ?f v)" using assms(2) False by (auto simp: slash_def Let_def)
    then have "unat rest = unat v - unat ?f - min (unat ?r) (unat v - unat ?f)"
      by (simp add: unat_sub unat_min rem word_le_nat_alt)
    then show ?thesis using sum fv by linarith
  qed
qed

section \<open>Witnesses\<close>

lemma bal0_squared: "squared bal0" "deposits_met bal_cfg bal0"
  using bal0_accounts squared_accounts [of bal0 bal_cfg] by blast+

lemma bal0_free: "free_balance bal0 0 = 100" "free_balance bal0 (Suc 0) = 50" "reserved_balance bal0 a = 0"
  "free_balance bal0 2 = 0"
  by (simp_all add: bal0_def free_balance_def reserved_balance_def)

lemma bal0_unlocked: "ensure_can_withdraw who v rs b bal0 = Inr ()"
  by (simp add: ensure_can_withdraw_def bal0_def vesting_balance_def locks_def)

lemma bal0_transfer: "\<exists>t. currency_transfer bal_cfg 0 (Suc 0) 20 AllowDeath bal0 = (Inr (), t)"
proof -
  have "checked_add (20 :: u128) 1 = Some 21" "checked_sub (100 :: u128) 21 = Some 79" "checked_add (50 :: u128) 20 = Some 70"
    by (simp_all add: checked_add_Some_iff checked_sub_Some_iff)
  then show ?thesis unfolding currency_transfer_def by (simp add: Let_def bal0_free bal_cfg_def bal0_unlocked)
qed

theorem transfer_exact_witness:
  "\<exists>t. currency_transfer bal_cfg 0 (Suc 0) 20 AllowDeath bal0 = (Inr (), t)
     \<and> free_balance t 0 = 79 \<and> unat (free_balance t (Suc 0)) = 70 \<and> TotalIssuance t = saturating_sub 150 1"
proof -
  obtain t where t: "currency_transfer bal_cfg 0 (Suc 0) 20 AllowDeath bal0 = (Inr (), t)"
    using bal0_transfer by blast
  have "transfer_fee bal_cfg (Suc 0) bal0 = 1" "TotalIssuance bal0 = 150"
    by (simp_all add: transfer_fee_def bal0_free bal_cfg_def, simp add: bal0_def)
  then show ?thesis using transfer_exact [OF bal0_inv _ t] t by (simp add: bal0_free bal_cfg_def)
qed

theorem dispatch_conserves_witness:
  "squared (snd (transfer_call bal_cfg Some (system (Signed 0) :: (nat, unit) origin) 1 20 bal0))
   \<and> squared (snd (set_balance bal_cfg Some (system Root :: (nat, unit) origin) 1 20 30 bal0))
   \<and> (let t = snd (set_balance bal_cfg Some (system Root :: (nat, unit) origin) 1 (- 1) 0 bal0)
      in unat (TotalIssuance t)
           < supp_sum (\<lambda>a. unat (free_balance t a)) + supp_sum (\<lambda>a. unat (reserved_balance t a)))"
proof (intro conjI)
  show "squared (snd (transfer_call bal_cfg Some (system (Signed 0) :: (nat, unit) origin) 1 20 bal0))"
    using dispatch_conserves [OF bal0_squared, of Some "system (Signed 0) :: (nat, unit) origin" 1 20 0 0] by blast
  show "squared (snd (set_balance bal_cfg Some (system Root :: (nat, unit) origin) 1 20 30 bal0))"
    using dispatch_conserves [OF bal0_squared, of Some "system Root :: (nat, unit) origin" 1 20 0 30]
    by (simp add: bal0_def)
  have "(2 :: nat) ^ 128 + unat (free_balance bal0 (Suc 0)) \<le> unat (TotalIssuance bal0) + unat (- 1 :: u128)"
    unfolding bal0_free by (simp add: bal0_def unsigned_minus_1_eq_mask mask_eq_exp_minus_1)
  then show "let t = snd (set_balance bal_cfg Some (system Root :: (nat, unit) origin) 1 (- 1) 0 bal0)
      in unat (TotalIssuance t)
           < supp_sum (\<lambda>a. unat (free_balance t a)) + supp_sum (\<lambda>a. unat (reserved_balance t a))"
    using dispatch_conserves [OF bal0_squared, of Some "system Root :: (nat, unit) origin" 1 "- 1" 0 0]
    by (simp add: Let_def bal_cfg_def bal0_free)
qed

lemma bal0_reserve: "\<exists>t. reserve bal_cfg 0 v bal0 = (Inr (), t)" if "v \<le> 100"
  using that by (simp add: reserve_def Let_def bal0_free bal0_unlocked not_less [symmetric])

theorem reserve_unreserve_witness:
  "\<exists>t. reserve bal_cfg 0 40 bal0 = (Inr (), t) \<and> reserved_balance t 0 = 40
     \<and> ledger (snd (unreserve bal_cfg 0 40 t)) = ledger bal0"
proof -
  obtain t where t: "reserve bal_cfg 0 40 bal0 = (Inr (), t)" using bal0_reserve [of 40] by auto
  show ?thesis using reserve_unreserve [OF bal0_inv t] t by (simp add: bal0_free bal_cfg_def)
qed


theorem lock_restrains_witness:
  "\<exists>t. withdraw bal_cfg 0 40 WR_Transfer AllowDeath (set_lock 7 0 30 5 WR_Transfer bal0) = (Inr (NegativeImbalance 40), t)
     \<and> 30 \<le> free_balance t 0 \<and> locks t 0 = locks (set_lock 7 0 30 5 WR_Transfer bal0) 0"
proof -
  let ?s = "set_lock 7 0 30 5 WR_Transfer bal0"
  let ?l = "\<lparr>lock_id = 7, amount = 30, until = 5, reasons = WR_Transfer\<rparr>"
  have ls: "locks ?s 0 = [?l]" and now: "Number (System ?s) = 1" and f: "free_balance ?s 0 = 100" and v: "Vesting ?s = Map.empty"
    by (simp_all add: set_lock_def locks_def bal0_def bal_system_def Let_def free_balance_def)
  have "held_inv bal_cfg (bal0, [])" by (rule held_invI [OF bal0_accounts]) (simp_all add: head_room_def bal0_def bal_cfg_def)
  then have inv: "held_inv bal_cfg (?s, [])" by (rule held_same_ledger) (simp add: set_lock_def Let_def)
  have "checked_sub (100 :: u128) 40 = Some 60" by (simp add: checked_sub_Some_iff)
  then obtain t where t: "withdraw bal_cfg 0 40 WR_Transfer AllowDeath ?s = (Inr (NegativeImbalance 40), t)"
    and t': "t = snd (set_free_balance bal_cfg 0 60 ?s)"
    by (simp add: withdraw_def f ensure_can_withdraw_def vesting_balance_def v ls now word_le_nat_alt)
  have mem: "?l \<in> set (locks ?s 0)" and run: "Number (System ?s) < until ?l" by (simp_all add: ls now)
  have "ExistentialDeposit bal_cfg \<le> amount ?l \<longrightarrow> amount ?l \<le> free_balance t 0"
    using lock_restrains [OF mem run inv, where d = 1 and v = 40 and er = AllowDeath and t = t and rs = WR_Transfer
      and n = "NegativeImbalance 40" and lkp = Some and M = "[]"] t
    by (simp add: intersects_def)
  moreover have "locks t 0 = locks ?s 0" unfolding t' by (simp add: set_free_balance.simps bal_cfg_def)
  ultimately show ?thesis using t by (simp add: bal_cfg_def)
qed

theorem extend_lock_keeps_witness:
  "ensure_can_withdraw 0 10 WR_Transfer 90 (set_lock 7 0 30 5 WR_Transfer bal0) = Inr ()
   \<and> distinct (map lock_id (locks (set_lock 7 0 30 5 WR_Transfer bal0) 0))
   \<and> ensure_can_withdraw 0 10 WR_Transfer 90 (extend_lock 7 0 40 4 WR_Fee (set_lock 7 0 30 5 WR_Transfer bal0)) = Inr ()"
proof -
  let ?s = "set_lock 7 0 30 5 WR_Transfer bal0"
  have l: "locks ?s 0 = [\<lparr>lock_id = 7, amount = 30, until = 5, reasons = WR_Transfer\<rparr>]"
    by (simp add: set_lock_def locks_def bal0_def Let_def)
  have e: "ensure_can_withdraw 0 10 WR_Transfer 90 (extend_lock 7 0 40 4 WR_Fee ?s) = Inr ()"
    by (simp add: ensure_can_withdraw_iff extend_lock_def Let_def l)
      (simp add: locks_def vesting_balance_def set_lock_def bal0_def)
  show ?thesis using extend_lock_keeps [OF _ e] e l by simp
qed

theorem slash_exact_witness:
  "neg_peek (fst (fst (slash bal_cfg 0 130 bal0))) = 100 \<and> snd (fst (slash bal_cfg 0 130 bal0)) = 30"
proof -
  obtain n r t where e: "slash bal_cfg 0 130 bal0 = ((n, r), t)" by (metis prod.collapse)
  have "unat (neg_peek n) = unat (100 :: u128)" "unat r = unat (30 :: u128)"
    using slash_exact [OF bal0_inv e] by (simp_all add: bal0_free)
  then show ?thesis by (simp add: e word_eq_unatI)
qed

end
