(* ===== verification/Account_Nonces.thy ===== *)
theory Account_Nonces
  imports Balances_Steps Signed_Extensions
begin

text \<open>
  Replay protection across modules.  \<open>AccountNonce\<close> belongs to the system module, but not only
  \<open>CheckNonce\<close> writes it: \<open>inc_account_nonce\<close> is open to every module, and the balances module removes
  the nonce of an account it reaps.  A history is any sequence of these three writers; the raw
  storage calls of root are left out.
\<close>

section \<open>Histories\<close>

datatype 'acc nonce_event = Check 'acc u32 | Reap 'acc u128 | Inc 'acc

fun handle_event ::
  "'acc nonce_event \<Rightarrow> ('acc, 'hash, 'dig) balances_state \<Rightarrow> bool \<times> ('acc, 'hash, 'dig) balances_state" where
  "handle_event (Check who nonce) s =
     (let (r, sys) = check_nonce_pre_dispatch nonce who (System s) in (is_ok r, s\<lparr>System := sys\<rparr>))"
| "handle_event (Reap who dust) s = (False, reap_account who dust s)"
| "handle_event (Inc who) s = (False, s\<lparr>System := inc_account_nonce who (System s)\<rparr>)"

definition nonce_run ::
  "'acc nonce_event list \<Rightarrow> ('acc, 'hash, 'dig) balances_state \<Rightarrow> ('acc, 'hash, 'dig) balances_state" where
  "nonce_run es s = foldl (\<lambda>s e. snd (handle_event e s)) s es"

definition accepted :: "'acc nonce_event list \<Rightarrow> ('acc, 'hash, 'dig) balances_state \<Rightarrow> nat \<Rightarrow> bool" where
  "accepted es s i = fst (handle_event (es ! i) (nonce_run (take i es) s))"

text \<open>The events that raise the nonce of an account.\<close>

fun raises :: "'acc nonce_event list \<Rightarrow> ('acc, 'hash, 'dig) balances_state \<Rightarrow> 'acc \<Rightarrow> nat \<Rightarrow> bool" where
  "raises es s a k = (case es ! k of
     Check who nonce \<Rightarrow> who = a \<and> accepted es s k
   | Reap who dust \<Rightarrow> False
   | Inc who \<Rightarrow> who = a)"

section \<open>The nonce along a history\<close>

abbreviation nonce_at :: "'acc nonce_event list \<Rightarrow> ('acc, 'hash, 'dig) balances_state \<Rightarrow> 'acc \<Rightarrow> nat \<Rightarrow> u32" where
  "nonce_at es s a k \<equiv> account_nonce (System (nonce_run (take k es) s)) a"

lemma nonce_run_Suc:
  "k < length es \<Longrightarrow> nonce_run (take (Suc k) es) s = snd (handle_event (es ! k) (nonce_run (take k es) s))"
  by (simp add: nonce_run_def take_Suc_conv_app_nth)

lemma nonce_step:
  assumes "k < length es" and "\<And>d. es ! k \<noteq> Reap a d"
  shows "nonce_at es s a (Suc k) = nonce_at es s a k + (if raises es s a k then 1 else 0)"
  using assms
  by (cases "es ! k")
    (auto simp: nonce_run_Suc accepted_def check_nonce_pre_dispatch_def Let_def account_nonce_def inc_account_nonce_def
      reap_account_def balances_deposit_event_def)

lemma nonce_reaped: "k < length es \<Longrightarrow> es ! k = Reap a d \<Longrightarrow> nonce_at es s a (Suc k) = 0"
  by (simp add: nonce_run_Suc reap_account_def balances_deposit_event_def account_nonce_def)

lemma accepted_nonce: "accepted es s k \<Longrightarrow> es ! k = Check a n \<Longrightarrow> n = nonce_at es s a k"
  by (auto simp: accepted_def check_nonce_pre_dispatch_def Let_def split: if_splits)

lemma nonce_between:
  assumes "i \<le> j" and "j \<le> length es" and "\<And>k d. i \<le> k \<Longrightarrow> k < j \<Longrightarrow> es ! k \<noteq> Reap a d"
  shows "nonce_at es s a j = nonce_at es s a i + of_nat (card {k. i \<le> k \<and> k < j \<and> raises es s a k})"
  using assms
proof (induction j)
  case (Suc j)
  show ?case
  proof (cases "i = Suc j")
    case False
    then have ij: "i \<le> j" using Suc.prems(1) by simp
    let ?S = "\<lambda>j. {k. i \<le> k \<and> k < j \<and> raises es s a k}"
    have "?S (Suc j) = (if raises es s a j then insert j (?S j) else ?S j)"
      using ij by (auto simp: less_Suc_eq)
    moreover have "finite (?S j)" "j \<notin> ?S j" by simp_all
    ultimately have "card (?S (Suc j)) = card (?S j) + (if raises es s a j then 1 else 0)" by simp
    moreover have "nonce_at es s a (Suc j) = nonce_at es s a j + (if raises es s a j then 1 else 0)"
      by (rule nonce_step) (use Suc.prems ij in auto)
    moreover have "nonce_at es s a j = nonce_at es s a i + of_nat (card (?S j))"
      by (rule Suc.IH) (use Suc.prems ij in auto)
    ultimately show ?thesis by simp
  next
    case True
    then have "{k. i \<le> k \<and> k < Suc j \<and> raises es s a k} = {}" by auto
    then show ?thesis unfolding True [symmetric] by (simp only: card.empty) simp
  qed
qed (simp add: not_less)

section \<open>Replay protection\<close>

text \<open>
  C6 (nonce_no_replay): take any history of fewer than \<open>2\<^sup>32\<close> events, from any state, in which two
  transactions of one account are let through by \<open>CheckNonce\<close>, and the account is not reaped in
  between.  Then their nonces differ: the second is the first plus the number of accepted transactions
  and explicit increments of the account from the first on.  So the same transaction is only ever
  accepted again after its sender has been reaped, which sets the nonce back to zero.
\<close>

theorem nonce_no_replay:
  assumes "length es < 2 ^ 32" and "i < j" and "j < length es"
    and "es ! i = Check a n" and "accepted es s i" and "es ! j = Check a m" and "accepted es s j"
  shows "(\<exists>k d. i < k \<and> k < j \<and> es ! k = Reap a d \<and> nonce_at es s a (Suc k) = 0)
    \<or> m = n + of_nat (card {k. i \<le> k \<and> k < j \<and> raises es s a k}) \<and> m \<noteq> n"
proof (cases "\<exists>k d. i < k \<and> k < j \<and> es ! k = Reap a d")
  case True
  then obtain k d where "i < k" "k < j" "es ! k = Reap a d" by blast
  moreover have "nonce_at es s a (Suc k) = 0" by (rule nonce_reaped) (use calculation assms(3) in auto)
  ultimately show ?thesis by blast
next
  case False
  let ?S = "{k. i \<le> k \<and> k < j \<and> raises es s a k}"
  have "es ! k \<noteq> Reap a d" if "i \<le> k" "k < j" for k d
    using False that assms(4) by (cases "k = i") auto
  then have "nonce_at es s a j = nonce_at es s a i + of_nat (card ?S)"
    using nonce_between [of i j es a s] assms(2,3) by simp
  then have m: "m = n + of_nat (card ?S)"
    using accepted_nonce [OF assms(5,4)] accepted_nonce [OF assms(7,6)] by simp
  have "?S \<subseteq> {i..<j}" by auto
  then have "card ?S \<le> j - i" using card_mono [of "{i..<j}" ?S] by simp
  then have "card ?S < 2 ^ 32" using assms(1,3) by linarith
  then have u: "unat (of_nat (card ?S) :: u32) = card ?S" by (simp only: unat_of_nat_fits len_u32)
  have "i \<in> ?S" using assms(2,4,5) by simp
  then have "card ?S \<noteq> 0" by (auto simp: card_eq_0_iff)
  then have "(of_nat (card ?S) :: u32) \<noteq> 0" using u by (metis unat_0)
  then show ?thesis using m by simp
qed

section \<open>Witnesses\<close>

theorem nonce_no_replay_witness:
  "accepted [Check 1 0, Check 1 1, Check 1 2] bal0 0 \<and> accepted [Check 1 0, Check 1 1, Check 1 2] bal0 2
   \<and> (2 :: u32) = 0 + of_nat (card {k. 0 \<le> k \<and> k < 2 \<and> raises [Check 1 0, Check 1 1, Check 1 2] bal0 1 k})"
proof -
  let ?es = "[Check 1 0, Check 1 1, Check 1 2] :: nat nonce_event list"
  have acc: "accepted ?es bal0 0" "accepted ?es bal0 2"
    by (simp_all add: accepted_def nonce_run_def check_nonce_pre_dispatch_def account_nonce_def bal0_def bal_system_def)
  have no: "\<not> (\<exists>k d. 0 < k \<and> k < 2 \<and> ?es ! k = Reap 1 d)"
  proof
    assume "\<exists>k d. 0 < k \<and> k < 2 \<and> ?es ! k = Reap 1 d"
    then obtain k d where "0 < k" "k < 2" "?es ! k = Reap 1 d" by blast
    moreover from this have "k = 1" by simp
    ultimately show False by simp
  qed
  have "(2 :: u32) = 0 + of_nat (card {k. 0 \<le> k \<and> k < 2 \<and> raises ?es bal0 1 k})"
    using nonce_no_replay [of ?es 0 2 1 0 bal0 2] acc no by auto
  then show ?thesis using acc by blast
qed

text \<open>After reaping, the first transaction of the account is accepted a second time.\<close>

lemma reaped_replays:
  "accepted [Check 1 0, Reap 1 5, Check 1 0] bal0 0 \<and> accepted [Check 1 0, Reap 1 5, Check 1 0] bal0 2"
  by (simp add: accepted_def nonce_run_def check_nonce_pre_dispatch_def account_nonce_def bal0_def bal_system_def
      reap_account_def balances_deposit_event_def)

end
