(* ===== verification/Fork_Tree.thy ===== *)
theory Fork_Tree
  imports Substrate_Prelude "HOL-Library.Multiset"
begin

text \<open>
  The fork tree (\<open>utils/fork-tree/src/lib.rs\<close>): blocks not yet finalised, as a forest.  The
  function \<open>is_descendent_of\<close> belongs to the client and may fail; it is a parameter of every
  operation.  A loop that indexes outside the vector of roots would panic; that is \<open>None\<close>.
\<close>

section \<open>Data\<close>

datatype 'e fork_error = Duplicate | UnfinalizedAncestor | Revert | Client 'e

datatype 'v finalization_result = Changed "'v option" | Unchanged

datatype ('h, 'n, 'v) node =
  Node (nhash: 'h) (nnumber: 'n) (ndata: 'v) (children: "('h, 'n, 'v) node list")

record ('h, 'n, 'v) fork_tree =
  roots :: "('h, 'n, 'v) node list"
  best_finalized_number :: "'n option"

datatype 't find_outcome = Found 't | Failure bool | Abort

type_synonym ('h, 'e) is_descendent_of = "'h \<Rightarrow> 'h \<Rightarrow> 'e + bool"

text \<open>\<open>unwrap_or(false)\<close>, \<open>Vec::retain\<close> with its flag, and \<open>Vec::swap_remove\<close>.\<close>

definition unwrap_or_false :: "'e + bool \<Rightarrow> bool" where
  "unwrap_or_false r = (case r of Inl _ \<Rightarrow> False | Inr b \<Rightarrow> b)"

definition retain :: "('a \<Rightarrow> bool) \<Rightarrow> 'a list \<Rightarrow> 'a list \<times> bool" where
  "retain p xs = (filter p xs, \<not> list_all p xs)"

definition swap_remove :: "'a list \<Rightarrow> nat \<Rightarrow> 'a list" where
  "swap_remove xs i = butlast (xs[i := last xs])"

section \<open>Nodes\<close>

fun node_import :: "('h, 'e) is_descendent_of \<Rightarrow> 'h \<Rightarrow> 'n::linorder \<Rightarrow> 'v \<Rightarrow> ('h, 'n, 'v) node
    \<Rightarrow> ('e fork_error + ('h \<times> 'n \<times> 'v) option) \<times> ('h, 'n, 'v) node"
  and children_import :: "('h, 'e) is_descendent_of \<Rightarrow> 'h \<Rightarrow> 'n::linorder \<Rightarrow> 'v \<Rightarrow> ('h, 'n, 'v) node list
    \<Rightarrow> ('e fork_error + ('h \<times> 'n \<times> 'v) option) \<times> ('h, 'n, 'v) node list"
where
  "node_import isd h n d (Node sh sn sd cs) =
     (if sh = h then (Inl Duplicate, Node sh sn sd cs)
      else if n \<le> sn then (Inr (Some (h, n, d)), Node sh sn sd cs)
      else case children_import isd h n d cs of
        (Inl e, cs') \<Rightarrow> (Inl e, Node sh sn sd cs')
      | (Inr None, cs') \<Rightarrow> (Inr None, Node sh sn sd cs')
      | (Inr (Some (h', n', d')), cs') \<Rightarrow>
          (case isd sh h' of
             Inl e \<Rightarrow> (Inl (Client e), Node sh sn sd cs')
           | Inr b \<Rightarrow>
               if b then (Inr None, Node sh sn sd (cs' @ [Node h' n' d' []]))
               else (Inr (Some (h', n', d')), Node sh sn sd cs')))"
| "children_import isd h n d [] = (Inr (Some (h, n, d)), [])"
| "children_import isd h n d (c # cs) =
     (case node_import isd h n d c of
        (Inl e, c') \<Rightarrow> (Inl e, c' # cs)
      | (Inr None, c') \<Rightarrow> (Inr None, c' # cs)
      | (Inr (Some (h', n', d')), c') \<Rightarrow>
          (case children_import isd h' n' d' cs of (r, cs') \<Rightarrow> (r, c' # cs')))"

text \<open>
  The search among the children returns \<open>Inl\<close> when it ends the search of the node too, and
  otherwise whether a child is known to be an ancestor.
\<close>

fun node_find_node_where :: "('h, 'e) is_descendent_of \<Rightarrow> 'h \<Rightarrow> 'n::linorder \<Rightarrow> ('v \<Rightarrow> bool) \<Rightarrow> ('h, 'n, 'v) node
    \<Rightarrow> 'e fork_error + ('h, 'n, 'v) node find_outcome"
  and children_find :: "('h, 'e) is_descendent_of \<Rightarrow> 'h \<Rightarrow> 'n::linorder \<Rightarrow> ('v \<Rightarrow> bool) \<Rightarrow> ('h, 'n, 'v) node list
    \<Rightarrow> ('e fork_error + ('h, 'n, 'v) node find_outcome) + bool"
where
  "node_find_node_where isd h n p (Node sh sn sd cs) =
     (if n < sn then Inr (Failure False)
      else case children_find isd h n p cs of
        Inl r \<Rightarrow> r
      | Inr known_descendent_of \<Rightarrow>
          (case (if known_descendent_of then Inr True else isd sh h) of
             Inl e \<Rightarrow> Inl (Client e)
           | Inr is_desc \<Rightarrow>
               if is_desc \<and> p sd then Inr (Found (Node sh sn sd cs)) else Inr (Failure is_desc)))"
| "children_find isd h n p [] = Inr False"
| "children_find isd h n p (c # cs) =
     (case node_find_node_where isd h n p c of
        Inl e \<Rightarrow> Inl (Inl e)
      | Inr Abort \<Rightarrow> Inl (Inr Abort)
      | Inr (Found x) \<Rightarrow> Inl (Inr (Found x))
      | Inr (Failure True) \<Rightarrow> Inr True
      | Inr (Failure False) \<Rightarrow> children_find isd h n p cs)"

section \<open>Trees\<close>

definition fork_tree_new :: "('h, 'n, 'v) fork_tree" where
  "fork_tree_new = \<lparr>roots = [], best_finalized_number = None\<rparr>"

definition reverts :: "'n::linorder \<Rightarrow> ('h, 'n, 'v) fork_tree \<Rightarrow> bool" where
  "reverts n t = (case best_finalized_number t of Some b \<Rightarrow> n \<le> b | None \<Rightarrow> False)"

text \<open>The loop over the roots repeats the check of \<open>Node::import\<close> before calling it.\<close>

fun roots_import :: "('h, 'e) is_descendent_of \<Rightarrow> 'h \<Rightarrow> 'n::linorder \<Rightarrow> 'v \<Rightarrow> ('h, 'n, 'v) node list
    \<Rightarrow> ('e fork_error + ('h \<times> 'n \<times> 'v) option) \<times> ('h, 'n, 'v) node list" where
  "roots_import isd h n d [] = (Inr (Some (h, n, d)), [])"
| "roots_import isd h n d (r # rs) =
     (if nhash r = h then (Inl Duplicate, r # rs)
      else case node_import isd h n d r of
        (Inl e, r') \<Rightarrow> (Inl e, r' # rs)
      | (Inr None, r') \<Rightarrow> (Inr None, r' # rs)
      | (Inr (Some (h', n', d')), r') \<Rightarrow>
          (case roots_import isd h' n' d' rs of (res, rs') \<Rightarrow> (res, r' # rs')))"

definition fork_import :: "('h, 'e) is_descendent_of \<Rightarrow> 'h \<Rightarrow> 'n::linorder \<Rightarrow> 'v \<Rightarrow> ('h, 'n, 'v) fork_tree
    \<Rightarrow> ('e fork_error + bool) \<times> ('h, 'n, 'v) fork_tree" where
  "fork_import isd h n d t =
     (if reverts n t then (Inl Revert, t)
      else case roots_import isd h n d (roots t) of
        (Inl e, rs) \<Rightarrow> (Inl e, t\<lparr>roots := rs\<rparr>)
      | (Inr None, rs) \<Rightarrow> (Inr False, t\<lparr>roots := rs\<rparr>)
      | (Inr (Some (h', n', d')), rs) \<Rightarrow> (Inr True, t\<lparr>roots := rs @ [Node h' n' d' []]\<rparr>))"

definition fork_roots :: "('h, 'n, 'v) fork_tree \<Rightarrow> ('h \<times> 'n \<times> 'v) list" where
  "fork_roots t = map (\<lambda>node. (nhash node, nnumber node, ndata node)) (roots t)"

lemma size_children: "size_list size (children x) < size x"
  by (cases x) simp

lemma size_list_append: "size_list f (xs @ ys) = size_list f xs + size_list f ys"
  by (induction xs) auto

text \<open>\<open>ForkTreeIterator\<close>: the stack grows at the end of the vector.\<close>

function node_iter_stack :: "('h, 'n, 'v) node list \<Rightarrow> ('h, 'n, 'v) node list" where
  "node_iter_stack stack =
     (if stack = [] then []
      else last stack # node_iter_stack (butlast stack @ children (last stack)))"
  by auto
termination
proof (relation "measure (size_list size)", goal_cases)
  case (2 stack)
  then obtain xs x where "stack = xs @ [x]" by (metis append_butlast_last_id)
  then show ?case using size_children [of x] by (simp add: size_list_append)
qed simp

declare node_iter_stack.simps [simp del]

definition node_iter :: "('h, 'n, 'v) fork_tree \<Rightarrow> ('h, 'n, 'v) node list" where
  "node_iter t = node_iter_stack (roots t)"

definition fork_iter :: "('h, 'n, 'v) fork_tree \<Rightarrow> ('h \<times> 'n \<times> 'v) list" where
  "fork_iter t = map (\<lambda>node. (nhash node, nnumber node, ndata node)) (node_iter t)"

fun roots_find :: "('h, 'e) is_descendent_of \<Rightarrow> 'h \<Rightarrow> 'n::linorder \<Rightarrow> ('v \<Rightarrow> bool) \<Rightarrow> ('h, 'n, 'v) node list
    \<Rightarrow> 'e fork_error + ('h, 'n, 'v) node option" where
  "roots_find isd h n p [] = Inr None"
| "roots_find isd h n p (r # rs) =
     (case node_find_node_where isd h n p r of
        Inl e \<Rightarrow> Inl e
      | Inr (Found x) \<Rightarrow> Inr (Some x)
      | Inr _ \<Rightarrow> roots_find isd h n p rs)"

definition find_node_where :: "('h, 'e) is_descendent_of \<Rightarrow> 'h \<Rightarrow> 'n::linorder \<Rightarrow> ('v \<Rightarrow> bool) \<Rightarrow> ('h, 'n, 'v) fork_tree
    \<Rightarrow> 'e fork_error + ('h, 'n, 'v) node option" where
  "find_node_where isd h n p t = roots_find isd h n p (roots t)"

definition fork_prune :: "('h, 'e) is_descendent_of \<Rightarrow> 'h \<Rightarrow> 'n::linorder \<Rightarrow> ('v \<Rightarrow> bool) \<Rightarrow> ('h, 'n, 'v) fork_tree
    \<Rightarrow> ('e fork_error + unit) \<times> ('h, 'n, 'v) fork_tree" where
  "fork_prune isd h n p t =
     (case find_node_where isd h n p t of
        Inl e \<Rightarrow> (Inl e, t)
      | Inr None \<Rightarrow> (Inr (), t)
      | Inr (Some root) \<Rightarrow>
          let kept = take 1 (filter (\<lambda>node. nnumber node = n \<and> nhash node = h
                       \<or> nnumber node < n \<and> unwrap_or_false (isd (nhash node) h)) (children root))
          in (Inr (), t\<lparr>roots := [Node (nhash root) (nnumber root) (ndata root) kept]\<rparr>))"

definition finalize_root_at :: "nat \<Rightarrow> ('h, 'n, 'v) fork_tree \<Rightarrow> 'v \<times> ('h, 'n, 'v) fork_tree" where
  "finalize_root_at position t =
     (let node = roots t ! position
      in (ndata node, t\<lparr>roots := children node, best_finalized_number := Some (nnumber node)\<rparr>))"

text \<open>\<open>Iterator::position\<close>.\<close>

fun position :: "('a \<Rightarrow> bool) \<Rightarrow> 'a list \<Rightarrow> nat option" where
  "position p [] = None"
| "position p (x # xs) = (if p x then Some 0 else map_option Suc (position p xs))"

definition finalize_root :: "'h \<Rightarrow> ('h, 'n, 'v) fork_tree \<Rightarrow> 'v option \<times> ('h, 'n, 'v) fork_tree" where
  "finalize_root h t =
     (case position (\<lambda>node. nhash node = h) (roots t) of
        None \<Rightarrow> (None, t)
      | Some i \<Rightarrow> (case finalize_root_at i t of (d, t') \<Rightarrow> (Some d, t')))"

text \<open>The loop that refuses to finalise a descendent of a root.\<close>

fun descends_from_root :: "('h, 'e) is_descendent_of \<Rightarrow> 'h \<Rightarrow> 'n::linorder \<Rightarrow> ('h, 'n, 'v) node list
    \<Rightarrow> 'e fork_error + unit" where
  "descends_from_root isd h n [] = Inr ()"
| "descends_from_root isd h n (r # rs) =
     (if n > nnumber r
      then case isd (nhash r) h of
             Inl e \<Rightarrow> Inl (Client e)
           | Inr True \<Rightarrow> Inl UnfinalizedAncestor
           | Inr False \<Rightarrow> descends_from_root isd h n rs
      else descends_from_root isd h n rs)"

definition fork_finalize :: "('h, 'e) is_descendent_of \<Rightarrow> 'h \<Rightarrow> 'n::linorder \<Rightarrow> ('h, 'n, 'v) fork_tree
    \<Rightarrow> ('e fork_error + 'v finalization_result) \<times> ('h, 'n, 'v) fork_tree" where
  "fork_finalize isd h n t =
     (if reverts n t then (Inl Revert, t)
      else case finalize_root h t of
        (Some d, t') \<Rightarrow> (Inr (Changed (Some d)), t')
      | (None, _) \<Rightarrow>
          (case descends_from_root isd h n (roots t) of
             Inl e \<Rightarrow> (Inl e, t)
           | Inr _ \<Rightarrow>
               let (rs, changed) = retain (\<lambda>r. nnumber r > n \<and> unwrap_or_false (isd h (nhash r))) (roots t)
               in (Inr (if changed then Changed None else Unchanged),
                   t\<lparr>roots := rs, best_finalized_number := Some n\<rparr>)))"

definition rotate_last :: "'a list \<Rightarrow> 'a list" where
  "rotate_last xs = (if xs = [] then [] else last xs # butlast xs)"

lemma mset_rotate_last [simp]: "mset (rotate_last xs) = mset xs"
  by (cases xs rule: rev_cases) (simp_all add: rotate_last_def)

lemma swap_remove_split: "swap_remove (pre @ x # post) (length pre) = pre @ rotate_last post"
  by (cases post rule: rev_cases) (simp_all add: swap_remove_def rotate_last_def butlast_append list_update_append)

lemma swap_remove_eq:
  assumes "i < length xs"
  shows "swap_remove xs i = take i xs @ rotate_last (drop (Suc i) xs)"
  using swap_remove_split [of "take i xs" "xs ! i" "drop (Suc i) xs"] assms
  by (simp add: id_take_nth_drop [OF assms, symmetric])

lemma drop_swap_remove: "i < length xs \<Longrightarrow> drop i (swap_remove xs i) = rotate_last (drop (Suc i) xs)"
  by (simp add: swap_remove_eq)

lemma length_swap_remove: "i < length xs \<Longrightarrow> length (swap_remove xs i) = length xs - 1"
  by (simp add: swap_remove_def)

lemma size_list_mset: "mset xs = mset ys \<Longrightarrow> size_list f xs = size_list f ys"
  by (metis mset_map size_list_conv_sum_list size_mset sum_mset_sum_list)

lemma unvisited_shrinks:
  assumes lt: "idx < length rs"
  shows "size_list size (drop (Suc idx) rs) < size_list size (drop idx rs)"
    and "size_list size (drop idx (swap_remove rs idx)) < size_list size (drop idx rs)"
    and "size_list size (drop idx (swap_remove rs idx @ children (rs ! idx))) < size_list size (drop idx rs)"
proof -
  have "size_list size (drop idx (swap_remove rs idx)) = size_list size (drop (Suc idx) rs)"
    by (rule size_list_mset) (simp add: drop_swap_remove [OF lt])
  moreover have "size_list size (drop idx rs) = Suc (size (rs ! idx) + size_list size (drop (Suc idx) rs))"
    using lt by (simp add: Cons_nth_drop_Suc [symmetric])
  ultimately show "size_list size (drop (Suc idx) rs) < size_list size (drop idx rs)"
    "size_list size (drop idx (swap_remove rs idx)) < size_list size (drop idx rs)"
    "size_list size (drop idx (swap_remove rs idx @ children (rs ! idx))) < size_list size (drop idx rs)"
    using lt size_children [of "rs ! idx"] by (simp_all add: size_list_append length_swap_remove)
qed

text \<open>The loop of \<open>finalize_with_ancestors\<close>; it returns the index at which it meets the finalised root.\<close>

function ancestors_loop :: "('h, 'e) is_descendent_of \<Rightarrow> 'h \<Rightarrow> 'n::linorder \<Rightarrow> nat \<Rightarrow> ('h, 'n, 'v) node list \<Rightarrow> bool
    \<Rightarrow> (nat option \<times> ('h, 'n, 'v) node list \<times> bool) option" where
  "ancestors_loop isd h n idx rs changed =
     (if idx = length rs then Some (None, rs, changed)
      else if idx > length rs then None
      else let root = rs ! idx;
               is_finalized = (nhash root = h);
               is_descendant = (\<not> is_finalized \<and> nnumber root > n \<and> unwrap_or_false (isd h (nhash root)));
               is_ancestor = (\<not> is_finalized \<and> \<not> is_descendant \<and> nnumber root < n
                              \<and> unwrap_or_false (isd (nhash root) h))
           in if is_finalized then Some (Some idx, rs, changed)
              else if is_descendant then ancestors_loop isd h n (idx + 1) rs changed
              else if is_ancestor
              then ancestors_loop isd h n idx (swap_remove rs idx @ children root) True
              else ancestors_loop isd h n idx (swap_remove rs idx) True)"
  by auto
termination
proof (relation "measure (\<lambda>(isd, h, n, idx, rs, changed). size_list size (drop idx rs))", goal_cases)
  case (2 isd h n idx rs changed)
  then show ?case using unvisited_shrinks(1) [of idx rs] by simp
next
  case (3 isd h n idx rs changed)
  then show ?case using unvisited_shrinks(3) [of idx rs] by simp
next
  case (4 isd h n idx rs changed)
  then show ?case using unvisited_shrinks(2) [of idx rs] by simp
qed simp

declare ancestors_loop.simps [simp del]

definition finalize_with_ancestors :: "('h, 'e) is_descendent_of \<Rightarrow> 'h \<Rightarrow> 'n::linorder \<Rightarrow> ('h, 'n, 'v) fork_tree
    \<Rightarrow> (('e fork_error + 'v finalization_result) \<times> ('h, 'n, 'v) fork_tree) option" where
  "finalize_with_ancestors isd h n t =
     (if reverts n t then Some (Inl Revert, t)
      else case finalize_root h t of
        (Some d, t') \<Rightarrow> Some (Inr (Changed (Some d)), t')
      | (None, _) \<Rightarrow>
          (case ancestors_loop isd h n 0 (roots t) False of
             None \<Rightarrow> None
           | Some (Some idx, rs, _) \<Rightarrow>
               (case finalize_root_at idx (t\<lparr>roots := rs\<rparr>) of (d, t') \<Rightarrow> Some (Inr (Changed (Some d)), t'))
           | Some (None, rs, changed) \<Rightarrow>
               Some (Inr (if changed then Changed None else Unchanged),
                     t\<lparr>roots := rs, best_finalized_number := Some n\<rparr>)))"

text \<open>The check of the children of the node that is about to be finalised.\<close>

fun past_children :: "('h, 'e) is_descendent_of \<Rightarrow> 'h \<Rightarrow> 'n::linorder \<Rightarrow> ('h, 'n, 'v) node list
    \<Rightarrow> 'e fork_error + unit" where
  "past_children isd h n [] = Inr ()"
| "past_children isd h n (c # cs) =
     (if nnumber c \<le> n
      then case isd (nhash c) h of
             Inl e \<Rightarrow> Inl (Client e)
           | Inr True \<Rightarrow> Inl UnfinalizedAncestor
           | Inr False \<Rightarrow> past_children isd h n cs
      else past_children isd h n cs)"

text \<open>
  The first node of a list that passes the predicate and is the finalised block or an ancestor of
  it, with its position; both functions below search with this loop.
\<close>

fun find_finalized :: "('h, 'e) is_descendent_of \<Rightarrow> 'h \<Rightarrow> 'n::linorder \<Rightarrow> ('v \<Rightarrow> bool) \<Rightarrow> ('h, 'n, 'v) node list
    \<Rightarrow> 'e fork_error + nat option" where
  "find_finalized isd h n p [] = Inr None"
| "find_finalized isd h n p (x # xs) =
     (if p (ndata x)
      then case (if nhash x = h then Inr True else isd (nhash x) h) of
             Inl e \<Rightarrow> Inl (Client e)
           | Inr True \<Rightarrow> map_sum id (\<lambda>_. Some 0) (past_children isd h n (children x))
           | Inr False \<Rightarrow> map_sum id (map_option Suc) (find_finalized isd h n p xs)
      else map_sum id (map_option Suc) (find_finalized isd h n p xs))"

definition finalizes_any_with_descendent_if ::
  "('h, 'e) is_descendent_of \<Rightarrow> 'h \<Rightarrow> 'n::linorder \<Rightarrow> ('v \<Rightarrow> bool) \<Rightarrow> ('h, 'n, 'v) fork_tree
    \<Rightarrow> 'e fork_error + bool option" where
  "finalizes_any_with_descendent_if isd h n p t =
     (if reverts n t then Inl Revert
      else map_sum id (map_option (\<lambda>i. list_ex (\<lambda>root. nhash root = nhash (node_iter t ! i)) (roots t)))
             (find_finalized isd h n p (node_iter t)))"

definition finalize_with_descendent_if ::
  "('h, 'e) is_descendent_of \<Rightarrow> 'h \<Rightarrow> 'n::linorder \<Rightarrow> ('v \<Rightarrow> bool) \<Rightarrow> ('h, 'n, 'v) fork_tree
    \<Rightarrow> ('e fork_error + 'v finalization_result) \<times> ('h, 'n, 'v) fork_tree" where
  "finalize_with_descendent_if isd h n p t =
     (if reverts n t then (Inl Revert, t)
      else case find_finalized isd h n p (roots t) of
        Inl e \<Rightarrow> (Inl e, t)
      | Inr pos \<Rightarrow>
          let (node_data, t1) = (case pos of
                 None \<Rightarrow> (None, t)
               | Some i \<Rightarrow> (case finalize_root_at i t of (d, t') \<Rightarrow> (Some d, t')));
              (rs, changed) = retain (\<lambda>r. nnumber r > n \<and> unwrap_or_false (isd h (nhash r))
                                \<or> nnumber r = n \<and> nhash r = h
                                \<or> unwrap_or_false (isd (nhash r) h)) (roots t1);
              t2 = t1\<lparr>roots := rs, best_finalized_number := Some n\<rparr>
          in (Inr (case (node_data, changed) of
                     (Some d, _) \<Rightarrow> Changed (Some d)
                   | (None, True) \<Rightarrow> Changed None
                   | (None, False) \<Rightarrow> Unchanged), t2))"

end
