(* ===== verification/Fork_Tree_Laws.thy ===== *)
theory Fork_Tree_Laws
  imports Fork_Tree
begin

text \<open>
  Laws of the fork tree for a client that answers ancestry questions: the forest keeps every block
  below its closest stored ancestor, and the searches and finalisations follow from that.
\<close>

section \<open>What a forest holds\<close>

definition entry :: "('h, 'n, 'v) node \<Rightarrow> 'h \<times> 'n \<times> 'v" where
  "entry x = (nhash x, nnumber x, ndata x)"

fun entries :: "('h, 'n, 'v) node \<Rightarrow> ('h \<times> 'n \<times> 'v) list" where
  "entries (Node h n d cs) = (h, n, d) # concat (map entries cs)"

definition forest_entries :: "('h, 'n, 'v) node list \<Rightarrow> ('h \<times> 'n \<times> 'v) list" where
  "forest_entries rs = concat (map entries rs)"

lemma forest_entries_simps [simp]:
  "forest_entries [] = []" "forest_entries (x # xs) = entries x @ forest_entries xs"
  "forest_entries (xs @ ys) = forest_entries xs @ forest_entries ys"
  by (simp_all add: forest_entries_def)

lemma entries_node: "entries x = entry x # forest_entries (children x)"
  by (cases x) (simp add: entry_def forest_entries_def)

lemma forest_entries_sum: "mset (forest_entries xs) = (\<Sum>x\<in>#mset xs. mset (entries x))"
  by (induction xs) simp_all

lemma forest_entries_mset: "mset xs = mset ys \<Longrightarrow> mset (forest_entries xs) = mset (forest_entries ys)"
  by (simp add: forest_entries_sum)

lemma in_forest_entries: "e \<in> set (forest_entries rs) \<longleftrightarrow> (\<exists>x\<in>set rs. e \<in> set (entries x))"
  by (auto simp: forest_entries_def)

abbreviation forest_hashes :: "('h, 'n, 'v) node list \<Rightarrow> 'h set" where
  "forest_hashes rs \<equiv> fst ` set (forest_entries rs)"

text \<open>The iterator pops the last node of its stack and pushes the children: a preorder from the right.\<close>

fun preorder :: "('h, 'n, 'v) node \<Rightarrow> ('h, 'n, 'v) node list" where
  "preorder (Node h n d cs) = Node h n d cs # concat (rev (map preorder cs))"

lemma preorder_children: "preorder x = x # concat (map preorder (rev (children x)))"
  by (cases x) (simp add: rev_map)

lemma node_iter_stack_preorder: "node_iter_stack stack = concat (map preorder (rev stack))"
proof (induction stack rule: node_iter_stack.induct)
  case (1 stack)
  show ?case
  proof (cases stack rule: rev_cases)
    case Nil
    then show ?thesis unfolding node_iter_stack.simps [of stack] by simp
  next
    case (snoc xs x)
    have "node_iter_stack stack = x # node_iter_stack (xs @ children x)"
      unfolding node_iter_stack.simps [of stack] by (simp add: snoc)
    moreover have "node_iter_stack (xs @ children x) = concat (map preorder (rev (xs @ children x)))"
      using 1 by (simp add: snoc)
    ultimately show ?thesis by (simp add: snoc preorder_children [of x])
  qed
qed

lemma entry_Node [simp]: "entry (Node h n d cs) = (h, n, d)"
  by (simp add: entry_def)

lemma mset_preorder: "image_mset entry (mset (preorder x)) = mset (entries x)"
proof (induction x)
  case (Node h n d cs)
  have "image_mset entry (mset (concat (rev (map preorder cs)))) = mset (concat (map entries cs))"
    using Node by (induction cs) auto
  then show ?case by simp
qed

lemma mset_node_iter: "mset (map entry (node_iter t)) = mset (forest_entries (roots t))"
proof -
  have "mset (map entry (concat (map preorder rs))) = mset (forest_entries rs)" for rs :: "('a, 'b, 'c) node list"
    by (induction rs) (simp_all add: mset_preorder)
  then show ?thesis
    by (simp add: node_iter_def node_iter_stack_preorder) (metis forest_entries_mset mset_rev)
qed

section \<open>The ancestry a client reports\<close>

text \<open>
  \<open>isd s\<close> answers for the blocks the client knows in its state \<open>s\<close>: \<open>desc s a b\<close> says that \<open>b\<close> is a
  proper descendant of \<open>a\<close>.
\<close>

locale ancestry_client =
  fixes ok :: "'s \<Rightarrow> bool" and known :: "'s \<Rightarrow> 'h set" and desc :: "'s \<Rightarrow> 'h \<Rightarrow> 'h \<Rightarrow> bool"
    and num :: "'s \<Rightarrow> 'h \<Rightarrow> 'n::linorder" and isd :: "'s \<Rightarrow> ('h, 'e) is_descendent_of"
  assumes answers: "ok s \<Longrightarrow> a \<in> known s \<Longrightarrow> b \<in> known s \<Longrightarrow> isd s a b = Inr (desc s a b)"
    and desc_trans: "ok s \<Longrightarrow> {a, b, c} \<subseteq> known s \<Longrightarrow> desc s a b \<Longrightarrow> desc s b c \<Longrightarrow> desc s a c"
    and desc_linear: "ok s \<Longrightarrow> {a, b, c} \<subseteq> known s \<Longrightarrow> desc s a c \<Longrightarrow> desc s b c \<Longrightarrow> a = b \<or> desc s a b \<or> desc s b a"
    and desc_num: "ok s \<Longrightarrow> {a, b} \<subseteq> known s \<Longrightarrow> desc s a b \<Longrightarrow> num s a < num s b"

text \<open>The forest invariant, relative to an ancestry and a numbering.\<close>

definition unrelated :: "('h \<Rightarrow> 'h \<Rightarrow> bool) \<Rightarrow> ('h, 'n, 'v) node list \<Rightarrow> bool" where
  "unrelated ds rs \<longleftrightarrow> distinct (map nhash rs) \<and> (\<forall>x\<in>set rs. \<forall>y\<in>set rs. \<not> ds (nhash x) (nhash y))"

fun node_ok :: "'h set \<Rightarrow> ('h \<Rightarrow> 'h \<Rightarrow> bool) \<Rightarrow> ('h \<Rightarrow> 'n) \<Rightarrow> ('h, 'n, 'v) node \<Rightarrow> bool" where
  "node_ok K ds nm (Node h n d cs) \<longleftrightarrow> h \<in> K \<and> n = nm h \<and> (\<forall>e\<in>set (forest_entries cs). ds h (fst e))
     \<and> (\<forall>c\<in>set cs. node_ok K ds nm c) \<and> unrelated ds cs"

definition forest_ok :: "'h set \<Rightarrow> ('h \<Rightarrow> 'h \<Rightarrow> bool) \<Rightarrow> ('h \<Rightarrow> 'n) \<Rightarrow> ('h, 'n, 'v) node list \<Rightarrow> bool" where
  "forest_ok K ds nm rs \<longleftrightarrow> (\<forall>x\<in>set rs. node_ok K ds nm x) \<and> unrelated ds rs"

lemma node_ok_iff: "node_ok K ds nm x \<longleftrightarrow> nhash x \<in> K \<and> nnumber x = nm (nhash x)
    \<and> (\<forall>e\<in>set (forest_entries (children x)). ds (nhash x) (fst e)) \<and> forest_ok K ds nm (children x)"
  by (cases x) (auto simp: forest_ok_def)

lemma node_ok_children: "node_ok K ds nm (Node h n d cs) \<Longrightarrow> forest_ok K ds nm cs"
  by (simp add: forest_ok_def)

lemma forest_ok_mem: "forest_ok K ds nm rs \<Longrightarrow> x \<in> set rs \<Longrightarrow> node_ok K ds nm x"
  by (simp add: forest_ok_def)

lemma node_okI: "h \<in> K \<Longrightarrow> n = nm h \<Longrightarrow> \<forall>e\<in>set (forest_entries cs). ds h (fst e) \<Longrightarrow> forest_ok K ds nm cs \<Longrightarrow>
    node_ok K ds nm (Node h n d cs)"
  by (simp add: forest_ok_def)

lemma forest_ok_Nil [simp]: "forest_ok K ds nm []"
  by (simp add: forest_ok_def unrelated_def)

lemma forest_ok_Cons: "forest_ok K ds nm (x # xs) \<longleftrightarrow> node_ok K ds nm x \<and> forest_ok K ds nm xs
    \<and> \<not> ds (nhash x) (nhash x)
    \<and> (\<forall>y\<in>set xs. nhash y \<noteq> nhash x \<and> \<not> ds (nhash x) (nhash y) \<and> \<not> ds (nhash y) (nhash x))"
  by (auto simp: forest_ok_def unrelated_def image_iff)

lemma forest_ok_mset:
  assumes "mset xs = mset ys"
  shows "forest_ok K ds nm xs = forest_ok K ds nm ys"
proof -
  have "set xs = set ys" using assms by (rule mset_eq_setD)
  moreover have "distinct (map nhash xs) = distinct (map nhash ys)"
    using assms by (intro mset_eq_imp_distinct_iff) simp
  ultimately show ?thesis by (simp add: forest_ok_def unrelated_def)
qed

lemma forest_ok_append: "forest_ok K ds nm (xs @ ys) \<longleftrightarrow> forest_ok K ds nm xs \<and> forest_ok K ds nm ys
    \<and> (\<forall>x\<in>set xs. \<forall>y\<in>set ys. nhash x \<noteq> nhash y \<and> \<not> ds (nhash x) (nhash y) \<and> \<not> ds (nhash y) (nhash x))"
proof -
  have "distinct (map nhash xs @ map nhash ys) \<longleftrightarrow> distinct (map nhash xs) \<and> distinct (map nhash ys)
      \<and> (\<forall>x\<in>set xs. \<forall>y\<in>set ys. nhash x \<noteq> nhash y)" by fastforce
  then show ?thesis unfolding forest_ok_def unrelated_def map_append set_append by blast
qed

lemma node_ok_known: "node_ok K ds nm x \<Longrightarrow> e \<in> set (entries x) \<Longrightarrow> fst e \<in> K"
proof (induction x)
  case (Node h n d cs)
  then consider "e = (h, n, d)" | c where "c \<in> set cs" "e \<in> set (entries c)" by auto
  then show ?case using Node by cases auto
qed

lemma node_ok_number: "node_ok K ds nm x \<Longrightarrow> e \<in> set (entries x) \<Longrightarrow> fst (snd e) = nm (fst e)"
proof (induction x)
  case (Node h n d cs)
  then consider "e = (h, n, d)" | c where "c \<in> set cs" "e \<in> set (entries c)" by auto
  then show ?case using Node by cases auto
qed

lemma node_ok_below: "node_ok K ds nm x \<Longrightarrow> e \<in> set (entries x) \<Longrightarrow> fst e = nhash x \<or> ds (nhash x) (fst e)"
  by (auto simp: node_ok_iff entries_node entry_def)

lemma node_ok_hash_below: "node_ok K ds nm x \<Longrightarrow> h \<in> fst ` set (entries x) \<Longrightarrow> ds (nhash x) h \<or> nhash x = h"
  using node_ok_below by fastforce

lemma nhash_entries [simp]: "entry x \<in> set (entries x)"
  by (simp add: entries_node)

lemma fst_entry [simp]: "fst (entry x) = nhash x"
  by (simp add: entry_def)

section \<open>Import\<close>

context ancestry_client
begin

abbreviation tree :: "'s \<Rightarrow> ('h, 'n, 'v) node \<Rightarrow> bool" where
  "tree s \<equiv> node_ok (known s) (desc s) (num s)"

abbreviation forest :: "'s \<Rightarrow> ('h, 'n, 'v) node list \<Rightarrow> bool" where
  "forest s \<equiv> forest_ok (known s) (desc s) (num s)"

lemma desc_irrefl: "ok s \<Longrightarrow> a \<in> known s \<Longrightarrow> \<not> desc s a a"
  using desc_num [of s a a] by auto

lemma tree_root: "tree s x \<Longrightarrow> nhash x \<in> known s \<and> nnumber x = num s (nhash x)"
  by (simp add: node_ok_iff)

lemma tree_entry:
  assumes "ok s" and "tree s x" and "e \<in> set (entries x)" and "h \<in> known s" and "desc s (fst e) h \<or> fst e = h"
  shows "desc s (nhash x) h \<or> nhash x = h"
  using node_ok_below [OF assms(2,3)] assms(5) node_ok_known [OF assms(2,3)] tree_root [OF assms(2)] assms(4)
    desc_trans [OF assms(1), of "nhash x" "fst e" h] by auto

text \<open>A branch of the forest to which a block does not belong.\<close>

lemma other_branch:
  assumes "ok s" and "forest s rs" and "x \<in> set rs" and "y \<in> set rs" and "x \<noteq> y" and h: "h \<in> known s"
    and "desc s (nhash x) h \<or> nhash x = h"
  shows "\<not> desc s (nhash y) h" and "nhash y \<noteq> h"
proof -
  have un: "\<not> desc s (nhash x) (nhash y)" "\<not> desc s (nhash y) (nhash x)"
    using assms(2-4) by (simp_all add: forest_ok_def unrelated_def)
  have ne: "nhash x \<noteq> nhash y"
    using assms(2-5) by (auto simp: forest_ok_def unrelated_def distinct_map dest: inj_onD)
  have kn: "nhash x \<in> known s" "nhash y \<in> known s" using assms(2-4) tree_root by (auto simp: forest_ok_def)
  show "\<not> desc s (nhash y) h"
    using assms(7) un ne kn h desc_linear [OF assms(1), of "nhash x" "nhash y" h] by auto
  show "nhash y \<noteq> h" using assms(7) un ne by auto
qed

lemma children_skip:
  "\<forall>c\<in>set cs. node_import f h n d c = (Inr (Some (h, n, d)), c) \<Longrightarrow>
    children_import f h n d cs = (Inr (Some (h, n, d)), cs)"
  by (induction cs) auto

lemma node_import_skips:
  assumes s: "ok s" and h: "h \<in> known s"
  shows "tree s x \<Longrightarrow> \<not> desc s (nhash x) h \<Longrightarrow> nhash x \<noteq> h \<Longrightarrow>
    node_import (isd s) h n d x = (Inr (Some (h, n, d)), x)"
proof (induction x)
  case (Node sh sn sd cs)
  have "node_import (isd s) h n d c = (Inr (Some (h, n, d)), c)" if c: "c \<in> set cs" for c
  proof (rule Node.IH [OF c])
    show t: "tree s c" using Node.prems(1) c by simp
    have "entry c \<in> set (forest_entries cs)" using c nhash_entries [of c] unfolding in_forest_entries by blast
    then have e: "entry c \<in> set (entries (Node sh sn sd cs))" by (simp add: entries_node)
    show "\<not> desc s (nhash c) h" "nhash c \<noteq> h" using tree_entry [OF s Node.prems(1) e h] Node.prems(2,3) by auto
  qed
  then have "children_import (isd s) h n d cs = (Inr (Some (h, n, d)), cs)" by (intro children_skip) blast
  then show ?case using Node.prems answers [OF s _ h, of sh] by simp
qed

lemma children_import_found:
  assumes "\<forall>c\<in>set (pre @ post). node_import f h n d c = (Inr (Some (h, n, d)), c)"
    and "node_import f h n d x = (r, x')" and "r = Inr None \<or> (\<exists>e. r = Inl e)"
  shows "children_import f h n d (pre @ x # post) = (r, pre @ x' # post)"
  using assms by (induction pre) auto

text \<open>A block that is stored already.\<close>

lemma forest_split:
  assumes "ok s" and f: "forest s rs" and h: "h \<in> known s" and x: "x \<in> set rs" and d: "desc s (nhash x) h \<or> nhash x = h"
  shows "\<exists>pre post. rs = pre @ x # post
    \<and> (\<forall>c\<in>set (pre @ post). tree s c \<and> \<not> desc s (nhash c) h \<and> nhash c \<noteq> h)"
proof -
  obtain pre post where rs: "rs = pre @ x # post" using x by (meson split_list)
  have "x \<notin> set (pre @ post)" using f unfolding rs by (auto simp: forest_ok_def unrelated_def)
  then have "tree s c \<and> \<not> desc s (nhash c) h \<and> nhash c \<noteq> h" if "c \<in> set (pre @ post)" for c
    using other_branch [OF assms(1) f x _ _ h d, of c] that f by (auto simp: rs forest_ok_def)
  then show ?thesis using rs by blast
qed

lemma branch_import:
  assumes s: "ok s" and h: "h \<in> known s" and f: "forest s cs" and c: "c \<in> set cs" and d: "desc s (nhash c) h \<or> nhash c = h"
    and i: "node_import (isd s) h n v c = (r, c')" and r: "r = Inr None \<or> (\<exists>e. r = Inl e)"
  shows "\<exists>pre post. cs = pre @ c # post \<and> children_import (isd s) h n v cs = (r, pre @ c' # post)"
proof -
  obtain pre post where cs: "cs = pre @ c # post"
    and o: "\<forall>y\<in>set (pre @ post). tree s y \<and> \<not> desc s (nhash y) h \<and> nhash y \<noteq> h"
    using forest_split [OF s f h c d] by blast
  have "\<forall>y\<in>set (pre @ post). node_import (isd s) h n v y = (Inr (Some (h, n, v)), y)"
  proof
    fix y assume "y \<in> set (pre @ post)"
    then have "tree s y \<and> \<not> desc s (nhash y) h \<and> nhash y \<noteq> h" using o by blast
    then show "node_import (isd s) h n v y = (Inr (Some (h, n, v)), y)" by (intro node_import_skips [OF s h]) simp_all
  qed
  from children_import_found [OF this i r] show ?thesis using cs by blast
qed

lemma node_import_duplicate:
  assumes s: "ok s" and h: "h \<in> known s"
  shows "tree s x \<Longrightarrow> h \<in> fst ` set (entries x) \<Longrightarrow> node_import (isd s) h (num s h) d x = (Inl Duplicate, x)"
proof (induction x)
  case (Node sh sn sd cs)
  show ?case
  proof (cases "sh = h")
    case False
    then obtain c where c: "c \<in> set cs" "h \<in> fst ` set (entries c)" using Node.prems(2) by auto
    have f: "forest s cs" by (rule node_ok_children [OF Node.prems(1)])
    have t: "tree s c" by (rule forest_ok_mem [OF f c(1)])
    obtain e where e: "e \<in> set (entries c)" "fst e = h" using c(2) by auto
    then have "e \<in> set (forest_entries cs)" unfolding in_forest_entries using c(1) by blast
    then have "desc s sh h" using Node.prems(1) e(2) by auto
    then have lt: "sn < num s h" using desc_num [OF s, of sh h] Node.prems(1) h by simp
    have "desc s (nhash c) h \<or> nhash c = h" by (rule node_ok_hash_below [OF t c(2)])
    from branch_import [OF s h f c(1) this Node.IH [OF c(1) t c(2)]]
    have "children_import (isd s) h (num s h) d cs = (Inl Duplicate, cs)" by auto
    then show ?thesis using False lt by simp
  qed simp
qed

text \<open>A new block.\<close>

lemma forest_ok_replace:
  assumes "forest s (pre @ x # post)" and "tree s x'" and "nhash x' = nhash x"
  shows "forest s (pre @ x' # post)"
  using assms by (auto simp: forest_ok_def unrelated_def)

lemma node_import_inserts:
  assumes s: "ok s" and h: "h \<in> known s"
  shows "tree s x \<Longrightarrow> desc s (nhash x) h \<Longrightarrow> \<forall>e\<in>set (entries x). fst e \<noteq> h \<and> \<not> desc s h (fst e) \<Longrightarrow>
    \<exists>x'. node_import (isd s) h (num s h) d x = (Inr None, x') \<and> nhash x' = nhash x \<and> tree s x'
      \<and> mset (entries x') = add_mset (h, num s h, d) (mset (entries x))"
proof (induction x)
  case (Node sh sn sd cs)
  have f: "forest s cs" by (rule node_ok_children [OF Node.prems(1)])
  have sh: "sh \<in> known s" "sn = num s sh" "sh \<noteq> h" "sn < num s h" "isd s sh h = Inr True"
    using Node.prems desc_num [OF s, of sh h] h answers [OF s _ h, of sh] by auto
  show ?case
  proof (cases "\<exists>c\<in>set cs. desc s (nhash c) h")
    case True
    then obtain c where c: "c \<in> set cs" "desc s (nhash c) h" by blast
    have t: "tree s c" by (rule forest_ok_mem [OF f c(1)])
    have "\<forall>e\<in>set (entries c). fst e \<noteq> h \<and> \<not> desc s h (fst e)" using Node.prems(3) c(1) by auto
    from Node.IH [OF c(1) t c(2) this] obtain c' where c': "node_import (isd s) h (num s h) d c = (Inr None, c')"
      "nhash c' = nhash c" "tree s c'" "mset (entries c') = add_mset (h, num s h, d) (mset (entries c))" by blast
    have "desc s (nhash c) h \<or> nhash c = h" using c(2) by simp
    from branch_import [OF s h f c(1) this c'(1)] obtain pre post where cs: "cs = pre @ c # post"
      and ci: "children_import (isd s) h (num s h) d cs = (Inr None, pre @ c' # post)" by auto
    let ?cs = "pre @ c' # post"
    note ci
    moreover have ms: "mset (forest_entries ?cs) = add_mset (h, num s h, d) (mset (forest_entries cs))"
      using c'(4) by (simp add: cs)
    moreover have "tree s (Node sh sn sd ?cs)"
    proof -
      have "forest s ?cs" using forest_ok_replace [OF f [unfolded cs] c'(3,2)] .
      moreover have "set (forest_entries ?cs) = insert (h, num s h, d) (set (forest_entries cs))"
        using arg_cong [OF ms, of set_mset] by simp
      ultimately show ?thesis using Node.prems(1,2) by (intro node_okI) simp_all
    qed
    ultimately show ?thesis using sh by (simp add: entries_node)
  next
    case False
    have kids: "tree s c \<and> nhash c \<noteq> h \<and> \<not> desc s h (nhash c)" if "c \<in> set cs" for c
    proof -
      have "entry c \<in> set (entries (Node sh sn sd cs))" using that nhash_entries [of c] by (auto simp del: nhash_entries)
      then show ?thesis using forest_ok_mem [OF f that] Node.prems(3) fst_entry [of c] by metis
    qed
    have "children_import (isd s) h (num s h) d cs = (Inr (Some (h, num s h, d)), cs)"
    proof (rule children_skip, rule ballI)
      fix c assume "c \<in> set cs"
      then show "node_import (isd s) h (num s h) d c = (Inr (Some (h, num s h, d)), c)"
        using kids [of c] False by (intro node_import_skips [OF s h]) auto
    qed
    moreover have "forest s (cs @ [Node h (num s h) d []])"
      using f kids False h desc_irrefl [OF s h] by (auto simp: forest_ok_append forest_ok_Cons unrelated_def)
    moreover from this have "tree s (Node sh sn sd (cs @ [Node h (num s h) d []]))"
      using Node.prems(1,2) by (intro node_okI) auto
    ultimately show ?thesis using sh by (simp add: forest_entries_def)
  qed
qed

text \<open>The loop over the roots is the loop over children, and the tree as a whole.\<close>

lemma roots_import_eq: "roots_import f h n d rs = children_import f h n d rs"
proof (induction rs arbitrary: h n d)
  case (Cons r rs)
  then show ?case by (cases r) (simp split: prod.split sum.split option.split)
qed simp

lemma forest_hash:
  assumes "h \<in> forest_hashes rs"
  obtains x where "x \<in> set rs" "h \<in> fst ` set (entries x)"
  using assms by (force simp: forest_entries_def)

lemma import_duplicate:
  assumes s: "ok s" and f: "forest s (roots t)" and r: "\<not> reverts (num s h) t" and h: "h \<in> forest_hashes (roots t)"
  shows "fork_import (isd s) h (num s h) d t = (Inl Duplicate, t)"
proof -
  obtain x where x: "x \<in> set (roots t)" "h \<in> fst ` set (entries x)" by (rule forest_hash [OF h])
  have t: "tree s x" by (rule forest_ok_mem [OF f x(1)])
  have k: "h \<in> known s" using node_ok_known [OF t] x(2) by auto
  have "desc s (nhash x) h \<or> nhash x = h" by (rule node_ok_hash_below [OF t x(2)])
  from branch_import [OF s k f x(1) this node_import_duplicate [OF s k t x(2), of d]]
  have "children_import (isd s) h (num s h) d (roots t) = (Inl Duplicate, roots t)" by auto
  then show ?thesis using r by (simp add: fork_import_def roots_import_eq)
qed

lemma import_new:
  assumes s: "ok s" and f: "forest s (roots t)" and r: "\<not> reverts (num s h) t" and h: "h \<in> known s"
    and fresh: "\<forall>e\<in>set (forest_entries (roots t)). fst e \<noteq> h \<and> \<not> desc s h (fst e)"
  shows "\<exists>rs. fork_import (isd s) h (num s h) d t = (Inr (\<forall>e\<in>set (forest_entries (roots t)). \<not> desc s (fst e) h), t\<lparr>roots := rs\<rparr>)
    \<and> forest s rs \<and> mset (forest_entries rs) = add_mset (h, num s h, d) (mset (forest_entries (roots t)))"
proof (cases "\<exists>x\<in>set (roots t). desc s (nhash x) h")
  case True
  then obtain x where x: "x \<in> set (roots t)" "desc s (nhash x) h" by blast
  have t: "tree s x" by (rule forest_ok_mem [OF f x(1)])
  have sub: "set (entries x) \<subseteq> set (forest_entries (roots t))" using x(1) unfolding forest_entries_def by auto
  then have "\<forall>e\<in>set (entries x). fst e \<noteq> h \<and> \<not> desc s h (fst e)" using fresh by blast
  from node_import_inserts [OF s h t x(2) this] obtain x' where x': "node_import (isd s) h (num s h) d x = (Inr None, x')"
    "nhash x' = nhash x" "tree s x'" "mset (entries x') = add_mset (h, num s h, d) (mset (entries x))" by blast
  have "desc s (nhash x) h \<or> nhash x = h" using x(2) by simp
  from branch_import [OF s h f x(1) this x'(1)] obtain pre post where rs: "roots t = pre @ x # post"
    and i: "children_import (isd s) h (num s h) d (roots t) = (Inr None, pre @ x' # post)" by auto
  have "forest s (pre @ x' # post)" using forest_ok_replace [OF f [unfolded rs] x'(3,2)] .
  moreover have "mset (forest_entries (pre @ x' # post)) = add_mset (h, num s h, d) (mset (forest_entries (roots t)))"
    using x'(4) by (simp add: rs)
  moreover have "\<not> (\<forall>e\<in>set (forest_entries (roots t)). \<not> desc s (fst e) h)"
    using sub nhash_entries [of x] x(2) fst_entry [of x] by (metis subsetD)
  moreover have "fork_import (isd s) h (num s h) d t = (Inr False, t\<lparr>roots := pre @ x' # post\<rparr>)"
    using r i by (simp add: fork_import_def roots_import_eq)
  ultimately show ?thesis by (intro exI [of _ "pre @ x' # post"]) simp
next
  case False
  have rt: "tree s c \<and> nhash c \<noteq> h \<and> \<not> desc s h (nhash c) \<and> \<not> desc s (nhash c) h" if "c \<in> set (roots t)" for c
  proof -
    have "entry c \<in> set (forest_entries (roots t))" using that nhash_entries [of c] unfolding in_forest_entries by blast
    then show ?thesis using fresh False that fst_entry [of c] forest_ok_mem [OF f that] by metis
  qed
  have "children_import (isd s) h (num s h) d (roots t) = (Inr (Some (h, num s h, d)), roots t)"
  proof (rule children_skip, rule ballI)
    fix c assume "c \<in> set (roots t)"
    then show "node_import (isd s) h (num s h) d c = (Inr (Some (h, num s h, d)), c)"
      using rt [of c] by (intro node_import_skips [OF s h]) auto
  qed
  moreover have "forest s (roots t @ [Node h (num s h) d []])"
    using f rt h desc_irrefl [OF s h] by (auto simp: forest_ok_append forest_ok_Cons unrelated_def)
  moreover have "\<not> desc s (fst e) h" if e: "e \<in> set (forest_entries (roots t))" for e
  proof -
    obtain c where c: "c \<in> set (roots t)" "e \<in> set (entries c)" using e unfolding in_forest_entries by blast
    then show ?thesis using tree_entry [OF s _ c(2) h] rt [OF c(1)] by blast
  qed
  ultimately show ?thesis
    using r by (intro exI [of _ "roots t @ [Node h (num s h) d []]"]) (simp add: fork_import_def roots_import_eq)
qed

end

section \<open>Search\<close>

text \<open>The entries of a forest that are ancestors of a block and pass the predicate, and the deepest one.\<close>

definition candidates :: "('h \<Rightarrow> 'h \<Rightarrow> bool) \<Rightarrow> 'h \<Rightarrow> ('v \<Rightarrow> bool) \<Rightarrow> ('h \<times> 'n \<times> 'v) list \<Rightarrow> ('h \<times> 'n \<times> 'v) set" where
  "candidates ds h p es = {e \<in> set es. ds (fst e) h \<and> p (snd (snd e))}"

definition deepest :: "('h \<Rightarrow> 'h \<Rightarrow> bool) \<Rightarrow> ('h \<times> 'n \<times> 'v) set \<Rightarrow> ('h \<times> 'n \<times> 'v) \<Rightarrow> bool" where
  "deepest ds es e \<longleftrightarrow> e \<in> es \<and> (\<forall>e'\<in>es. fst e' = fst e \<or> ds (fst e') (fst e))"

context ancestry_client
begin

lemma no_candidates:
  assumes s: "ok s" and h: "h \<in> known s" and t: "tree s x" and "\<not> desc s (nhash x) h"
  shows "candidates (desc s) h p (entries x) = {}"
proof -
  have "\<not> desc s (fst e) h" if e: "e \<in> set (entries x)" for e
    using node_ok_below [OF t e] desc_trans [OF s, of "nhash x" "fst e" h] node_ok_known [OF t e] tree_root [OF t] assms(4) h
    by auto
  then show ?thesis by (auto simp: candidates_def)
qed

lemma candidates_forest: "candidates ds h p (forest_entries rs) = (\<Union>x\<in>set rs. candidates ds h p (entries x))"
  by (auto simp: candidates_def forest_entries_def)

lemma children_find_skip:
  "\<forall>c\<in>set cs. node_find_node_where f h n p c = Inr (Failure False) \<Longrightarrow> children_find f h n p cs = Inr False"
  by (induction cs) auto

lemma children_find_found:
  assumes "\<forall>c\<in>set pre. node_find_node_where f h n p c = Inr (Failure False)"
  shows "children_find f h n p (pre @ x # post) = children_find f h n p (x # post)"
  using assms by (induction pre) auto

lemma node_find_skips:
  assumes s: "ok s" and h: "h \<in> known s"
  shows "tree s x \<Longrightarrow> \<not> desc s (nhash x) h \<Longrightarrow> node_find_node_where (isd s) h (num s h) p x = Inr (Failure False)"
proof (induction x)
  case (Node sh sn sd cs)
  have f: "forest s cs" by (rule node_ok_children [OF Node.prems(1)])
  show ?case
  proof (cases "num s h < sn")
    case False
    have "node_find_node_where (isd s) h (num s h) p c = Inr (Failure False)" if c: "c \<in> set cs" for c
    proof (rule Node.IH [OF c forest_ok_mem [OF f c]])
      have "entry c \<in> set (forest_entries cs)" using c nhash_entries [of c] unfolding in_forest_entries by blast
      then have sc: "desc s sh (nhash c)" using Node.prems(1) by (simp add: entry_def) (metis fst_conv)
      then show "\<not> desc s (nhash c) h"
        using Node.prems desc_trans [OF s, of sh "nhash c" h] tree_root [OF forest_ok_mem [OF f c]] h by auto
    qed
    then have "children_find (isd s) h (num s h) p cs = Inr False" by (intro children_find_skip) blast
    then show ?thesis using False Node.prems answers [OF s _ h, of sh] by simp
  qed simp
qed

lemma node_find_deepest:
  assumes s: "ok s" and h: "h \<in> known s"
  shows "tree s x \<Longrightarrow> desc s (nhash x) h \<Longrightarrow>
    (\<exists>y. node_find_node_where (isd s) h (num s h) p x = Inr (Found y) \<and> deepest (desc s) (candidates (desc s) h p (entries x)) (entry y))
    \<or> node_find_node_where (isd s) h (num s h) p x = Inr (Failure True) \<and> candidates (desc s) h p (entries x) = {}"
proof (induction x)
  case (Node sh sn sd cs)
  let ?find = "node_find_node_where (isd s) h (num s h) p" and ?cand = "candidates (desc s) h p"
  have f: "forest s cs" by (rule node_ok_children [OF Node.prems(1)])
  have sh: "sh \<in> known s" "\<not> num s h < sn" "isd s sh h = Inr True" "desc s sh h"
    using Node.prems desc_num [OF s, of sh h] h answers [OF s _ h, of sh] by auto
  have E: "?cand (entries (Node sh sn sd cs)) = (if p sd then {(sh, sn, sd)} else {}) \<union> ?cand (forest_entries cs)"
    using sh(4) by (auto simp: candidates_def forest_entries_def)
  show ?case
  proof (cases "\<exists>c\<in>set cs. desc s (nhash c) h")
    case True
    then obtain c where c: "c \<in> set cs" "desc s (nhash c) h" by blast
    have t: "tree s c" by (rule forest_ok_mem [OF f c(1)])
    have "desc s (nhash c) h \<or> nhash c = h" using c(2) by simp
    from forest_split [OF s f h c(1) this] obtain pre post where cs: "cs = pre @ c # post"
      and o: "\<forall>y\<in>set (pre @ post). tree s y \<and> \<not> desc s (nhash y) h \<and> nhash y \<noteq> h" by blast
    have "?find y = Inr (Failure False)" if "y \<in> set pre" for y
      using o that by (intro node_find_skips [OF s h]) auto
    then have ch: "children_find (isd s) h (num s h) p cs = children_find (isd s) h (num s h) p (c # post)"
      unfolding cs by (intro children_find_found) blast
    have none: "?cand (entries y) = {}" if "y \<in> set (pre @ post)" for y
      using o that by (intro no_candidates [OF s h]) auto
    have C: "?cand (forest_entries cs) = ?cand (entries c)"
    proof -
      have "?cand (forest_entries cs) = ?cand (entries c) \<union> (\<Union>y\<in>set (pre @ post). ?cand (entries y))"
        unfolding cs candidates_forest by auto
      then show ?thesis using none by simp
    qed
    have up: "e \<in> ?cand (entries c) \<Longrightarrow> desc s sh (fst e)" for e
      using Node.prems(1) c(1) by (auto simp: candidates_def forest_entries_def)
    from Node.IH [OF c(1) t c(2)] show ?thesis
    proof (elim disjE exE conjE)
      fix y assume y: "?find c = Inr (Found y)" "deepest (desc s) (?cand (entries c)) (entry y)"
      have "deepest (desc s) (?cand (entries (Node sh sn sd cs))) (entry y)"
        using y(2) up [of "entry y"] unfolding E C deepest_def by auto
      then show ?thesis using y(1) ch sh(2) by simp
    next
      assume n: "?find c = Inr (Failure True)" "?cand (entries c) = {}"
      then show ?thesis using ch sh(2) unfolding E C by (simp add: deepest_def)
    qed
  next
    case False
    have "?find c = Inr (Failure False)" if "c \<in> set cs" for c
      using False that by (intro node_find_skips [OF s h forest_ok_mem [OF f that]]) blast
    then have ch: "children_find (isd s) h (num s h) p cs = Inr False" by (intro children_find_skip) blast
    have "?cand (forest_entries cs) = {}"
      unfolding candidates_forest using no_candidates [OF s h forest_ok_mem [OF f]] False by auto
    then show ?thesis using ch sh unfolding E by (simp add: deepest_def)
  qed
qed

lemma find_deepest:
  assumes s: "ok s" and h: "h \<in> known s" and f: "forest s (roots t)"
  shows "\<exists>r. find_node_where (isd s) h (num s h) p t = Inr r
    \<and> (case r of None \<Rightarrow> candidates (desc s) h p (forest_entries (roots t)) = {}
       | Some y \<Rightarrow> deepest (desc s) (candidates (desc s) h p (forest_entries (roots t))) (entry y))"
proof -
  have "\<exists>r. roots_find (isd s) h (num s h) p rs = Inr r
    \<and> (case r of None \<Rightarrow> candidates (desc s) h p (forest_entries rs) = {}
       | Some y \<Rightarrow> deepest (desc s) (candidates (desc s) h p (forest_entries rs)) (entry y))" if "forest s rs" for rs
    using that
  proof (induction rs)
    case Nil
    then show ?case by (simp add: candidates_def)
  next
    case (Cons x rs)
    let ?find = "node_find_node_where (isd s) h (num s h) p" and ?cand = "candidates (desc s) h p"
    have t: "tree s x" and rs: "forest s rs" using Cons.prems by (simp_all add: forest_ok_Cons)
    have C: "?cand (forest_entries (x # rs)) = ?cand (entries x) \<union> ?cand (forest_entries rs)"
      by (auto simp: candidates_def)
    show ?case
    proof (cases "desc s (nhash x) h")
      case False
      have "?cand (forest_entries (x # rs)) = ?cand (forest_entries rs)" unfolding C no_candidates [OF s h t False] by simp
      then show ?thesis using Cons.IH [OF rs] node_find_skips [OF s h t False, of p] by (simp only:) simp
    next
      case True
      have ne: "x \<notin> set rs" using Cons.prems by (auto simp: forest_ok_Cons)
      have "?cand (entries y) = {}" if y: "y \<in> set rs" for y
        using True y ne other_branch(1) [OF s Cons.prems _ _ _ h, of x y]
        by (intro no_candidates [OF s h forest_ok_mem [OF rs y]]) auto
      then have "?cand (forest_entries rs) = {}" unfolding candidates_forest by simp
      then have C1: "?cand (forest_entries (x # rs)) = ?cand (entries x)" unfolding C by simp
      from node_find_deepest [OF s h t True, of p] show ?thesis
      proof (elim disjE exE conjE)
        fix y assume "?find x = Inr (Found y)" "deepest (desc s) (?cand (entries x)) (entry y)"
        then show ?thesis unfolding C1 by simp
      next
        assume n: "?find x = Inr (Failure True)" "?cand (entries x) = {}"
        have "?cand (forest_entries (x # rs)) = ?cand (forest_entries rs)" unfolding C n(2) by simp
        then show ?thesis using n(1) Cons.IH [OF rs] by (simp only:) simp
      qed
    qed
  qed
  then show ?thesis using f by (simp add: find_node_where_def)
qed

end

section \<open>Finalisation\<close>

text \<open>What a successful finalisation leaves: the descendants of the block, and the value it returns.\<close>

definition finalized_tree :: "('h \<Rightarrow> 'h \<Rightarrow> bool) \<Rightarrow> 'h \<Rightarrow> 'n \<Rightarrow> ('h, 'n, 'v) fork_tree \<Rightarrow> ('h, 'n, 'v) fork_tree \<Rightarrow> bool" where
  "finalized_tree ds h n t t' \<longleftrightarrow> best_finalized_number t' = Some n
     \<and> mset (forest_entries (roots t')) = filter_mset (\<lambda>e. ds h (fst e)) (mset (forest_entries (roots t)))"

definition finalized_value :: "('h \<Rightarrow> 'h \<Rightarrow> bool) \<Rightarrow> 'h \<Rightarrow> 'n \<Rightarrow> ('h, 'n, 'v) fork_tree \<Rightarrow> 'v finalization_result \<Rightarrow> bool" where
  "finalized_value ds h n t r \<longleftrightarrow>
     (if h \<in> forest_hashes (roots t) then \<exists>d. (h, n, d) \<in> set (forest_entries (roots t)) \<and> r = Changed (Some d)
      else r = (if \<forall>x\<in>set (roots t). ds h (nhash x) then Unchanged else Changed None))"

text \<open>What the loop over the roots returns: the index of the block, or that only its descendants are left.\<close>

fun loop_result :: "('h \<Rightarrow> 'h \<Rightarrow> bool) \<Rightarrow> 'h \<Rightarrow> bool \<Rightarrow> nat option \<times> ('h, 'n, 'v) node list \<times> bool \<Rightarrow> bool" where
  "loop_result ds h c (Some i, rs, ch) \<longleftrightarrow> i < length rs \<and> nhash (rs ! i) = h"
| "loop_result ds h c (None, rs, ch) \<longleftrightarrow> (\<forall>x\<in>set rs. ds h (nhash x)) \<and> ch = c"

lemma filter_mset_none: "filter_mset P (mset xs) = {#} \<longleftrightarrow> (\<forall>x\<in>set xs. \<not> P x)"
  by (induction xs) auto

lemma filter_mset_all: "\<forall>x\<in>set xs. P x \<Longrightarrow> filter_mset P (mset xs) = mset xs"
  by (induction xs) auto

lemma forest_filter_none:
  assumes "\<And>x. x \<in> set rs \<Longrightarrow> filter_mset P (mset (entries x)) = {#}"
  shows "filter_mset P (mset (forest_entries rs)) = {#}"
  using assms
proof (induction rs)
  case (Cons x rs)
  then show ?case using Cons.prems [of x] by simp
qed simp

lemma forest_filter_all:
  assumes "\<And>x. x \<in> set rs \<Longrightarrow> filter_mset P (mset (entries x)) = mset (entries x)"
  shows "filter_mset P (mset (forest_entries rs)) = mset (forest_entries rs)"
  using assms
proof (induction rs)
  case (Cons x rs)
  then show ?case using Cons.prems [of x] by simp
qed simp

lemma forest_filter_keep:
  assumes "\<And>x. x \<in> set rs \<Longrightarrow> \<not> q x \<Longrightarrow> filter_mset P (mset (entries x)) = {#}"
  shows "filter_mset P (mset (forest_entries (filter q rs))) = filter_mset P (mset (forest_entries rs))"
  using assms
proof (induction rs)
  case (Cons x rs)
  have "filter_mset P (mset (forest_entries (filter q rs))) = filter_mset P (mset (forest_entries rs))"
    by (rule Cons.IH) (rule Cons.prems, simp_all)
  moreover have "q x \<or> filter_mset P (mset (entries x)) = {#}" using Cons.prems [of x] by (metis list.set_intros(1))
  ultimately show ?case by (elim disjE) (simp_all del: filter_mset_eq_mempty_iff)
qed simp

lemma mset_swap_remove: "i < length xs \<Longrightarrow> mset xs = add_mset (xs ! i) (mset (swap_remove xs i))"
  using arg_cong [OF id_take_nth_drop [of i xs], of mset] by (simp add: swap_remove_eq)

lemma take_swap_remove: "i < length xs \<Longrightarrow> take i (swap_remove xs i) = take i xs"
  by (simp add: swap_remove_eq)

lemma position_Some: "position p xs = Some i \<Longrightarrow> i < length xs \<and> p (xs ! i)"
  by (induction xs arbitrary: i) (auto split: if_splits)

lemma position_None: "position p xs = None \<longleftrightarrow> (\<forall>x\<in>set xs. \<not> p x)"
  by (induction xs) auto

context ancestry_client
begin

abbreviation below :: "'s \<Rightarrow> 'h \<Rightarrow> ('h, 'n, 'v) node list \<Rightarrow> ('h \<times> 'n \<times> 'v) multiset" where
  "below s h rs \<equiv> filter_mset (\<lambda>e. desc s h (fst e)) (mset (forest_entries rs))"

lemma below_all:
  assumes s: "ok s" and t: "tree s x" and h: "h \<in> known s" and d: "desc s h (nhash x)"
  shows "filter_mset (\<lambda>e. desc s h (fst e)) (mset (entries x)) = mset (entries x)"
proof -
  have "desc s h (fst e)" if e: "e \<in> set (entries x)" for e
    using node_ok_below [OF t e] d desc_trans [OF s, of h "nhash x" "fst e"] h tree_root [OF t] node_ok_known [OF t e] by auto
  then show ?thesis by (simp add: filter_mset_all)
qed

lemma below_none:
  assumes s: "ok s" and t: "tree s x" and h: "h \<in> known s" and "nhash x \<noteq> h" "\<not> desc s h (nhash x)" "\<not> desc s (nhash x) h"
  shows "filter_mset (\<lambda>e. desc s h (fst e)) (mset (entries x)) = {#}"
proof -
  have "\<not> desc s h (fst e)" if e: "e \<in> set (entries x)" for e
    using node_ok_below [OF t e] assms(4-6) desc_linear [OF s, of h "nhash x" "fst e"] h tree_root [OF t] node_ok_known [OF t e]
    by auto
  then show ?thesis by (simp add: filter_mset_none)
qed

text \<open>Opening a root.\<close>

lemma open_forest:
  assumes s: "ok s" and f: "forest s (x # rs)"
  shows "forest s (rs @ children x)"
proof -
  have t: "tree s x" and rs: "forest s rs" using f by (simp_all add: forest_ok_Cons)
  have kids: "forest s (children x)" "\<forall>e\<in>set (forest_entries (children x)). desc s (nhash x) (fst e)"
    using t by (simp_all add: node_ok_iff)
  have "nhash y \<noteq> nhash c \<and> \<not> desc s (nhash y) (nhash c) \<and> \<not> desc s (nhash c) (nhash y)"
    if y: "y \<in> set rs" and c: "c \<in> set (children x)" for y c
  proof -
    have "entry c \<in> set (forest_entries (children x))" using c nhash_entries [of c] unfolding in_forest_entries by blast
    then have xc: "desc s (nhash x) (nhash c)" using kids(2) by (metis fst_entry)
    have un: "nhash y \<noteq> nhash x" "\<not> desc s (nhash x) (nhash y)" "\<not> desc s (nhash y) (nhash x)"
      using f y by (auto simp: forest_ok_Cons)
    have kn: "nhash x \<in> known s" "nhash y \<in> known s" "nhash c \<in> known s"
      using tree_root [OF t] tree_root [OF forest_ok_mem [OF rs y]] tree_root [OF forest_ok_mem [OF kids(1) c]] by auto
    show ?thesis
      using xc un kn desc_linear [OF s, of "nhash x" "nhash y" "nhash c"] desc_trans [OF s, of "nhash x" "nhash c" "nhash y"] by auto
  qed
  then show ?thesis using rs kids(1) by (auto simp: forest_ok_append)
qed

lemma finalized_root:
  assumes s: "ok s" and f: "forest s rs" and i: "i < length rs" and x: "nhash (rs ! i) = h"
  shows "mset (forest_entries (children (rs ! i))) = below s h rs" and "(h, num s h, ndata (rs ! i)) \<in> set (forest_entries rs)"
    and "forest s (children (rs ! i))" and "nnumber (rs ! i) = num s h"
proof -
  let ?x = "rs ! i" and ?rest = "take i rs @ drop (Suc i) rs"
  have xm: "?x \<in> set rs" using i by simp
  have t: "tree s ?x" by (rule forest_ok_mem [OF f xm])
  have h: "h \<in> known s" using tree_root [OF t] x by simp
  show n: "nnumber ?x = num s h" using tree_root [OF t] x by simp
  show "forest s (children ?x)" using t by (simp add: node_ok_iff)
  have "entry ?x \<in> set (forest_entries rs)" using xm nhash_entries [of ?x] unfolding in_forest_entries by blast
  then show "(h, num s h, ndata ?x) \<in> set (forest_entries rs)" using n x by (simp add: entry_def)
  have ms: "mset (?x # ?rest) = mset rs" using arg_cong [OF id_take_nth_drop [OF i], of mset] by simp
  then have f2: "forest s (?x # ?rest)" using f forest_ok_mset [OF ms] by blast
  have "filter_mset (\<lambda>e. desc s h (fst e)) (mset (entries y)) = {#}" if y: "y \<in> set ?rest" for y
  proof (rule below_none [OF s _ h])
    show "tree s y" using f2 y by (auto simp: forest_ok_def)
    show "nhash y \<noteq> h" "\<not> desc s h (nhash y)" "\<not> desc s (nhash y) h" using f2 y x unfolding forest_ok_Cons by auto
  qed
  then have "filter_mset (\<lambda>e. desc s h (fst e)) (mset (forest_entries ?rest)) = {#}" by (rule forest_filter_none)
  moreover have "filter_mset (\<lambda>e. desc s h (fst e)) (mset (entries ?x)) = mset (forest_entries (children ?x))"
  proof -
    have "\<forall>e\<in>set (forest_entries (children ?x)). desc s h (fst e)" using t x by (simp add: node_ok_iff)
    then show ?thesis using desc_irrefl [OF s h] x by (simp add: entries_node entry_def filter_mset_all)
  qed
  moreover have "below s h rs = filter_mset (\<lambda>e. desc s h (fst e)) (mset (entries ?x))
      + filter_mset (\<lambda>e. desc s h (fst e)) (mset (forest_entries ?rest))"
    unfolding forest_entries_mset [OF ms, symmetric] by (simp del: forest_entries_simps(3))
  ultimately show "mset (forest_entries (children ?x)) = below s h rs" by simp
qed

text \<open>The block itself and its descendants.\<close>

abbreviation kept :: "'s \<Rightarrow> 'h \<Rightarrow> ('h, 'n, 'v) node list \<Rightarrow> ('h \<times> 'n \<times> 'v) multiset" where
  "kept s h rs \<equiv> filter_mset (\<lambda>e. fst e = h \<or> desc s h (fst e)) (mset (forest_entries rs))"

lemma kept_below:
  assumes "kept s h rs = kept s h rs'"
  shows "below s h rs = below s h rs'"
proof -
  have *: "(fst e = h \<or> desc s h (fst e)) \<and> desc s h (fst e) \<longleftrightarrow> desc s h (fst e)" for e :: "'h \<times> 'n \<times> 'v" by blast
  from arg_cong [OF assms, of "filter_mset (\<lambda>e. desc s h (fst e))"] show ?thesis
    by (simp only: filter_filter_mset *)
qed

lemma kept_entry:
  assumes "kept s h rs = kept s h rs'"
  shows "(h, n, d) \<in> set (forest_entries rs) \<longleftrightarrow> (h, n, d) \<in> set (forest_entries rs')"
  using arg_cong [OF assms, of "\<lambda>m. (h, n, d) \<in># m"] by simp

lemma kept_drop:
  assumes s: "ok s" and t: "tree s x" and h: "h \<in> known s" and "nhash x \<noteq> h" "\<not> desc s h (nhash x)" "\<not> desc s (nhash x) h"
  shows "filter_mset (\<lambda>e. fst e = h \<or> desc s h (fst e)) (mset (entries x)) = {#}"
  unfolding filter_mset_none
proof
  fix e assume e: "e \<in> set (entries x)"
  then have "\<not> desc s h (fst e)" using below_none [OF assms] unfolding filter_mset_none by blast
  then show "\<not> (fst e = h \<or> desc s h (fst e))" using node_ok_below [OF t e] assms(4,6) by auto
qed

lemma all_below:
  assumes s: "ok s" and h: "h \<in> known s" and f: "forest s rs" and d: "\<forall>x\<in>set rs. desc s h (nhash x)"
  shows "below s h rs = mset (forest_entries rs)" and "h \<notin> forest_hashes rs"
proof -
  show b: "below s h rs = mset (forest_entries rs)"
    by (rule forest_filter_all) (use below_all [OF s forest_ok_mem [OF f] h] d in blast)
  have "desc s h (fst e)" if e: "e \<in> set (forest_entries rs)" for e
  proof -
    have "e \<in># below s h rs" unfolding b using e by simp
    then show ?thesis by simp
  qed
  then show "h \<notin> forest_hashes rs" using desc_irrefl [OF s h] by auto
qed

lemma tests:
  assumes s: "ok s" and h: "h \<in> known s" and t: "tree s x"
  shows "nnumber x > num s h \<and> unwrap_or_false (isd s h (nhash x)) \<longleftrightarrow> desc s h (nhash x)"
    and "nnumber x < num s h \<and> unwrap_or_false (isd s (nhash x) h) \<longleftrightarrow> desc s (nhash x) h"
  using tree_root [OF t] answers [OF s] desc_num [OF s] h by (auto simp: unwrap_or_false_def)

lemma ancestors_loop_ok:
  assumes s: "ok s" and h: "h \<in> known s"
  shows "forest s rs \<Longrightarrow> idx \<le> length rs \<Longrightarrow> \<forall>x\<in>set (take idx rs). desc s h (nhash x) \<Longrightarrow>
    \<exists>r. ancestors_loop (isd s) h (num s h) idx rs changed = Some r \<and> forest s (fst (snd r))
      \<and> kept s h (fst (snd r)) = kept s h rs
      \<and> loop_result (desc s) h (changed \<or> (\<exists>x\<in>set rs. \<not> desc s h (nhash x))) r"
proof (induction "size_list size (drop idx rs)" arbitrary: idx rs changed rule: less_induct)
  case less
  note f = less.prems(1)
  show ?case
  proof (cases "idx = length rs")
    case True
    then show ?thesis using less.prems unfolding ancestors_loop.simps [of "isd s" h "num s h" idx rs changed] by simp
  next
    case False
    then have lt: "idx < length rs" using less.prems(2) by simp
    let ?x = "rs ! idx" and ?rest = "swap_remove rs idx"
    have t: "tree s ?x" by (rule forest_ok_mem [OF f]) (use lt in simp)
    have ms: "mset rs = mset (?x # ?rest)" using mset_swap_remove [OF lt] by simp
    have f2: "forest s (?x # ?rest)" using f forest_ok_mset [OF ms] by blast
    have fr: "forest s ?rest" using f2 by (simp add: forest_ok_Cons)
    have K: "kept s h rs = filter_mset (\<lambda>e. fst e = h \<or> desc s h (fst e)) (mset (entries ?x)) + kept s h ?rest"
      unfolding forest_entries_mset [OF ms] by simp
    have tk: "take idx ?rest = take idx rs" "length ?rest = length rs - 1"
      using take_swap_remove [OF lt] length_swap_remove [OF lt] by simp_all
    note size = unvisited_shrinks [OF lt]
    have unf: "ancestors_loop (isd s) h (num s h) idx rs changed =
       (if nhash ?x = h then Some (Some idx, rs, changed)
        else if desc s h (nhash ?x) then ancestors_loop (isd s) h (num s h) (idx + 1) rs changed
        else if desc s (nhash ?x) h then ancestors_loop (isd s) h (num s h) idx (?rest @ children ?x) True
        else ancestors_loop (isd s) h (num s h) idx ?rest True)"
      unfolding ancestors_loop.simps [of "isd s" h "num s h" idx rs changed] Let_def tests [OF s h t]
      using lt by simp
    consider (fin) "nhash ?x = h" | (desc) "nhash ?x \<noteq> h" "desc s h (nhash ?x)"
      | (anc) "nhash ?x \<noteq> h" "\<not> desc s h (nhash ?x)" "desc s (nhash ?x) h"
      | (other) "nhash ?x \<noteq> h" "\<not> desc s h (nhash ?x)" "\<not> desc s (nhash ?x) h" by blast
    then show ?thesis
    proof cases
      case fin
      then show ?thesis using unf lt f by simp
    next
      case desc
      have "\<forall>x\<in>set (take (Suc idx) rs). desc s h (nhash x)" using less.prems(3) desc lt by (simp add: take_Suc_conv_app_nth)
      from less.hyps [OF _ f _ this, of changed] show ?thesis using unf desc lt size(1) by simp
    next
      case anc
      let ?rs = "?rest @ children ?x"
      have f3: "forest s ?rs" by (rule open_forest [OF s f2])
      have k: "kept s h ?rs = kept s h rs" unfolding K using anc by (simp add: entries_node entry_def)
      have ex: "\<exists>x\<in>set rs. \<not> desc s h (nhash x)" using anc lt by auto
      have "idx \<le> length ?rs" "\<forall>x\<in>set (take idx ?rs). desc s h (nhash x)" using tk lt less.prems(3) by simp_all
      from less.hyps [OF size(3) f3 this, of True] show ?thesis unfolding k using unf anc ex by simp
    next
      case other
      have k: "kept s h ?rest = kept s h rs" using K kept_drop [OF s t h other] by simp
      have ex: "\<exists>x\<in>set rs. \<not> desc s h (nhash x)" using other lt by auto
      have "idx \<le> length ?rest" "\<forall>x\<in>set (take idx ?rest). desc s h (nhash x)" using tk lt less.prems(3) by simp_all
      from less.hyps [OF size(2) fr this, of True] show ?thesis unfolding k using unf other ex by simp
    qed
  qed
qed

text \<open>Both finalisations open the block when they meet it as a root.\<close>

lemma finalize_root_at_ok:
  assumes s: "ok s" and f: "forest s rs" and i: "i < length rs" and x: "nhash (rs ! i) = h" and k: "kept s h rs = kept s h (roots t)"
  shows "\<exists>d t'. finalize_root_at i (t\<lparr>roots := rs\<rparr>) = (d, t') \<and> forest s (roots t') \<and> finalized_tree (desc s) h (num s h) t t'
    \<and> finalized_value (desc s) h (num s h) t (Changed (Some d))"
proof -
  note r = finalized_root [OF s f i x]
  have e: "(h, num s h, ndata (rs ! i)) \<in> set (forest_entries (roots t))" using r(2) kept_entry [OF k] by blast
  then have "h \<in> forest_hashes (roots t)" by force
  then show ?thesis
    using r e kept_below [OF k] by (simp add: finalize_root_at_def Let_def finalized_tree_def finalized_value_def)
qed

lemma finalize_root_cases:
  assumes s: "ok s" and f: "forest s (roots t)"
  shows "(\<exists>d t'. finalize_root h t = (Some d, t') \<and> forest s (roots t') \<and> finalized_tree (desc s) h (num s h) t t'
      \<and> finalized_value (desc s) h (num s h) t (Changed (Some d)))
    \<or> finalize_root h t = (None, t) \<and> (\<forall>x\<in>set (roots t). nhash x \<noteq> h)"
proof (cases "position (\<lambda>x. nhash x = h) (roots t)")
  case None
  then show ?thesis using None by (simp add: finalize_root_def) (simp add: position_None)
next
  case (Some i)
  from position_Some [OF this] have "i < length (roots t)" "nhash (roots t ! i) = h" by simp_all
  from finalize_root_at_ok [OF s f this refl] show ?thesis using Some by (auto simp: finalize_root_def)
qed

lemma finalized_none:
  assumes s: "ok s" and h: "h \<in> known s" and f: "forest s rs" and d: "\<forall>x\<in>set rs. desc s h (nhash x)"
    and k: "kept s h rs = kept s h (roots t)"
  shows "finalized_tree (desc s) h (num s h) t (t\<lparr>roots := rs, best_finalized_number := Some (num s h)\<rparr>)"
    and "finalized_value (desc s) h (num s h) t (if \<exists>x\<in>set (roots t). \<not> desc s h (nhash x) then Changed None else Unchanged)"
proof -
  note b = all_below [OF s h f d]
  show "finalized_tree (desc s) h (num s h) t (t\<lparr>roots := rs, best_finalized_number := Some (num s h)\<rparr>)"
    using b(1) kept_below [OF k] by (simp add: finalized_tree_def)
  have "(h, n, v) \<notin> set (forest_entries (roots t))" for n v
    using b(2) kept_entry [OF k, of n v] by force
  then have "h \<notin> forest_hashes (roots t)" by force
  then show "finalized_value (desc s) h (num s h) t (if \<exists>x\<in>set (roots t). \<not> desc s h (nhash x) then Changed None else Unchanged)"
    by (auto simp: finalized_value_def)
qed

lemma finalize_with_ancestors_ok:
  assumes s: "ok s" and h: "h \<in> known s" and f: "forest s (roots t)" and r: "\<not> reverts (num s h) t"
  shows "\<exists>r t'. finalize_with_ancestors (isd s) h (num s h) t = Some (Inr r, t') \<and> forest s (roots t')
    \<and> finalized_tree (desc s) h (num s h) t t' \<and> finalized_value (desc s) h (num s h) t r"
  using finalize_root_cases [OF s f, of h]
proof (elim disjE exE conjE)
  fix d t' assume "finalize_root h t = (Some d, t')" "forest s (roots t')" "finalized_tree (desc s) h (num s h) t t'"
    "finalized_value (desc s) h (num s h) t (Changed (Some d))"
  then show ?thesis using r by (simp add: finalize_with_ancestors_def)
next
  assume fr: "finalize_root h t = (None, t)"
  obtain q where q: "ancestors_loop (isd s) h (num s h) 0 (roots t) False = Some q" "forest s (fst (snd q))"
    "kept s h (fst (snd q)) = kept s h (roots t)" "loop_result (desc s) h (\<exists>x\<in>set (roots t). \<not> desc s h (nhash x)) q"
    using ancestors_loop_ok [OF s h f, of 0 False] by auto
  obtain i rs ch where qq: "q = (i, rs, ch)" by (cases q) auto
  show ?thesis
  proof (cases i)
    case None
    then have d: "\<forall>x\<in>set rs. desc s h (nhash x)" and ch: "ch = (\<exists>x\<in>set (roots t). \<not> desc s h (nhash x))"
      using q(4) by (simp_all add: qq)
    have "finalize_with_ancestors (isd s) h (num s h) t =
      Some (Inr (if ch then Changed None else Unchanged), t\<lparr>roots := rs, best_finalized_number := Some (num s h)\<rparr>)"
      using r fr q(1) None qq by (simp add: finalize_with_ancestors_def)
    moreover have "forest s rs" "kept s h rs = kept s h (roots t)" using q(2,3) qq by simp_all
    ultimately show ?thesis using finalized_none [OF s h _ d, of t] unfolding ch by simp
  next
    case (Some j)
    then have "j < length rs" "nhash (rs ! j) = h" using q(4) by (simp_all add: qq)
    moreover have "forest s rs" "kept s h rs = kept s h (roots t)" using q(2,3) qq by simp_all
    ultimately obtain d t' where "finalize_root_at j (t\<lparr>roots := rs\<rparr>) = (d, t')" "forest s (roots t')"
      "finalized_tree (desc s) h (num s h) t t'" "finalized_value (desc s) h (num s h) t (Changed (Some d))"
      using finalize_root_at_ok [OF s, of rs j h t] by blast
    then show ?thesis using r fr q(1) Some qq by (simp add: finalize_with_ancestors_def)
  qed
qed

lemma descends_from_root_ok:
  assumes s: "ok s" and h: "h \<in> known s" and f: "\<forall>x\<in>set rs. tree s x"
  shows "descends_from_root (isd s) h (num s h) rs =
    (if \<exists>x\<in>set rs. desc s (nhash x) h then Inl UnfinalizedAncestor else Inr ())"
  using f
proof (induction rs)
  case (Cons x rs)
  then have t: "nhash x \<in> known s" "nnumber x = num s (nhash x)" using tree_root by auto
  then have "isd s (nhash x) h = Inr (desc s (nhash x) h)" "desc s (nhash x) h \<Longrightarrow> num s (nhash x) < num s h"
    using answers [OF s _ h] desc_num [OF s, of "nhash x" h] h by simp_all
  then show ?case using Cons t(2) by (auto split: bool.split)
qed simp

lemma fork_finalize_ok:
  assumes s: "ok s" and h: "h \<in> known s" and f: "forest s (roots t)" and r: "\<not> reverts (num s h) t"
  shows "if \<exists>x\<in>set (roots t). desc s (nhash x) h then fork_finalize (isd s) h (num s h) t = (Inl UnfinalizedAncestor, t)
    else \<exists>r t'. fork_finalize (isd s) h (num s h) t = (Inr r, t') \<and> forest s (roots t')
      \<and> finalized_tree (desc s) h (num s h) t t' \<and> finalized_value (desc s) h (num s h) t r"
  using finalize_root_cases [OF s f, of h]
proof (elim disjE exE conjE)
  fix d t' assume fr: "finalize_root h t = (Some d, t')" and t': "forest s (roots t')" "finalized_tree (desc s) h (num s h) t t'"
    "finalized_value (desc s) h (num s h) t (Changed (Some d))"
  have "position (\<lambda>x. nhash x = h) (roots t) \<noteq> None"
  proof
    assume "position (\<lambda>x. nhash x = h) (roots t) = None"
    then show False using fr by (simp add: finalize_root_def)
  qed
  then obtain x where x: "x \<in> set (roots t)" "nhash x = h" unfolding position_None by blast
  have "\<not> desc s (nhash y) h" if "y \<in> set (roots t)" for y using f x that by (auto simp: forest_ok_def unrelated_def)
  then show ?thesis using r fr t' by (simp add: fork_finalize_def)
next
  assume fr: "finalize_root h t = (None, t)" and ne: "\<forall>x\<in>set (roots t). nhash x \<noteq> h"
  have tr: "\<forall>x\<in>set (roots t). tree s x" using f by (simp add: forest_ok_def)
  note dr = descends_from_root_ok [OF s h tr]
  show ?thesis
  proof (cases "\<exists>x\<in>set (roots t). desc s (nhash x) h")
    case True
    then show ?thesis using r fr dr by (simp add: fork_finalize_def)
  next
    case False
    let ?keep = "\<lambda>x. desc s h (nhash x)"
    let ?rs = "filter ?keep (roots t)"
    have keep: "(nnumber x > num s h \<and> unwrap_or_false (isd s h (nhash x))) = ?keep x" if "x \<in> set (roots t)" for x
      using tests(1) [OF s h] tr that by blast
    have "retain (\<lambda>x. nnumber x > num s h \<and> unwrap_or_false (isd s h (nhash x))) (roots t)
        = (?rs, \<exists>x\<in>set (roots t). \<not> ?keep x)"
    proof -
      have "filter (\<lambda>x. nnumber x > num s h \<and> unwrap_or_false (isd s h (nhash x))) (roots t) = ?rs"
        by (rule filter_cong [OF refl keep])
      moreover have "\<not> list_all (\<lambda>x. nnumber x > num s h \<and> unwrap_or_false (isd s h (nhash x))) (roots t)
          \<longleftrightarrow> (\<exists>x\<in>set (roots t). \<not> ?keep x)"
        unfolding list_all_iff using keep by blast
      ultimately show ?thesis by (simp only: retain_def)
    qed
    then have ff: "fork_finalize (isd s) h (num s h) t = (Inr (if \<exists>x\<in>set (roots t). \<not> ?keep x then Changed None else Unchanged),
        t\<lparr>roots := ?rs, best_finalized_number := Some (num s h)\<rparr>)"
      using r fr dr False by (simp add: fork_finalize_def)
    have frs: "forest s ?rs" using f unfolding forest_ok_def unrelated_def by (simp add: distinct_map_filter)
    have gone: "filter_mset (\<lambda>e. fst e = h \<or> desc s h (fst e)) (mset (entries x)) = {#}"
      if "x \<in> set (roots t)" "\<not> ?keep x" for x
      by (rule kept_drop [OF s _ h]) (use tr ne False that in blast)+
    have "kept s h ?rs = kept s h (roots t)" by (rule forest_filter_keep) (rule gone)
    moreover have "\<forall>x\<in>set ?rs. ?keep x" by simp
    ultimately have "finalized_tree (desc s) h (num s h) t (t\<lparr>roots := ?rs, best_finalized_number := Some (num s h)\<rparr>)"
      "finalized_value (desc s) h (num s h) t (if \<exists>x\<in>set (roots t). \<not> ?keep x then Changed None else Unchanged)"
      using finalized_none [OF s h frs] by blast+
    moreover have "forest s (roots (t\<lparr>roots := ?rs, best_finalized_number := Some (num s h)\<rparr>))" using frs by simp
    ultimately show ?thesis unfolding if_not_P [OF False] using ff by blast
  qed
qed

end

end
