(* ===== verification/Header_Metadata.thy ===== *)
theory Header_Metadata
  imports Substrate_Prelude
begin

text \<open>
  Routes over the tree of headers (\<open>primitives/blockchain/src/header_metadata.rs\<close>) and the ancestry
  check of the client (\<open>client/api/src/lib.rs\<close>, \<open>utils\<close>).  The trait \<open>HeaderMetadata\<close> is two functions
  on the state of a backend: \<open>hm\<close> reads the metadata of a hash and may fail, \<open>ins\<close> stores metadata
  with a new ancestor link.  The loops follow links that the backend supplies and need not end
  for every backend: they are partial functions, and \<open>None\<close> is a loop that does not end.
\<close>

section \<open>Data\<close>

record ('h, 'n) cached_header_metadata =
  md_hash :: 'h
  md_number :: 'n
  md_parent :: 'h
  md_ancestor :: 'h

text \<open>A header: its hash, its number and its parent's hash.\<close>

record ('h, 'n) chain_header =
  hd_hash :: 'h
  hd_number :: 'n
  hd_parent :: 'h

definition metadata_from :: "('h, 'n) chain_header \<Rightarrow> ('h, 'n) cached_header_metadata" where
  "metadata_from x =
     \<lparr>md_hash = hd_hash x, md_number = hd_number x, md_parent = hd_parent x, md_ancestor = hd_parent x\<rparr>"

type_synonym ('h, 'n) hash_and_number = "'h \<times> 'n"

record ('h, 'n) tree_route =
  route :: "('h, 'n) hash_and_number list"
  pivot :: nat

definition retracted :: "('h, 'n) tree_route \<Rightarrow> ('h, 'n) hash_and_number list" where
  "retracted r = take (pivot r) (route r)"

definition common_block :: "('h, 'n) tree_route \<Rightarrow> ('h, 'n) hash_and_number option" where
  "common_block r = (if pivot r < length (route r) then Some (route r ! pivot r) else None)"

definition enacted :: "('h, 'n) tree_route \<Rightarrow> ('h, 'n) hash_and_number list" where
  "enacted r = drop (pivot r + 1) (route r)"

section \<open>Lowest common ancestor\<close>

text \<open>The two loops over ancestor links: one per header, each down to the number of the other.\<close>

partial_function (option) skip_ancestors ::
  "('h \<Rightarrow> 'e + ('h, 'n::linorder) cached_header_metadata) \<Rightarrow> ('h, 'n) cached_header_metadata \<Rightarrow> 'n
    \<Rightarrow> ('e + ('h, 'n) cached_header_metadata) option" where
  "skip_ancestors hm x n =
     (if md_number x > n
      then case hm (md_ancestor x) of
             Inl e \<Rightarrow> Some (Inl e)
           | Inr a \<Rightarrow> if md_number a \<ge> n then skip_ancestors hm a n else Some (Inr x)
      else Some (Inr x))"

partial_function (option) walk_parents ::
  "('h \<Rightarrow> 'e + ('h, 'n::linorder) cached_header_metadata) \<Rightarrow> ('h, 'n) cached_header_metadata
    \<Rightarrow> ('h, 'n) cached_header_metadata \<Rightarrow> ('e + ('h, 'n) cached_header_metadata) option" where
  "walk_parents hm one two =
     (if md_hash one \<noteq> md_hash two
      then if md_number one > md_number two
           then case hm (md_parent one) of Inl e \<Rightarrow> Some (Inl e) | Inr p \<Rightarrow> walk_parents hm p two
           else case hm (md_parent two) of Inl e \<Rightarrow> Some (Inl e) | Inr p \<Rightarrow> walk_parents hm one p
      else Some (Inr one))"

definition cache_ancestor ::
  "('h \<Rightarrow> ('h, 'n::linorder) cached_header_metadata \<Rightarrow> 's \<Rightarrow> 's) \<Rightarrow> ('h, 'n) cached_header_metadata
    \<Rightarrow> ('h, 'n) cached_header_metadata \<Rightarrow> 's \<Rightarrow> 's" where
  "cache_ancestor ins orig lca s =
     (if md_number orig > md_number lca then ins (md_hash orig) (orig\<lparr>md_ancestor := md_hash lca\<rparr>) s else s)"

definition lowest_common_ancestor ::
  "('s \<Rightarrow> 'h \<Rightarrow> 'e + ('h, 'n::linorder) cached_header_metadata)
    \<Rightarrow> ('h \<Rightarrow> ('h, 'n) cached_header_metadata \<Rightarrow> 's \<Rightarrow> 's) \<Rightarrow> 'h \<Rightarrow> 'h \<Rightarrow> 's
    \<Rightarrow> (('e + ('h, 'n) hash_and_number) \<times> 's) option" where
  "lowest_common_ancestor hm ins id_one id_two s =
     (case hm s id_one of
        Inl e \<Rightarrow> Some (Inl e, s)
      | Inr orig_one \<Rightarrow>
     (case hm s id_two of
        Inl e \<Rightarrow> Some (Inl e, s)
      | Inr orig_two \<Rightarrow>
     (case skip_ancestors (hm s) orig_one (md_number orig_two) of
        None \<Rightarrow> None
      | Some (Inl e) \<Rightarrow> Some (Inl e, s)
      | Some (Inr one) \<Rightarrow>
     (case skip_ancestors (hm s) orig_two (md_number one) of
        None \<Rightarrow> None
      | Some (Inl e) \<Rightarrow> Some (Inl e, s)
      | Some (Inr two) \<Rightarrow>
     (case walk_parents (hm s) one two of
        None \<Rightarrow> None
      | Some (Inl e) \<Rightarrow> Some (Inl e, s)
      | Some (Inr lca) \<Rightarrow>
          Some (Inr (md_hash lca, md_number lca),
                cache_ancestor ins orig_two lca (cache_ancestor ins orig_one lca s)))))))"

section \<open>Tree route\<close>

text \<open>The first two loops of \<open>tree_route\<close>, with the branch they collect, and the third.\<close>

partial_function (option) descend_to ::
  "('h \<Rightarrow> 'e + ('h, 'n::linorder) cached_header_metadata) \<Rightarrow> ('h, 'n) cached_header_metadata \<Rightarrow> 'n
    \<Rightarrow> ('h, 'n) hash_and_number list \<Rightarrow> ('e + ('h, 'n) cached_header_metadata \<times> ('h, 'n) hash_and_number list) option" where
  "descend_to hm x n branch =
     (if md_number x > n
      then case hm (md_parent x) of
             Inl e \<Rightarrow> Some (Inl e)
           | Inr p \<Rightarrow> descend_to hm p n (branch @ [(md_hash x, md_number x)])
      else Some (Inr (x, branch)))"

partial_function (option) descend_both ::
  "('h \<Rightarrow> 'e + ('h, 'n::linorder) cached_header_metadata) \<Rightarrow> ('h, 'n) cached_header_metadata
    \<Rightarrow> ('h, 'n) cached_header_metadata \<Rightarrow> ('h, 'n) hash_and_number list \<Rightarrow> ('h, 'n) hash_and_number list
    \<Rightarrow> ('e + ('h, 'n) cached_header_metadata \<times> ('h, 'n) hash_and_number list \<times> ('h, 'n) hash_and_number list) option" where
  "descend_both hm to from to_branch from_branch =
     (if md_hash to \<noteq> md_hash from
      then case hm (md_parent to) of
             Inl e \<Rightarrow> Some (Inl e)
           | Inr to' \<Rightarrow>
               (case hm (md_parent from) of
                  Inl e \<Rightarrow> Some (Inl e)
                | Inr from' \<Rightarrow>
                    descend_both hm to' from' (to_branch @ [(md_hash to, md_number to)])
                      (from_branch @ [(md_hash from, md_number from)]))
      else Some (Inr (to, to_branch, from_branch)))"

definition tree_route_between ::
  "('h \<Rightarrow> 'e + ('h, 'n::linorder) cached_header_metadata) \<Rightarrow> 'h \<Rightarrow> 'h \<Rightarrow> ('e + ('h, 'n) tree_route) option" where
  "tree_route_between hm from to =
     (case hm from of
        Inl e \<Rightarrow> Some (Inl e)
      | Inr from \<Rightarrow>
     (case hm to of
        Inl e \<Rightarrow> Some (Inl e)
      | Inr to \<Rightarrow>
     (case descend_to hm to (md_number from) [] of
        None \<Rightarrow> None
      | Some (Inl e) \<Rightarrow> Some (Inl e)
      | Some (Inr (to, to_branch)) \<Rightarrow>
     (case descend_to hm from (md_number to) [] of
        None \<Rightarrow> None
      | Some (Inl e) \<Rightarrow> Some (Inl e)
      | Some (Inr (from, from_branch)) \<Rightarrow>
     (case descend_both hm to from to_branch from_branch of
        None \<Rightarrow> None
      | Some (Inl e) \<Rightarrow> Some (Inl e)
      | Some (Inr (to, to_branch, from_branch)) \<Rightarrow>
          Some (Inr \<lparr>route = from_branch @ [(md_hash to, md_number to)] @ rev to_branch,
                     pivot = length from_branch\<rparr>))))))"

section \<open>The ancestry check\<close>

text \<open>
  \<open>is_descendent_of\<close> closes over the client and the block being imported, if any: its hash and
  its parent's.
\<close>

definition is_descendent_of_client ::
  "('s \<Rightarrow> 'h \<Rightarrow> 'e + ('h, 'n::linorder) cached_header_metadata)
    \<Rightarrow> ('h \<Rightarrow> ('h, 'n) cached_header_metadata \<Rightarrow> 's \<Rightarrow> 's) \<Rightarrow> ('h \<times> 'h) option \<Rightarrow> 'h \<Rightarrow> 'h \<Rightarrow> 's
    \<Rightarrow> (('e + bool) \<times> 's) option" where
  "is_descendent_of_client hm ins current base hash s =
     (if base = hash then Some (Inr False, s)
      else let decided = (case current of
                 None \<Rightarrow> Inr hash
               | Some (current_hash, current_parent_hash) \<Rightarrow>
                   if base = current_hash then Inl False
                   else if hash = current_hash
                   then if base = current_parent_hash then Inl True else Inr current_parent_hash
                   else Inr hash)
           in case decided of
                Inl b \<Rightarrow> Some (Inr b, s)
              | Inr hash \<Rightarrow>
                  (case lowest_common_ancestor hm ins hash base s of
                     None \<Rightarrow> None
                   | Some (Inl e, s') \<Rightarrow> Some (Inl e, s')
                   | Some (Inr (anc, _), s') \<Rightarrow> Some (Inr (anc = base), s')))"

end
