(* ===== verification/Header_Chain.thy ===== *)
theory Header_Chain
  imports Header_Metadata
begin

text \<open>
  Trees of headers with one genesis block, and what the routes of \<open>Header_Metadata\<close> compute on
  them.  A backend is described by the headers it knows and by metadata that agrees with them,
  up to the ancestor links, which may point at any proper ancestor.
\<close>

section \<open>Trees of headers\<close>

definition up :: "('h \<rightharpoonup> ('h, 'n) chain_header) \<Rightarrow> 'h \<Rightarrow> ('h \<times> 'h) set" where
  "up hs gen = {(h, p). h \<noteq> gen \<and> (\<exists>x. hs h = Some x \<and> hd_parent x = p)}"

definition num_of :: "('h \<rightharpoonup> ('h, 'n) chain_header) \<Rightarrow> 'h \<Rightarrow> 'n" where
  "num_of hs h = hd_number (the (hs h))"

definition chain_ok :: "('h \<rightharpoonup> ('h, 'n::linorder) chain_header) \<Rightarrow> 'h \<Rightarrow> bool" where
  "chain_ok hs gen \<longleftrightarrow> finite (dom hs) \<and> gen \<in> dom hs
     \<and> (\<forall>(h, p)\<in>up hs gen. p \<in> dom hs \<and> num_of hs p < num_of hs h)"

lemma up_single: "single_valued (up hs gen)"
  by (auto simp: single_valued_def up_def)

lemma up_known: "(h, p) \<in> up hs gen \<Longrightarrow> h \<in> dom hs"
  by (auto simp: up_def)

lemma upI: "hs h = Some x \<Longrightarrow> h \<noteq> gen \<Longrightarrow> (h, hd_parent x) \<in> up hs gen"
  by (auto simp: up_def)

lemma chain_up: "chain_ok hs gen \<Longrightarrow> (h, p) \<in> up hs gen \<Longrightarrow> p \<in> dom hs \<and> num_of hs p < num_of hs h"
  by (auto simp: chain_ok_def)

lemma up_trancl:
  assumes "chain_ok hs gen" and "(h, a) \<in> (up hs gen)\<^sup>+"
  shows "h \<in> dom hs \<and> a \<in> dom hs \<and> num_of hs a < num_of hs h \<and> h \<noteq> gen"
  using assms(2)
proof induction
  case (base a)
  then show ?case using chain_up [OF assms(1)] up_known by (fastforce simp: up_def)
next
  case (step a b)
  then show ?case using chain_up [OF assms(1)] by fastforce
qed

lemma up_rtrancl:
  assumes "chain_ok hs gen" and "(h, a) \<in> (up hs gen)\<^sup>*" and "h \<in> dom hs"
  shows "a \<in> dom hs \<and> num_of hs a \<le> num_of hs h \<and> (num_of hs a = num_of hs h \<longrightarrow> a = h)"
  using assms(2,3) up_trancl [OF assms(1), of h a] by (auto simp: rtrancl_eq_or_trancl)

lemma up_linear: "(c, a) \<in> (up hs gen)\<^sup>* \<Longrightarrow> (c, b) \<in> (up hs gen)\<^sup>* \<Longrightarrow>
    (a, b) \<in> (up hs gen)\<^sup>* \<or> (b, a) \<in> (up hs gen)\<^sup>*"
  by (rule single_valued_confluent [OF up_single])

lemma up_wf:
  assumes "chain_ok hs gen"
  shows "wf ((up hs gen)\<inverse>)"
proof (rule finite_acyclic_wf)
  have "up hs gen \<subseteq> dom hs \<times> dom hs" using chain_up [OF assms] up_known by fastforce
  then show "finite ((up hs gen)\<inverse>)" using assms finite_subset by (fastforce simp: chain_ok_def)
  show "acyclic ((up hs gen)\<inverse>)" using up_trancl [OF assms] by (auto simp: acyclic_def trancl_converse)
qed

lemma up_genesis:
  assumes "chain_ok hs gen" and "h \<in> dom hs"
  shows "(h, gen) \<in> (up hs gen)\<^sup>*"
  using up_wf [OF assms(1)] assms(2)
proof (induction h rule: wf_induct_rule)
  case (less h)
  show ?case
  proof (cases "h = gen")
    case False
    obtain x where "hs h = Some x" using less.prems by auto
    then have x: "(h, hd_parent x) \<in> up hs gen" using False by (rule upI)
    then have "(hd_parent x, gen) \<in> (up hs gen)\<^sup>*"
      using less.IH [of "hd_parent x"] chain_up [OF assms(1) x] by simp
    then show ?thesis by (rule converse_rtrancl_into_rtrancl [OF x])
  qed simp
qed

definition common_ancestor :: "('h \<rightharpoonup> ('h, 'n) chain_header) \<Rightarrow> 'h \<Rightarrow> 'h \<Rightarrow> 'h \<Rightarrow> 'h \<Rightarrow> bool" where
  "common_ancestor hs gen a b c \<longleftrightarrow> (a, c) \<in> (up hs gen)\<^sup>* \<and> (b, c) \<in> (up hs gen)\<^sup>*"

definition is_lca :: "('h \<rightharpoonup> ('h, 'n) chain_header) \<Rightarrow> 'h \<Rightarrow> 'h \<Rightarrow> 'h \<Rightarrow> 'h \<Rightarrow> bool" where
  "is_lca hs gen a b l \<longleftrightarrow> common_ancestor hs gen a b l
     \<and> (\<forall>c. common_ancestor hs gen a b c \<longrightarrow> (l, c) \<in> (up hs gen)\<^sup>*)"

lemma lca_unique:
  assumes "chain_ok hs gen" and "is_lca hs gen a b l" and "is_lca hs gen a b m"
  shows "l = m"
proof (rule ccontr)
  assume "l \<noteq> m"
  moreover have "(l, m) \<in> (up hs gen)\<^sup>*" "(m, l) \<in> (up hs gen)\<^sup>*" using assms(2,3) by (auto simp: is_lca_def)
  ultimately have "(l, m) \<in> (up hs gen)\<^sup>+" "(m, l) \<in> (up hs gen)\<^sup>+" by (auto simp: rtrancl_eq_or_trancl)
  then show False using up_trancl [OF assms(1)] by (meson not_less_iff_gr_or_eq)
qed

lemma lca_same: "is_lca hs gen a a a"
  by (simp add: is_lca_def common_ancestor_def)

lemma lca_sym: "is_lca hs gen a b l = is_lca hs gen b a l"
  by (auto simp: is_lca_def common_ancestor_def)

text \<open>Replacing a block by an ancestor that is not below the common one keeps the common ancestor.\<close>

lemma lca_step:
  assumes ok: "chain_ok hs gen" and known: "a \<in> dom hs" "b \<in> dom hs" and "(a, a') \<in> (up hs gen)\<^sup>*"
    and above: "\<And>c. common_ancestor hs gen a b c \<Longrightarrow> (a', c) \<in> (up hs gen)\<^sup>*"
  shows "is_lca hs gen a' b l = is_lca hs gen a b l"
proof -
  have "common_ancestor hs gen a' b c = common_ancestor hs gen a b c" for c
    using above assms(4) by (auto simp: common_ancestor_def)
  then show ?thesis by (simp add: is_lca_def)
qed

lemma lca_jump:
  assumes ok: "chain_ok hs gen" and known: "a \<in> dom hs" "b \<in> dom hs" and an: "(a, a') \<in> (up hs gen)\<^sup>*"
    and num: "num_of hs b \<le> num_of hs a'"
  shows "is_lca hs gen a' b l = is_lca hs gen a b l"
proof (rule lca_step [OF ok known an])
  fix c assume c: "common_ancestor hs gen a b c"
  then have "(a', c) \<in> (up hs gen)\<^sup>* \<or> (c, a') \<in> (up hs gen)\<^sup>*"
    using up_linear an by (fastforce simp: common_ancestor_def)
  moreover have "c \<in> dom hs" "num_of hs c \<le> num_of hs b"
    using up_rtrancl [OF ok] c known by (auto simp: common_ancestor_def)
  ultimately show "(a', c) \<in> (up hs gen)\<^sup>*"
    using up_rtrancl [OF ok, of c a'] num by fastforce
qed

lemma lca_parent:
  assumes ok: "chain_ok hs gen" and known: "a \<in> dom hs" "b \<in> dom hs"
    and ne: "a \<noteq> b" and num: "num_of hs b \<le> num_of hs a"
  shows "\<exists>p. (a, p) \<in> up hs gen \<and> p \<in> dom hs \<and> (\<forall>l. is_lca hs gen p b l = is_lca hs gen a b l)"
proof -
  have "a \<noteq> gen"
  proof
    assume "a = gen"
    then have "(b, a) \<in> (up hs gen)\<^sup>+" using up_genesis [OF ok known(2)] ne by (auto simp: rtrancl_eq_or_trancl)
    then show False using up_trancl [OF ok] num by fastforce
  qed
  then obtain p where p: "(a, p) \<in> up hs gen" using known(1) upI by (metis domD)
  have "is_lca hs gen p b l = is_lca hs gen a b l" for l
  proof (rule lca_step [OF ok known])
    show "(a, p) \<in> (up hs gen)\<^sup>*" using p by blast
    fix c assume c: "common_ancestor hs gen a b c"
    have "a \<noteq> c" using c up_rtrancl [OF ok _ known(2), of c] num ne by (fastforce simp: common_ancestor_def)
    then show "(p, c) \<in> (up hs gen)\<^sup>*"
      using c p up_single by (metis common_ancestor_def converse_rtranclE single_valuedD)
  qed
  then show ?thesis using p chain_up [OF ok p] by blast
qed

section \<open>Metadata that agrees with the headers\<close>

definition metadata_for :: "('h \<rightharpoonup> ('h, 'n) chain_header) \<Rightarrow> 'h \<Rightarrow> ('h, 'n) cached_header_metadata \<Rightarrow> bool" where
  "metadata_for hs gen m \<longleftrightarrow>
     (\<exists>x. hs (md_hash m) = Some x \<and> md_number m = hd_number x \<and> md_parent m = hd_parent x)
     \<and> (md_hash m \<noteq> gen \<longrightarrow> (md_hash m, md_ancestor m) \<in> (up hs gen)\<^sup>+)"

definition metadata_ok :: "('h \<rightharpoonup> ('h, 'n) chain_header) \<Rightarrow> 'h \<Rightarrow> ('h \<Rightarrow> 'e + ('h, 'n) cached_header_metadata) \<Rightarrow> bool" where
  "metadata_ok hs gen hm \<longleftrightarrow>
     (\<forall>h. case hm h of Inl _ \<Rightarrow> h \<notin> dom hs | Inr m \<Rightarrow> md_hash m = h \<and> metadata_for hs gen m)"

lemma metadata_case:
  "metadata_ok hs gen hm \<Longrightarrow> case hm h of Inl _ \<Rightarrow> h \<notin> dom hs | Inr m \<Rightarrow> md_hash m = h \<and> metadata_for hs gen m"
  by (simp add: metadata_ok_def)

lemma metadata_known:
  assumes "metadata_ok hs gen hm" and "h \<in> dom hs"
  obtains m where "hm h = Inr m" "md_hash m = h" "metadata_for hs gen m"
  using metadata_case [OF assms(1), of h] assms(2) by (cases "hm h") auto

lemma metadata_unknown: "metadata_ok hs gen hm \<Longrightarrow> h \<notin> dom hs \<Longrightarrow> \<exists>e. hm h = Inl e"
  using metadata_case [of hs gen hm h] by (cases "hm h") (auto simp: metadata_for_def)

lemma metadata_facts:
  assumes "metadata_for hs gen m"
  shows "md_hash m \<in> dom hs" "md_number m = num_of hs (md_hash m)"
    and "md_hash m \<noteq> gen \<Longrightarrow> (md_hash m, md_parent m) \<in> up hs gen"
    and "md_hash m \<noteq> gen \<Longrightarrow> (md_hash m, md_ancestor m) \<in> (up hs gen)\<^sup>+"
  using assms by (auto simp: metadata_for_def num_of_def up_def)

lemma not_genesis:
  assumes "chain_ok hs gen" and "b \<in> dom hs" and "num_of hs b < num_of hs a"
  shows "a \<noteq> gen"
  using up_rtrancl [OF assms(1) up_genesis [OF assms(1,2)] assms(2)] assms(3) leD by blast

lemma skip_ancestors_ok:
  assumes ok: "chain_ok hs gen" and md: "metadata_ok hs gen hm" and b: "b \<in> dom hs"
    and x: "metadata_for hs gen x"
  shows "\<exists>y. skip_ancestors hm x (num_of hs b) = Some (Inr y) \<and> metadata_for hs gen y
    \<and> (\<forall>l. is_lca hs gen (md_hash y) b l = is_lca hs gen (md_hash x) b l)
    \<and> (md_hash x, md_hash y) \<in> (up hs gen)\<^sup>*"
proof -
  have "wf (((up hs gen)\<inverse>)\<^sup>+)" by (rule wf_trancl [OF up_wf [OF ok]])
  then show ?thesis using x
  proof (induction "md_hash x" arbitrary: x rule: wf_induct_rule)
    case less
    show ?case
    proof (cases "md_number x > num_of hs b")
      case False
      then show ?thesis using less.prems by (subst skip_ancestors.simps) auto
    next
      case True
      then have "md_hash x \<noteq> gen"
        using not_genesis [OF ok b] metadata_facts(2) [OF less.prems] by simp
      then have anc: "(md_hash x, md_ancestor x) \<in> (up hs gen)\<^sup>+" by (rule metadata_facts(4) [OF less.prems])
      have "md_ancestor x \<in> dom hs" using up_trancl [OF ok anc] by blast
      then obtain a where a: "hm (md_ancestor x) = Inr a" "md_hash a = md_ancestor x" "metadata_for hs gen a"
        by (rule metadata_known [OF md])
      show ?thesis
      proof (cases "md_number a \<ge> num_of hs b")
        case False
        then show ?thesis using less.prems True a by (subst skip_ancestors.simps) auto
      next
        case ge: True
        have "(md_hash a, md_hash x) \<in> ((up hs gen)\<inverse>)\<^sup>+" using anc a(2) by (simp add: trancl_converse)
        from less.hyps [OF this a(3)] obtain y where y: "skip_ancestors hm a (num_of hs b) = Some (Inr y)"
          "metadata_for hs gen y" "\<forall>l. is_lca hs gen (md_hash y) b l = is_lca hs gen (md_hash a) b l"
          "(md_hash a, md_hash y) \<in> (up hs gen)\<^sup>*" by blast
        have path: "(md_hash x, md_hash a) \<in> (up hs gen)\<^sup>*" using anc a(2) by (simp add: trancl_into_rtrancl)
        have "is_lca hs gen (md_hash a) b l = is_lca hs gen (md_hash x) b l" for l
          using lca_jump [OF ok metadata_facts(1) [OF less.prems] b path] ge metadata_facts(2) [OF a(3)] by simp
        moreover have "skip_ancestors hm x (num_of hs b) = skip_ancestors hm a (num_of hs b)"
          using True a(1) ge by (subst skip_ancestors.simps) simp
        ultimately show ?thesis using y path by (metis rtrancl_trans)
      qed
    qed
  qed
qed

lemma walk_parents_ok:
  assumes ok: "chain_ok hs gen" and md: "metadata_ok hs gen hm"
    and x: "metadata_for hs gen x" and y: "metadata_for hs gen y"
  shows "\<exists>l. walk_parents hm x y = Some (Inr l) \<and> metadata_for hs gen l \<and> is_lca hs gen (md_hash x) (md_hash y) (md_hash l)"
proof -
  have "wf ((up hs gen)\<inverse> <*lex*> (up hs gen)\<inverse>)" by (intro wf_lex_prod up_wf ok)
  then show ?thesis using x y
  proof (induction "(md_hash x, md_hash y)" arbitrary: x y rule: wf_induct_rule)
    case less
    note X = metadata_facts [OF less.prems(1)] and Y = metadata_facts [OF less.prems(2)]
    show ?case
    proof (cases "md_hash x = md_hash y")
      case True
      then show ?thesis using less.prems lca_same by (subst walk_parents.simps) auto
    next
      case ne: False
      show ?thesis
      proof (cases "md_number x > md_number y")
        case True
        then have "num_of hs (md_hash y) \<le> num_of hs (md_hash x)" using X(2) Y(2) by simp
        from lca_parent [OF ok X(1) Y(1) ne this] obtain p where p: "(md_hash x, p) \<in> up hs gen" "p \<in> dom hs"
          "\<forall>l. is_lca hs gen p (md_hash y) l = is_lca hs gen (md_hash x) (md_hash y) l" by blast
        have "p = md_parent x" using p(1) X(3) up_single [of hs gen] by (auto simp: up_def)
        then obtain z where z: "hm (md_parent x) = Inr z" "md_hash z = p" "metadata_for hs gen z"
          using metadata_known [OF md p(2)] by blast
        have "((md_hash z, md_hash y), (md_hash x, md_hash y)) \<in> (up hs gen)\<inverse> <*lex*> (up hs gen)\<inverse>" using p(1) z(2) by simp
        from less.hyps [OF this z(3) less.prems(2)] show ?thesis
          using ne True z p(3) by (subst walk_parents.simps) simp
      next
        case False
        then have "num_of hs (md_hash x) \<le> num_of hs (md_hash y)" using X(2) Y(2) by simp
        from lca_parent [OF ok Y(1) X(1) ne [symmetric] this] obtain p where p: "(md_hash y, p) \<in> up hs gen" "p \<in> dom hs"
          "\<forall>l. is_lca hs gen p (md_hash x) l = is_lca hs gen (md_hash y) (md_hash x) l" by blast
        have "p = md_parent y" using p(1) Y(3) up_single [of hs gen] by (auto simp: up_def)
        then obtain z where z: "hm (md_parent y) = Inr z" "md_hash z = p" "metadata_for hs gen z"
          using metadata_known [OF md p(2)] by blast
        have "((md_hash x, md_hash z), (md_hash x, md_hash y)) \<in> (up hs gen)\<inverse> <*lex*> (up hs gen)\<inverse>" using p(1) z(2) by simp
        moreover have "\<forall>l. is_lca hs gen (md_hash x) p l = is_lca hs gen (md_hash x) (md_hash y) l"
          using p(3) unfolding lca_sym [of hs gen "md_hash x"] .
        ultimately show ?thesis
          using less.hyps [OF _ less.prems(1) z(3)] ne False z by (subst walk_parents.simps) simp
      qed
    qed
  qed
qed

section \<open>Lowest common ancestor\<close>

lemma lowest_common_ancestor_ok:
  assumes ok: "chain_ok hs gen" and md: "metadata_ok hs gen (hm s)" and a: "a \<in> dom hs" and b: "b \<in> dom hs"
  shows "\<exists>x y l. metadata_for hs gen x \<and> md_hash x = a \<and> metadata_for hs gen y \<and> md_hash y = b
    \<and> metadata_for hs gen l \<and> is_lca hs gen a b (md_hash l)
    \<and> lowest_common_ancestor hm ins a b s =
        Some (Inr (md_hash l, md_number l), cache_ancestor ins y l (cache_ancestor ins x l s))"
proof -
  obtain x where x: "hm s a = Inr x" "md_hash x = a" "metadata_for hs gen x" by (rule metadata_known [OF md a])
  obtain y where y: "hm s b = Inr y" "md_hash y = b" "metadata_for hs gen y" by (rule metadata_known [OF md b])
  obtain x' where x': "skip_ancestors (hm s) x (num_of hs b) = Some (Inr x')" "metadata_for hs gen x'"
    "\<forall>l. is_lca hs gen (md_hash x') b l = is_lca hs gen a b l"
    using skip_ancestors_ok [OF ok md b x(3)] x(2) by blast
  obtain y' where y': "skip_ancestors (hm s) y (num_of hs (md_hash x')) = Some (Inr y')" "metadata_for hs gen y'"
    "\<forall>l. is_lca hs gen (md_hash y') (md_hash x') l = is_lca hs gen b (md_hash x') l"
    using skip_ancestors_ok [OF ok md metadata_facts(1) [OF x'(2)] y(3)] y(2) by blast
  obtain l where l: "walk_parents (hm s) x' y' = Some (Inr l)" "metadata_for hs gen l"
    "is_lca hs gen (md_hash x') (md_hash y') (md_hash l)"
    using walk_parents_ok [OF ok md x'(2) y'(2)] by blast
  have "is_lca hs gen a b (md_hash l)" using l(3) x'(3) y'(3) by (metis lca_sym)
  moreover have "md_number y = num_of hs b" "md_number x' = num_of hs (md_hash x')"
    using metadata_facts(2) [OF y(3)] metadata_facts(2) [OF x'(2)] y(2) by simp_all
  ultimately show ?thesis
    using x y x'(1) y'(1) l(1,2) by (auto simp: lowest_common_ancestor_def)
qed

lemma lowest_common_ancestor_unknown:
  assumes "metadata_ok hs gen (hm s)" and "a \<notin> dom hs \<or> b \<notin> dom hs"
  shows "\<exists>e. lowest_common_ancestor hm ins a b s = Some (Inl e, s)"
proof (cases "hm s a")
  case (Inr x)
  then have "a \<in> dom hs" using metadata_unknown [OF assms(1), of a] by auto
  then obtain e where "hm s b = Inl e" using assms(2) metadata_unknown [OF assms(1), of b] by blast
  then show ?thesis using Inr by (simp add: lowest_common_ancestor_def)
qed (simp add: lowest_common_ancestor_def)

lemma lca_is_base: "is_lca hs gen h b l \<Longrightarrow> chain_ok hs gen \<Longrightarrow> l = b \<longleftrightarrow> (h, b) \<in> (up hs gen)\<^sup>*"
  using lca_unique [of hs gen h b l b] by (auto simp: is_lca_def common_ancestor_def)

text \<open>A relation extended by one edge from a new element.\<close>

lemma extended_ancestry:
  assumes closed: "u \<subseteq> D \<times> D" and p: "p \<in> D" and c: "c \<notin> D"
  shows "(x, c) \<notin> (insert (c, p) u)\<^sup>+"
    and "x \<in> D \<Longrightarrow> (x, y) \<in> (insert (c, p) u)\<^sup>+ \<longleftrightarrow> (x, y) \<in> u\<^sup>+"
    and "(c, y) \<in> (insert (c, p) u)\<^sup>+ \<longleftrightarrow> y = p \<or> (p, y) \<in> u\<^sup>+"
proof -
  show "(x, c) \<notin> (insert (c, p) u)\<^sup>+"
  proof
    assume "(x, c) \<in> (insert (c, p) u)\<^sup>+"
    then obtain z where "(z, c) \<in> insert (c, p) u" by (rule tranclE) blast+
    then show False using closed p c by auto
  qed
  have "(x, y) \<in> u\<^sup>+ \<and> y \<in> D" if "(x, y) \<in> (insert (c, p) u)\<^sup>+" "x \<in> D" for x y
    using that(1)
  proof induction
    case (base y)
    then show ?case using that(2) c closed by auto
  next
    case (step y z)
    then have "(y, z) \<in> u" using c by auto
    then show ?case using step.IH closed by (auto intro: trancl_into_trancl)
  qed
  moreover have "u\<^sup>+ \<subseteq> (insert (c, p) u)\<^sup>+" by (rule trancl_mono_subset) blast
  ultimately have old: "(x, y) \<in> (insert (c, p) u)\<^sup>+ \<longleftrightarrow> (x, y) \<in> u\<^sup>+" if "x \<in> D" for x y
    using that by blast
  then show "x \<in> D \<Longrightarrow> (x, y) \<in> (insert (c, p) u)\<^sup>+ \<longleftrightarrow> (x, y) \<in> u\<^sup>+" .
  have "y = p \<or> (p, y) \<in> (insert (c, p) u)\<^sup>+" if "(c, y) \<in> (insert (c, p) u)\<^sup>+"
    using that closed c by (cases rule: converse_tranclE) auto
  moreover have "(c, y) \<in> (insert (c, p) u)\<^sup>+" if "y = p \<or> (p, y) \<in> (insert (c, p) u)\<^sup>+"
    using that trancl_into_trancl2 [of c p "insert (c, p) u" y] by auto
  ultimately show "(c, y) \<in> (insert (c, p) u)\<^sup>+ \<longleftrightarrow> y = p \<or> (p, y) \<in> u\<^sup>+" using old [OF p] by blast
qed

text \<open>What a backend has to offer: a tree of headers, matching metadata, and updates of ancestor links.\<close>

locale header_backend =
  fixes hm :: "'s \<Rightarrow> 'h \<Rightarrow> 'e + ('h, 'n::linorder) cached_header_metadata"
    and ins :: "'h \<Rightarrow> ('h, 'n) cached_header_metadata \<Rightarrow> 's \<Rightarrow> 's"
    and hdr :: "'s \<Rightarrow> 'h \<rightharpoonup> ('h, 'n) chain_header"
    and gen :: "'s \<Rightarrow> 'h"
    and ok :: "'s \<Rightarrow> bool"
  assumes chain: "ok s \<Longrightarrow> chain_ok (hdr s) (gen s)"
    and meta: "ok s \<Longrightarrow> metadata_ok (hdr s) (gen s) (hm s)"
    and ins_ok: "ok s \<Longrightarrow> metadata_for (hdr s) (gen s) m \<Longrightarrow>
      ok (ins (md_hash m) m s) \<and> hdr (ins (md_hash m) m s) = hdr s \<and> gen (ins (md_hash m) m s) = gen s"
begin

lemma cache_ancestor_ok:
  assumes "ok s" and "metadata_for (hdr s) (gen s) m" and "metadata_for (hdr s) (gen s) l"
    and "(md_hash m, md_hash l) \<in> (up (hdr s) (gen s))\<^sup>*"
  shows "ok (cache_ancestor ins m l s) \<and> hdr (cache_ancestor ins m l s) = hdr s \<and> gen (cache_ancestor ins m l s) = gen s"
proof (cases "md_number m > md_number l")
  case True
  then have "md_hash m \<noteq> md_hash l"
    using metadata_facts(2) [OF assms(2)] metadata_facts(2) [OF assms(3)] by auto
  then have "(md_hash m, md_hash l) \<in> (up (hdr s) (gen s))\<^sup>+" using assms(4) by (auto simp: rtrancl_eq_or_trancl)
  then have "metadata_for (hdr s) (gen s) (m\<lparr>md_ancestor := md_hash l\<rparr>)"
    using assms(2) by (simp add: metadata_for_def)
  from ins_ok [OF assms(1) this] show ?thesis using True by (simp add: cache_ancestor_def)
qed (simp add: cache_ancestor_def assms(1))

lemma lca_total:
  assumes s: "ok s" and a: "a \<in> dom (hdr s)" and b: "b \<in> dom (hdr s)"
  shows "\<exists>l t. is_lca (hdr s) (gen s) a b l \<and> ok t \<and> hdr t = hdr s \<and> gen t = gen s
    \<and> lowest_common_ancestor hm ins a b s = Some (Inr (l, num_of (hdr s) l), t)"
proof -
  obtain x y l where l: "metadata_for (hdr s) (gen s) x" "md_hash x = a" "metadata_for (hdr s) (gen s) y" "md_hash y = b"
    "metadata_for (hdr s) (gen s) l" "is_lca (hdr s) (gen s) a b (md_hash l)"
    "lowest_common_ancestor hm ins a b s =
        Some (Inr (md_hash l, md_number l), cache_ancestor ins y l (cache_ancestor ins x l s))"
    using lowest_common_ancestor_ok [where hm = hm and s = s, OF chain [OF s] meta [OF s] a b] by blast
  let ?s1 = "cache_ancestor ins x l s"
  have p: "(md_hash x, md_hash l) \<in> (up (hdr s) (gen s))\<^sup>*" "(md_hash y, md_hash l) \<in> (up (hdr s) (gen s))\<^sup>*"
    using l(2,4,6) by (simp_all add: is_lca_def common_ancestor_def)
  have 1: "ok ?s1 \<and> hdr ?s1 = hdr s \<and> gen ?s1 = gen s" by (rule cache_ancestor_ok [OF s l(1,5) p(1)])
  then have "ok (cache_ancestor ins y l ?s1) \<and> hdr (cache_ancestor ins y l ?s1) = hdr ?s1 \<and> gen (cache_ancestor ins y l ?s1) = gen ?s1"
    using l(3,5) p(2) by (intro cache_ancestor_ok) auto
  then show ?thesis using 1 l(6,7) metadata_facts(2) [OF l(5)] by metis
qed

lemma descendent_total:
  assumes s: "ok s" and b: "base \<in> dom (hdr s)" and h: "h \<in> dom (hdr s)"
  shows "\<exists>t. ok t \<and> hdr t = hdr s \<and> gen t = gen s
    \<and> is_descendent_of_client hm ins None base h s = Some (Inr ((h, base) \<in> (up (hdr s) (gen s))\<^sup>+), t)"
proof (cases "base = h")
  case True
  then show ?thesis using s up_trancl [OF chain [OF s], of h h] by (auto simp: is_descendent_of_client_def)
next
  case False
  obtain l t where l: "is_lca (hdr s) (gen s) h base l" "ok t" "hdr t = hdr s" "gen t = gen s"
    "lowest_common_ancestor hm ins h base s = Some (Inr (l, num_of (hdr s) l), t)"
    using lca_total [OF s h b] by blast
  then show ?thesis using False lca_is_base [OF l(1) chain [OF s]]
    by (simp add: is_descendent_of_client_def rtrancl_eq_or_trancl)
qed

lemma descendent_current:
  assumes s: "ok s" and p: "p \<in> dom (hdr s)" and c: "c \<notin> dom (hdr s)"
    and b: "base \<in> insert c (dom (hdr s))" and h: "h \<in> insert c (dom (hdr s))"
  shows "\<exists>t. ok t \<and> hdr t = hdr s \<and> gen t = gen s
    \<and> is_descendent_of_client hm ins (Some (c, p)) base h s
        = Some (Inr ((h, base) \<in> (insert (c, p) (up (hdr s) (gen s)))\<^sup>+), t)"
proof -
  let ?u = "up (hdr s) (gen s)"
  have closed: "?u \<subseteq> dom (hdr s) \<times> dom (hdr s)"
    using chain_up [OF chain [OF s]] up_known by fastforce
  note ext = extended_ancestry [OF closed p c]
  have irr: "(x, x) \<notin> (insert (c, p) ?u)\<^sup>+" if "x \<in> insert c (dom (hdr s))" for x
    using that ext(1) [of x] ext(2) [of x x] ext(3) [of x] up_trancl [OF chain [OF s], of x x] c by auto
  show ?thesis
  proof (cases "base = h \<or> base = c")
    case True
    then show ?thesis using s irr [of h] h ext(1) [of h] by (auto simp: is_descendent_of_client_def)
  next
    case False
    then have bk: "base \<in> dom (hdr s)" using b by simp
    show ?thesis
    proof (cases "h = c")
      case True
      show ?thesis
      proof (cases "base = p")
        case True
        then show ?thesis using s False \<open>h = c\<close> by (auto simp: is_descendent_of_client_def)
      next
        case ne: False
        obtain l t where l: "is_lca (hdr s) (gen s) p base l" "ok t" "hdr t = hdr s" "gen t = gen s"
          "lowest_common_ancestor hm ins p base s = Some (Inr (l, num_of (hdr s) l), t)"
          using lca_total [OF s p bk] by blast
        then show ?thesis using False ne \<open>h = c\<close> lca_is_base [OF l(1) chain [OF s]] ext(3) [of base]
          by (auto simp: is_descendent_of_client_def rtrancl_eq_or_trancl)
      qed
    next
      case ne: False
      then have hk: "h \<in> dom (hdr s)" using h by simp
      obtain l t where l: "is_lca (hdr s) (gen s) h base l" "ok t" "hdr t = hdr s" "gen t = gen s"
        "lowest_common_ancestor hm ins h base s = Some (Inr (l, num_of (hdr s) l), t)"
        using lca_total [OF s hk bk] by blast
      then show ?thesis using False ne lca_is_base [OF l(1) chain [OF s]] ext(2) [OF hk, of base]
        by (auto simp: is_descendent_of_client_def rtrancl_eq_or_trancl)
    qed
  qed
qed

end

section \<open>Tree route\<close>

text \<open>Numbers along a branch do not skip a height at which some block is known.\<close>

definition no_gaps :: "('h \<rightharpoonup> ('h, 'n::linorder) chain_header) \<Rightarrow> 'h \<Rightarrow> bool" where
  "no_gaps hs gen \<longleftrightarrow> (\<forall>(h, p)\<in>up hs gen. \<forall>b\<in>dom hs. num_of hs p < num_of hs b \<longrightarrow> num_of hs h \<le> num_of hs b)"

fun up_path :: "('h \<rightharpoonup> ('h, 'n) chain_header) \<Rightarrow> 'h \<Rightarrow> 'h \<Rightarrow> ('h \<times> 'n) list \<Rightarrow> 'h \<Rightarrow> bool" where
  "up_path hs gen a [] c \<longleftrightarrow> a = c"
| "up_path hs gen a (b # bs) c \<longleftrightarrow> b = (a, num_of hs a) \<and> (\<exists>p. (a, p) \<in> up hs gen \<and> up_path hs gen p bs c)"

lemma up_path_append: "up_path hs gen a (xs @ ys) c \<longleftrightarrow> (\<exists>m. up_path hs gen a xs m \<and> up_path hs gen m ys c)"
  by (induction xs arbitrary: a) auto

lemma up_path_rtrancl: "up_path hs gen a bs c \<Longrightarrow> (a, c) \<in> (up hs gen)\<^sup>*"
  by (induction bs arbitrary: a) (auto intro: converse_rtrancl_into_rtrancl)

lemma descend_to_ok:
  assumes ok: "chain_ok hs gen" and ng: "no_gaps hs gen" and md: "metadata_ok hs gen hm" and b: "b \<in> dom hs"
    and x: "metadata_for hs gen x"
  shows "\<exists>y bs. descend_to hm x (num_of hs b) br = Some (Inr (y, br @ bs)) \<and> metadata_for hs gen y
    \<and> up_path hs gen (md_hash x) bs (md_hash y)
    \<and> (\<forall>l. is_lca hs gen (md_hash y) b l = is_lca hs gen (md_hash x) b l)
    \<and> md_number y = min (md_number x) (num_of hs b)"
  using up_wf [OF ok] x
proof (induction "md_hash x" arbitrary: x br rule: wf_induct_rule)
  case less
  note X = metadata_facts [OF less.prems]
  show ?case
  proof (cases "md_number x > num_of hs b")
    case False
    then show ?thesis using less.prems by (subst descend_to.simps) (auto intro: exI [of _ x] exI [of _ "[]"])
  next
    case True
    then have ng': "md_hash x \<noteq> gen" using not_genesis [OF ok b] X(2) by simp
    then have p: "(md_hash x, md_parent x) \<in> up hs gen" by (rule X(3))
    obtain z where z: "hm (md_parent x) = Inr z" "md_hash z = md_parent x" "metadata_for hs gen z"
      using metadata_known [OF md] chain_up [OF ok p] by blast
    have "(md_hash z, md_hash x) \<in> (up hs gen)\<inverse>" using p z(2) by simp
    from less.hyps [OF this z(3)] obtain y bs where y:
      "descend_to hm z (num_of hs b) (br @ [(md_hash x, md_number x)]) = Some (Inr (y, (br @ [(md_hash x, md_number x)]) @ bs))"
      "metadata_for hs gen y" "up_path hs gen (md_hash z) bs (md_hash y)"
      "\<forall>l. is_lca hs gen (md_hash y) b l = is_lca hs gen (md_hash z) b l" "md_number y = min (md_number z) (num_of hs b)"
      by blast
    have "md_number z \<ge> num_of hs b"
      using ng p b True X(2) metadata_facts(2) [OF z(3)] z(2) unfolding no_gaps_def by (metis (mono_tags, lifting) case_prodD leD leI)
    then have "is_lca hs gen (md_hash z) b l = is_lca hs gen (md_hash x) b l" for l
      using lca_jump [OF ok X(1) b, of "md_hash z"] p z(2) metadata_facts(2) [OF z(3)] by auto
    moreover have "md_number y = min (md_number x) (num_of hs b)"
      using y(5) \<open>md_number z \<ge> num_of hs b\<close> True by (simp add: min_absorb2)
    moreover have "descend_to hm x (num_of hs b) br = Some (Inr (y, br @ (md_hash x, md_number x) # bs))"
      using True z(1) y(1) by (subst descend_to.simps) simp
    moreover have "up_path hs gen (md_hash x) ((md_hash x, md_number x) # bs) (md_hash y)"
      using y(3) p z(2) X(2) by auto
    ultimately show ?thesis using y(2,4) by blast
  qed
qed

lemma descend_both_ok:
  assumes ok: "chain_ok hs gen" and ng: "no_gaps hs gen" and md: "metadata_ok hs gen hm"
    and x: "metadata_for hs gen x" and y: "metadata_for hs gen y" and eq: "md_number x = md_number y"
  shows "\<exists>l ts fs. descend_both hm x y tb fb = Some (Inr (l, tb @ ts, fb @ fs)) \<and> metadata_for hs gen l
    \<and> up_path hs gen (md_hash x) ts (md_hash l) \<and> up_path hs gen (md_hash y) fs (md_hash l)
    \<and> is_lca hs gen (md_hash x) (md_hash y) (md_hash l)"
  using up_wf [OF ok] x y eq
proof (induction "md_hash x" arbitrary: x y tb fb rule: wf_induct_rule)
  case less
  note X = metadata_facts [OF less.prems(1)] and Y = metadata_facts [OF less.prems(2)]
  show ?case
  proof (cases "md_hash x = md_hash y")
    case True
    then show ?thesis using less.prems lca_same
      by (subst descend_both.simps) (auto intro: exI [of _ x] exI [of _ "[]"])
  next
    case ne: False
    have num: "num_of hs (md_hash x) = num_of hs (md_hash y)" using less.prems(3) X(2) Y(2) by simp
    obtain p where p: "(md_hash x, p) \<in> up hs gen" "p \<in> dom hs"
      "\<forall>l. is_lca hs gen p (md_hash y) l = is_lca hs gen (md_hash x) (md_hash y) l"
      using lca_parent [OF ok X(1) Y(1) ne] num by auto
    have lt: "num_of hs p < num_of hs (md_hash y)" using chain_up [OF ok p(1)] num by simp
    obtain q where q: "(md_hash y, q) \<in> up hs gen" "q \<in> dom hs"
      "\<forall>l. is_lca hs gen q p l = is_lca hs gen (md_hash y) p l"
      using lca_parent [OF ok Y(1) p(2)] lt by (metis less_imp_le less_irrefl)
    have pq: "md_parent x = p" "md_parent y = q"
      using p(1) q(1) X(3) Y(3) by (auto simp: up_def)
    obtain x' where x': "hm (md_parent x) = Inr x'" "md_hash x' = p" "metadata_for hs gen x'"
      using metadata_known [OF md p(2)] pq by blast
    obtain y' where y': "hm (md_parent y) = Inr y'" "md_hash y' = q" "metadata_for hs gen y'"
      using metadata_known [OF md q(2)] pq by blast
    have "num_of hs p = num_of hs q"
      using ng p(1,2) q(1,2) chain_up [OF ok p(1)] chain_up [OF ok q(1)] num unfolding no_gaps_def
      by (metis (mono_tags, lifting) case_prodD leD linorder_neqE)
    then have "md_number x' = md_number y'" using metadata_facts(2) [OF x'(3)] metadata_facts(2) [OF y'(3)] x'(2) y'(2) by simp
    moreover have "(md_hash x', md_hash x) \<in> (up hs gen)\<inverse>" using p(1) x'(2) by simp
    ultimately obtain l ts fs where l:
      "descend_both hm x' y' (tb @ [(md_hash x, md_number x)]) (fb @ [(md_hash y, md_number y)])
        = Some (Inr (l, (tb @ [(md_hash x, md_number x)]) @ ts, (fb @ [(md_hash y, md_number y)]) @ fs))"
      "metadata_for hs gen l" "up_path hs gen p ts (md_hash l)" "up_path hs gen q fs (md_hash l)" "is_lca hs gen p q (md_hash l)"
      using less.hyps [OF _ x'(3) y'(3)] x'(2) y'(2) by blast
    have "is_lca hs gen (md_hash x) (md_hash y) (md_hash l)" using l(5) p(3) q(3) by (metis lca_sym)
    moreover have "descend_both hm x y tb fb =
        Some (Inr (l, tb @ (md_hash x, md_number x) # ts, fb @ (md_hash y, md_number y) # fs))"
      using ne x'(1) y'(1) l(1) by (subst descend_both.simps) simp
    moreover have "up_path hs gen (md_hash x) ((md_hash x, md_number x) # ts) (md_hash l)"
      "up_path hs gen (md_hash y) ((md_hash y, md_number y) # fs) (md_hash l)"
      using l(3,4) p(1) q(1) X(2) Y(2) by auto
    ultimately show ?thesis using l(2) by blast
  qed
qed

lemma tree_route_ok:
  assumes ok: "chain_ok hs gen" and ng: "no_gaps hs gen" and md: "metadata_ok hs gen hm"
    and a: "a \<in> dom hs" and b: "b \<in> dom hs"
  shows "\<exists>r l. tree_route_between hm a b = Some (Inr r) \<and> is_lca hs gen a b l \<and> common_block r = Some (l, num_of hs l)
    \<and> up_path hs gen a (retracted r) l \<and> up_path hs gen b (rev (enacted r)) l"
proof -
  obtain x where x: "hm a = Inr x" "md_hash x = a" "metadata_for hs gen x" by (rule metadata_known [OF md a])
  obtain y where y: "hm b = Inr y" "md_hash y = b" "metadata_for hs gen y" by (rule metadata_known [OF md b])
  note X = metadata_facts [OF x(3)] and Y = metadata_facts [OF y(3)]
  obtain y' ts where y': "descend_to hm y (num_of hs a) [] = Some (Inr (y', ts))" "metadata_for hs gen y'"
    "up_path hs gen b ts (md_hash y')" "\<forall>l. is_lca hs gen (md_hash y') a l = is_lca hs gen b a l"
    "md_number y' = min (md_number y) (num_of hs a)"
    using descend_to_ok [OF ok ng md a y(3), of "[]"] y(2) by auto
  note Y' = metadata_facts [OF y'(2)]
  obtain x' fs where x': "descend_to hm x (num_of hs (md_hash y')) [] = Some (Inr (x', fs))" "metadata_for hs gen x'"
    "up_path hs gen a fs (md_hash x')" "\<forall>l. is_lca hs gen (md_hash x') (md_hash y') l = is_lca hs gen a (md_hash y') l"
    "md_number x' = min (md_number x) (num_of hs (md_hash y'))"
    using descend_to_ok [OF ok ng md Y'(1) x(3), of "[]"] x(2) by auto
  have "md_number y' = md_number x'" using x'(5) y'(5) X(2) Y'(2) x(2) by (simp add: min_def)
  from descend_both_ok [OF ok ng md y'(2) x'(2) this, of ts fs] obtain l ts' fs' where l:
    "descend_both hm y' x' ts fs = Some (Inr (l, ts @ ts', fs @ fs'))" "metadata_for hs gen l"
    "up_path hs gen (md_hash y') ts' (md_hash l)" "up_path hs gen (md_hash x') fs' (md_hash l)"
    "is_lca hs gen (md_hash y') (md_hash x') (md_hash l)" by blast
  have lca: "is_lca hs gen a b (md_hash l)" using l(5) x'(4) y'(4) by (metis lca_sym)
  have paths: "up_path hs gen a (fs @ fs') (md_hash l)" "up_path hs gen b (ts @ ts') (md_hash l)"
    using x'(3) y'(3) l(3,4) by (auto simp: up_path_append)
  have num: "md_number x = num_of hs a" "md_number y' = num_of hs (md_hash y')" "md_number l = num_of hs (md_hash l)"
    using X(2) x(2) Y'(2) metadata_facts(2) [OF l(2)] by simp_all
  define r where "r = \<lparr>route = (fs @ fs') @ [(md_hash l, md_number l)] @ rev (ts @ ts'), pivot = length (fs @ fs')\<rparr>"
  have "tree_route_between hm a b = Some (Inr r)"
    using x(1) y(1) y'(1) x'(1) l(1) num by (simp add: tree_route_between_def r_def)
  moreover have "retracted r = fs @ fs'" "enacted r = rev (ts @ ts')" "common_block r = Some (md_hash l, md_number l)"
    by (simp_all add: r_def retracted_def enacted_def common_block_def nth_append)
  ultimately show ?thesis using lca paths num(3) by (intro exI [of _ r] exI [of _ "md_hash l"]) simp
qed

end
