(* ===== verification/Leaf_Set.thy ===== *)
theory Leaf_Set
  imports Substrate_Prelude
begin

text \<open>
  The leaves of the block tree (\<open>client/src/leaves.rs\<close>).  The \<open>BTreeMap\<close> from block numbers to
  hashes is an association list sorted by falling number, as the key \<open>Reverse\<close> orders it; block numbers
  are \<open>u32\<close>.  A transaction for the key-value database is the list of its operations.
\<close>

section \<open>The ordered map\<close>

type_synonym 'h leaf_map = "(u32 \<times> 'h list) list"

fun btree_insert :: "u32 \<Rightarrow> 'h list \<Rightarrow> 'h leaf_map \<Rightarrow> 'h leaf_map" where
  "btree_insert n hs [] = [(n, hs)]"
| "btree_insert n hs ((m, x) # xs) =
     (if m > n then (m, x) # btree_insert n hs xs
      else if m = n then (n, hs) # xs
      else (n, hs) # (m, x) # xs)"

definition btree_get :: "u32 \<Rightarrow> 'h leaf_map \<Rightarrow> 'h list option" where
  "btree_get n m = map_of m n"

definition btree_remove :: "u32 \<Rightarrow> 'h leaf_map \<Rightarrow> 'h leaf_map" where
  "btree_remove n m = filter (\<lambda>e. fst e \<noteq> n) m"

text \<open>\<open>BTreeMap::append\<close>: entries of the second map replace those of the first.\<close>

definition btree_append :: "'h leaf_map \<Rightarrow> 'h leaf_map \<Rightarrow> 'h leaf_map" where
  "btree_append a b = foldl (\<lambda>m e. btree_insert (fst e) (snd e) m) a b"

section \<open>Leaf sets\<close>

type_synonym 'h leaf_set_item = "'h \<times> u32"

record 'h leaf_set =
  leaf_storage :: "'h leaf_map"
  pending_added :: "'h leaf_set_item list"
  pending_removed :: "'h list"

record 'h import_displaced =
  new_hash :: 'h
  displaced :: "'h leaf_set_item"

definition leaf_new :: "'h leaf_set" where
  "leaf_new = \<lparr>leaf_storage = [], pending_added = [], pending_removed = []\<rparr>"

definition insert_leaf :: "u32 \<Rightarrow> 'h \<Rightarrow> 'h leaf_set \<Rightarrow> 'h leaf_set" where
  "insert_leaf n h s =
     s\<lparr>leaf_storage := btree_insert n ((case btree_get n (leaf_storage s) of None \<Rightarrow> [] | Some hs \<Rightarrow> hs) @ [h]) (leaf_storage s)\<rparr>"

definition remove_leaf :: "u32 \<Rightarrow> 'h \<Rightarrow> 'h leaf_set \<Rightarrow> bool \<times> 'h leaf_set" where
  "remove_leaf n h s =
     (case btree_get n (leaf_storage s) of
        None \<Rightarrow> (False, s)
      | Some leaves \<Rightarrow>
          let found = (h \<in> set leaves);
              leaves' = filter (\<lambda>x. x \<noteq> h) leaves
          in (found, s\<lparr>leaf_storage := (if found \<and> leaves' = [] then btree_remove n (leaf_storage s)
                                       else btree_insert n leaves' (leaf_storage s))\<rparr>))"

definition leaf_import :: "'h \<Rightarrow> u32 \<Rightarrow> 'h \<Rightarrow> 'h leaf_set \<Rightarrow> 'h import_displaced option \<times> 'h leaf_set" where
  "leaf_import h n parent_hash s =
     (let (disp, s1) =
            (if n \<noteq> 0
             then let (was_displaced, t) = remove_leaf (n - 1) parent_hash s
                  in if was_displaced
                     then (Some \<lparr>new_hash = h, displaced = (parent_hash, n - 1)\<rparr>,
                           t\<lparr>pending_removed := pending_removed t @ [parent_hash]\<rparr>)
                     else (None, t)
             else (None, s));
          s2 = insert_leaf n h s1
      in (disp, s2\<lparr>pending_added := pending_added s2 @ [(h, n)]\<rparr>))"

text \<open>\<open>split_off(&Reverse(boundary))\<close> moves the entries at and below the boundary.\<close>

definition finalize_height :: "u32 \<Rightarrow> 'h leaf_set \<Rightarrow> 'h leaf_map \<times> 'h leaf_set" where
  "finalize_height n s =
     (if n = 0 then ([], s)
      else let boundary = n - 1;
               below_boundary = filter (\<lambda>e. fst e \<le> boundary) (leaf_storage s)
           in (below_boundary,
               s\<lparr>leaf_storage := filter (\<lambda>e. fst e > boundary) (leaf_storage s),
                 pending_removed := pending_removed s @ concat (map snd below_boundary)\<rparr>))"

definition displaced_merge :: "'h leaf_map \<Rightarrow> 'h leaf_map \<Rightarrow> 'h leaf_map" where
  "displaced_merge a b = btree_append a b"

fun revert_items :: "('h \<times> u32) list \<Rightarrow> u32 \<Rightarrow> 'h leaf_set \<Rightarrow> 'h leaf_set option" where
  "revert_items [] best_number s = Some s"
| "revert_items ((h, n) # items) best_number s =
     (if n > best_number
      then case remove_leaf n h s of
             (False, _) \<Rightarrow> None
           | (True, t) \<Rightarrow> revert_items items best_number (t\<lparr>pending_removed := pending_removed t @ [h]\<rparr>)
      else revert_items items best_number s)"

text \<open>\<open>None\<close> is the failed assertion.\<close>

definition leaf_revert :: "'h \<Rightarrow> u32 \<Rightarrow> 'h leaf_set \<Rightarrow> 'h leaf_set option" where
  "leaf_revert best_hash best_number s =
     (case revert_items (concat (map (\<lambda>e. map (\<lambda>h. (h, fst e)) (snd e)) (leaf_storage s))) best_number s of
        None \<Rightarrow> None
      | Some t \<Rightarrow>
          let leaves_contains_best = (case btree_get best_number (leaf_storage t) of
                 None \<Rightarrow> False | Some hs \<Rightarrow> best_hash \<in> set hs)
          in Some (if leaves_contains_best then t
                   else let u = insert_leaf best_number best_hash t
                        in u\<lparr>pending_added := pending_added u @ [(best_hash, best_number)]\<rparr>))"

definition leaf_hashes :: "'h leaf_set \<Rightarrow> 'h list" where
  "leaf_hashes s = concat (map snd (leaf_storage s))"

section \<open>Undo\<close>

text \<open>\<open>Undo\<close> clears the pending operations when it is dropped, after the calls made on it.\<close>

definition undo_drop :: "'h leaf_set \<Rightarrow> 'h leaf_set" where
  "undo_drop s = s\<lparr>pending_added := [], pending_removed := []\<rparr>"

definition undo_import :: "'h import_displaced \<Rightarrow> 'h leaf_set \<Rightarrow> 'h leaf_set" where
  "undo_import d s =
     (let new_number = snd (displaced d) + 1
      in insert_leaf new_number (fst (displaced d)) (snd (remove_leaf new_number (new_hash d) s)))"

definition undo_finalization :: "'h leaf_map \<Rightarrow> 'h leaf_set \<Rightarrow> 'h leaf_set" where
  "undo_finalization d s = s\<lparr>leaf_storage := btree_append (leaf_storage s) d\<rparr>"

section \<open>Persistence\<close>

datatype db_op = Put bytes bytes | Delete bytes

definition prepare_transaction ::
  "('h \<Rightarrow> bytes) \<Rightarrow> (u32 \<Rightarrow> bytes) \<Rightarrow> bytes \<Rightarrow> 'h leaf_set \<Rightarrow> db_op list \<times> 'h leaf_set" where
  "prepare_transaction enc_hash enc_number prefix s =
     (map (\<lambda>(h, n). Put (prefix @ enc_hash h) (enc_number n)) (pending_added s)
        @ map (\<lambda>h. Delete (prefix @ enc_hash h)) (pending_removed s),
      s\<lparr>pending_added := [], pending_removed := []\<rparr>)"

text \<open>The entries are what the database iterates from the prefix on.\<close>

fun read_entries ::
  "(bytes \<Rightarrow> 'h option) \<Rightarrow> (bytes \<Rightarrow> u32 option) \<Rightarrow> bytes \<Rightarrow> (bytes \<times> bytes) list \<Rightarrow> 'h leaf_set
    \<Rightarrow> 'h leaf_set option" where
  "read_entries dec_hash dec_number prefix [] s = Some s"
| "read_entries dec_hash dec_number prefix ((key, val) # es) s =
     (if take (length prefix) key \<noteq> prefix then Some s
      else case dec_hash (drop (length prefix) key) of
             None \<Rightarrow> None
           | Some h \<Rightarrow>
               (case dec_number val of
                  None \<Rightarrow> None
                | Some n \<Rightarrow> read_entries dec_hash dec_number prefix es (insert_leaf n h s)))"

definition read_from_db ::
  "(bytes \<Rightarrow> 'h option) \<Rightarrow> (bytes \<Rightarrow> u32 option) \<Rightarrow> bytes \<Rightarrow> (bytes \<times> bytes) list \<Rightarrow> 'h leaf_set option" where
  "read_from_db dec_hash dec_number prefix entries = read_entries dec_hash dec_number prefix entries leaf_new"

section \<open>The set of leaves\<close>

definition map_wf :: "'h leaf_map \<Rightarrow> bool" where
  "map_wf m \<longleftrightarrow> sorted_wrt (>) (map fst m)"

definition leaves_of :: "'h leaf_set \<Rightarrow> ('h \<times> u32) set" where
  "leaves_of s = {(h, n). \<exists>hs. map_of (leaf_storage s) n = Some hs \<and> h \<in> set hs}"

definition leaf_wf :: "'h leaf_set \<Rightarrow> bool" where
  "leaf_wf s \<longleftrightarrow> map_wf (leaf_storage s) \<and> (\<forall>e\<in>set (leaf_storage s). snd e \<noteq> [] \<and> distinct (snd e))"

lemma btree_insert_fst: "fst ` set (btree_insert n hs m) = insert n (fst ` set m)"
  by (induction n hs m rule: btree_insert.induct) auto

lemma btree_insert_wf: "map_wf m \<Longrightarrow> map_wf (btree_insert n hs m)"
  unfolding map_wf_def
proof (induction n hs m rule: btree_insert.induct)
  case (2 n hs m x xs)
  then show ?case using btree_insert_fst [of n hs xs] by (fastforce simp: image_iff)
qed simp

lemma map_wf_below: "map_wf ((m, x) # xs) \<Longrightarrow> m \<le> n \<Longrightarrow> map_of xs n = None"
  unfolding map_wf_def by (auto simp: map_of_eq_None_iff)

lemma btree_insert_map_of: "map_wf m \<Longrightarrow> map_of (btree_insert n hs m) = (map_of m)(n \<mapsto> hs)"
proof (induction n hs m rule: btree_insert.induct)
  case (2 n hs m x xs)
  then have "map_wf xs" by (simp add: map_wf_def)
  then show ?case using 2 by (auto simp: fun_eq_iff)
qed auto

lemma map_wf_distinct: "map_wf m \<Longrightarrow> distinct (map fst m)"
  unfolding map_wf_def by (induction m) auto

lemma map_wf_filter: "map_wf m \<Longrightarrow> map_wf (filter p m)"
  unfolding map_wf_def by (induction m) auto

lemma btree_remove_map_of: "map_of (btree_remove n m) = (map_of m)(n := None)"
  unfolding btree_remove_def by (induction m) (auto simp: fun_eq_iff)

lemma leaf_wf_entry: "leaf_wf s \<Longrightarrow> map_of (leaf_storage s) n = Some hs \<Longrightarrow> hs \<noteq> [] \<and> distinct hs"
  unfolding leaf_wf_def by (auto dest!: map_of_SomeD)

lemma leaf_wfI:
  assumes "map_wf (leaf_storage s)" and "\<And>n hs. map_of (leaf_storage s) n = Some hs \<Longrightarrow> hs \<noteq> [] \<and> distinct hs"
  shows "leaf_wf s"
proof -
  have "snd e \<noteq> [] \<and> distinct (snd e)" if "e \<in> set (leaf_storage s)" for e
    using map_of_is_SomeI [OF map_wf_distinct [OF assms(1)], of "fst e" "snd e"] that assms(2) by simp
  then show ?thesis using assms(1) by (simp add: leaf_wf_def)
qed

lemma leaf_wf_map: "leaf_wf s \<Longrightarrow> map_wf (leaf_storage s)"
  by (simp add: leaf_wf_def)

lemma leaf_wf_fields [simp]:
  "leaf_wf (s\<lparr>pending_added := a\<rparr>) = leaf_wf s" "leaf_wf (s\<lparr>pending_removed := r\<rparr>) = leaf_wf s"
  "leaves_of (s\<lparr>pending_added := a\<rparr>) = leaves_of s" "leaves_of (s\<lparr>pending_removed := r\<rparr>) = leaves_of s"
  by (simp_all add: leaf_wf_def leaves_of_def)

lemma insert_leaf_ok:
  assumes "leaf_wf s" and "(h, n) \<notin> leaves_of s"
  shows "leaf_wf (insert_leaf n h s) \<and> leaves_of (insert_leaf n h s) = insert (h, n) (leaves_of s)"
proof
  note wf = leaf_wf_map [OF assms(1)]
  let ?hs = "(case btree_get n (leaf_storage s) of None \<Rightarrow> [] | Some hs \<Rightarrow> hs) @ [h]"
  have m: "map_of (leaf_storage (insert_leaf n h s)) = (map_of (leaf_storage s))(n \<mapsto> ?hs)"
    by (simp add: insert_leaf_def btree_insert_map_of [OF wf])
  show "leaf_wf (insert_leaf n h s)"
  proof (rule leaf_wfI)
    show "map_wf (leaf_storage (insert_leaf n h s))" by (simp add: insert_leaf_def btree_insert_wf [OF wf])
    show "hs \<noteq> [] \<and> distinct hs" if "map_of (leaf_storage (insert_leaf n h s)) k = Some hs" for k hs
      using that assms(2) leaf_wf_entry [OF assms(1)] unfolding m leaves_of_def btree_get_def
      by (auto split: if_splits option.splits)
  qed
  show "leaves_of (insert_leaf n h s) = insert (h, n) (leaves_of s)"
    unfolding leaves_of_def m btree_get_def by (auto split: option.splits if_splits)
qed

lemma remove_leaf_ok:
  assumes "leaf_wf s"
  shows "leaf_wf (snd (remove_leaf n h s)) \<and> leaves_of (snd (remove_leaf n h s)) = leaves_of s - {(h, n)}
    \<and> fst (remove_leaf n h s) = ((h, n) \<in> leaves_of s)
    \<and> pending_added (snd (remove_leaf n h s)) = pending_added s \<and> pending_removed (snd (remove_leaf n h s)) = pending_removed s"
proof (cases "map_of (leaf_storage s) n")
  case None
  then show ?thesis using assms by (auto simp: remove_leaf_def btree_get_def leaves_of_def)
next
  case (Some hs)
  note wf = leaf_wf_map [OF assms]
  let ?hs = "filter (\<lambda>x. x \<noteq> h) hs" let ?t = "snd (remove_leaf n h s)"
  have hs: "hs \<noteq> []" "distinct hs" using leaf_wf_entry [OF assms Some] by auto
  have st: "leaf_storage ?t = (if h \<in> set hs \<and> ?hs = [] then btree_remove n (leaf_storage s)
      else btree_insert n ?hs (leaf_storage s))"
    and res: "fst (remove_leaf n h s) = (h \<in> set hs)"
      "pending_added ?t = pending_added s" "pending_removed ?t = pending_removed s"
    using Some by (simp_all add: remove_leaf_def btree_get_def Let_def)
  have m: "map_of (leaf_storage ?t) k = (if k = n then (if ?hs = [] then None else Some ?hs) else map_of (leaf_storage s) k)" for k
    using hs(1) unfolding st by (cases hs) (simp_all add: btree_remove_map_of btree_insert_map_of [OF wf])
  have "map_wf (leaf_storage ?t)"
    unfolding st btree_remove_def by (simp add: btree_insert_wf [OF wf] map_wf_filter [OF wf])
  moreover have "xs \<noteq> [] \<and> distinct xs" if "map_of (leaf_storage ?t) k = Some xs" for k xs
    using that leaf_wf_entry [OF assms, of k xs] hs(2) unfolding m by (auto split: if_splits)
  ultimately have "leaf_wf ?t" by (rule leaf_wfI)
  moreover have "(x, k) \<in> leaves_of ?t \<longleftrightarrow> (x, k) \<in> leaves_of s - {(h, n)}" for x k
    unfolding leaves_of_def m using Some by (cases "?hs = []") (auto simp: filter_empty_conv)
  moreover have "(h, n) \<in> leaves_of s \<longleftrightarrow> h \<in> set hs" using Some by (simp add: leaves_of_def)
  ultimately show ?thesis using res by auto
qed

lemma leaf_import_ok:
  assumes "leaf_wf s" and "(h, n) \<notin> leaves_of s"
  shows "leaf_wf (snd (leaf_import h n p s))
    \<and> leaves_of (snd (leaf_import h n p s)) = insert (h, n) (leaves_of s - (if n = 0 then {} else {(p, n - 1)}))
    \<and> fst (leaf_import h n p s) = (if n \<noteq> 0 \<and> (p, n - 1) \<in> leaves_of s
        then Some \<lparr>new_hash = h, displaced = (p, n - 1)\<rparr> else None)"
proof (cases "n = 0")
  case True
  then show ?thesis using insert_leaf_ok [OF assms] by (simp add: leaf_import_def Let_def)
next
  case False
  obtain b t where t: "remove_leaf (n - 1) p s = (b, t)" by fastforce
  have r: "leaf_wf t" "leaves_of t = leaves_of s - {(p, n - 1)}" "b = ((p, n - 1) \<in> leaves_of s)"
    using remove_leaf_ok [OF assms(1), of "n - 1" p] by (simp_all add: t)
  let ?t = "if b then t\<lparr>pending_removed := pending_removed t @ [p]\<rparr> else t"
  have "leaf_wf ?t" "(h, n) \<notin> leaves_of ?t" using r assms(2) by auto
  note i = insert_leaf_ok [OF this]
  have "leaf_import h n p s = (if b then Some \<lparr>new_hash = h, displaced = (p, n - 1)\<rparr> else None,
      (insert_leaf n h ?t)\<lparr>pending_added := pending_added (insert_leaf n h ?t) @ [(h, n)]\<rparr>)"
    using False by (simp add: leaf_import_def t Let_def)
  moreover have "leaves_of ?t = leaves_of s - {(p, n - 1)}" using r by simp
  ultimately show ?thesis using i False r(3) by simp
qed

section \<open>Importing a tree of blocks\<close>

fun import_all :: "('h \<times> u32 \<times> 'h) list \<Rightarrow> 'h leaf_set \<Rightarrow> 'h leaf_set" where
  "import_all [] s = s"
| "import_all ((h, n, p) # bs) s = import_all bs (snd (leaf_import h n p s))"

text \<open>Blocks come after their parents, with the next number, and no hash comes twice; only the first has number zero.\<close>

fun well_ordered :: "('h \<times> u32 \<times> 'h) list \<Rightarrow> bool" where
  "well_ordered [] \<longleftrightarrow> True"
| "well_ordered ((h, n, p) # bs) \<longleftrightarrow> well_ordered bs \<and> h \<notin> fst ` set bs
     \<and> (if bs = [] then n = 0 else n \<noteq> 0 \<and> (\<exists>q. (p, n - 1, q) \<in> set bs))"

definition childless :: "('h \<times> u32 \<times> 'h) list \<Rightarrow> ('h \<times> u32) set" where
  "childless bs = {(h, n). (\<exists>p. (h, n, p) \<in> set bs) \<and> (\<forall>(c, m, q)\<in>set bs. m = 0 \<or> q \<noteq> h)}"

lemma import_all_append: "import_all (bs @ cs) s = import_all cs (import_all bs s)"
  by (induction bs s rule: import_all.induct) auto

lemma well_ordered_unique: "well_ordered bs \<Longrightarrow> (h, n, p) \<in> set bs \<Longrightarrow> (h, m, q) \<in> set bs \<Longrightarrow> n = m \<and> p = q"
  by (induction bs rule: well_ordered.induct) (auto, (metis fst_conv image_eqI)+)

lemma well_ordered_parent: "well_ordered bs \<Longrightarrow> (c, m, q) \<in> set bs \<Longrightarrow> m \<noteq> 0 \<Longrightarrow> \<exists>r. (q, m - 1, r) \<in> set bs"
  by (induction bs rule: well_ordered.induct) (auto split: if_splits)

lemma childless_Cons:
  assumes "well_ordered ((h, n, p) # bs)"
  shows "childless ((h, n, p) # bs) = insert (h, n) (childless bs - (if n = 0 then {} else {(p, n - 1)}))"
proof -
  have fresh: "h \<notin> fst ` set bs" and wo: "well_ordered bs" using assms by auto
  have no_child: "m = 0 \<or> q \<noteq> h" if "(c, m, q) \<in> set bs" for c m q
    using well_ordered_parent [OF wo that] fresh by force
  have hp: "n = 0 \<or> p \<noteq> h"
    using assms fresh by (cases "bs = []") force+
  have par: "m = n - 1" if "n \<noteq> 0" "(p, m, q) \<in> set bs" for m q
    using assms that well_ordered_unique [OF wo] by (cases "bs = []") auto
  show ?thesis
  proof (rule set_eqI, rule iffI)
    fix x assume "x \<in> childless ((h, n, p) # bs)"
    then show "x \<in> insert (h, n) (childless bs - (if n = 0 then {} else {(p, n - 1)}))"
      by (auto simp: childless_def)
  next
    fix x assume "x \<in> insert (h, n) (childless bs - (if n = 0 then {} else {(p, n - 1)}))"
    then consider "x = (h, n)" | "x \<in> childless bs" "n \<noteq> 0 \<Longrightarrow> x \<noteq> (p, n - 1)" by (auto split: if_splits)
    then show "x \<in> childless ((h, n, p) # bs)"
    proof cases
      case 1
      then show ?thesis using no_child hp by (auto simp: childless_def)
    next
      case 2
      then show ?thesis using par by (cases x) (auto simp: childless_def)
    qed
  qed
qed

lemma import_all_leaves:
  assumes "well_ordered bs"
  shows "leaf_wf (import_all (rev bs) leaf_new) \<and> leaves_of (import_all (rev bs) leaf_new) = childless bs"
  using assms
proof (induction bs)
  case Nil
  show ?case by (simp add: leaf_new_def leaf_wf_def map_wf_def leaves_of_def childless_def)
next
  case (Cons b bs)
  obtain h n p where b: "b = (h, n, p)" by (cases b)
  let ?s = "import_all (rev bs) leaf_new"
  have IH: "leaf_wf ?s" "leaves_of ?s = childless bs" using Cons b by auto
  moreover have "(h, n) \<notin> childless bs" using Cons.prems b by (force simp: childless_def)
  ultimately have "leaf_wf (snd (leaf_import h n p ?s)) \<and>
      leaves_of (snd (leaf_import h n p ?s)) = insert (h, n) (childless bs - (if n = 0 then {} else {(p, n - 1)}))"
    using leaf_import_ok [of ?s h n p] by auto
  then show ?case using Cons.prems b by (simp add: import_all_append childless_Cons)
qed

lemma leaf_hashes_set: "leaf_wf s \<Longrightarrow> set (leaf_hashes s) = fst ` leaves_of s"
  using map_wf_distinct [of "leaf_storage s"]
  by (force simp: leaf_hashes_def leaves_of_def leaf_wf_def image_iff)

text \<open>
  C32 (leaf_set_tracks_leaves): after importing blocks in an order in which parents come first, the
  leaf set holds exactly the blocks that have no child, each under its number, and the list of
  hashes names exactly these.
\<close>

theorem leaf_set_tracks_leaves:
  assumes "well_ordered (rev bs)"
  shows "leaves_of (import_all bs leaf_new) = {(h, n). (\<exists>p. (h, n, p) \<in> set bs) \<and> (\<forall>(c, m, q)\<in>set bs. m = 0 \<or> q \<noteq> h)}
    \<and> set (leaf_hashes (import_all bs leaf_new)) = {h. \<exists>n. (h, n) \<in> leaves_of (import_all bs leaf_new)}"
proof
  have ok: "leaf_wf (import_all bs leaf_new)" "leaves_of (import_all bs leaf_new) = childless (rev bs)"
    using import_all_leaves [OF assms] by simp_all
  show "leaves_of (import_all bs leaf_new) = {(h, n). (\<exists>p. (h, n, p) \<in> set bs) \<and> (\<forall>(c, m, q)\<in>set bs. m = 0 \<or> q \<noteq> h)}"
    using ok(2) by (simp add: childless_def)
  show "set (leaf_hashes (import_all bs leaf_new)) = {h. \<exists>n. (h, n) \<in> leaves_of (import_all bs leaf_new)}"
    unfolding leaf_hashes_set [OF ok(1)] by force
qed

section \<open>Finalisation, reverting and undo\<close>

lemma btree_append_Cons: "btree_append a (e # b) = btree_append (btree_insert (fst e) (snd e) a) b"
  by (simp add: btree_append_def)

lemma btree_insert_last:
  "\<forall>e\<in>set m. fst e > n \<Longrightarrow> btree_insert n hs m = m @ [(n, hs)]"
  by (induction n hs m rule: btree_insert.induct) auto

lemma btree_append_split: "map_wf (a @ b) \<Longrightarrow> btree_append a b = a @ b"
proof (induction b arbitrary: a)
  case Nil
  then show ?case by (simp add: btree_append_def)
next
  case (Cons e b)
  have "btree_insert (fst e) (snd e) a = a @ [e]"
    using Cons.prems btree_insert_last [of a "fst e" "snd e"] by (auto simp: map_wf_def sorted_wrt_append)
  then show ?case using Cons by (simp add: btree_append_Cons)
qed

lemma map_wf_split: "map_wf m \<Longrightarrow> filter (\<lambda>e. fst e > k) m @ filter (\<lambda>e. fst e \<le> k) m = m"
proof (induction m)
  case (Cons e m)
  then have IH: "filter (\<lambda>e. fst e > k) m @ filter (\<lambda>e. fst e \<le> k) m = m" by (simp add: map_wf_def)
  show ?case
  proof (cases "fst e > k")
    case False
    then have "\<forall>x\<in>set m. \<not> fst x > k" using Cons.prems by (auto simp: map_wf_def)
    then have "filter (\<lambda>e. fst e > k) m = []" "filter (\<lambda>e. fst e \<le> k) m = m"
      by (auto simp: filter_empty_conv not_less)
    then show ?thesis using False by (simp add: not_less)
  qed (use IH in \<open>simp add: not_le [symmetric]\<close>)
qed simp

lemma map_of_filter_fst: "map_of (filter (\<lambda>e. P (fst e)) m) k = (if P k then map_of m k else None)"
  by (induction m) auto

text \<open>
  Finalising a height displaces exactly the leaves below it, and
  undoing that with what it returned restores the leaves.
\<close>

theorem undo_finalization_restores:
  assumes "leaf_wf s" and "finalize_height n s = (d, t)"
  shows "leaves_of t = {(h, m) \<in> leaves_of s. n \<le> m} \<and> leaf_storage (undo_finalization d t) = leaf_storage s"
proof (cases "n = 0")
  case True
  then show ?thesis using assms by (auto simp: finalize_height_def undo_finalization_def btree_append_def)
next
  case False
  note wf = leaf_wf_map [OF assms(1)]
  have t: "leaf_storage t = filter (\<lambda>e. fst e > n - 1) (leaf_storage s)" and d: "d = filter (\<lambda>e. fst e \<le> n - 1) (leaf_storage s)"
    using assms(2) False by (auto simp: finalize_height_def Let_def)
  have "unat (n - 1) = unat n - 1" "unat n \<noteq> 0" using False by (simp_all add: unat_minus_one unat_eq_zero)
  then have gt: "m > n - 1 \<longleftrightarrow> n \<le> m" for m unfolding word_less_nat_alt word_le_nat_alt by linarith
  show ?thesis
  proof
    have "map_of (leaf_storage t) m = (if n \<le> m then map_of (leaf_storage s) m else None)" for m
      unfolding t gt by (rule map_of_filter_fst)
    then show "leaves_of t = {(h, m) \<in> leaves_of s. n \<le> m}" by (auto simp: leaves_of_def split: if_splits)
    show "leaf_storage (undo_finalization d t) = leaf_storage s"
      unfolding undo_finalization_def t d by (simp add: btree_append_split map_wf_split wf)
  qed
qed

text \<open>
  C33 (undo_import_misplaces): undoing an import that displaced its parent does not restore the leaf
  set: the parent comes back under the number of the child.
\<close>

theorem undo_import_misplaces:
  assumes "leaf_wf s" and "n \<noteq> 0" and "(p, n - 1) \<in> leaves_of s" and "(h, n) \<notin> leaves_of s" and "(p, n) \<notin> leaves_of s"
    and "h \<noteq> p"
  shows "\<exists>d t. leaf_import h n p s = (Some d, t)
    \<and> leaves_of (undo_import d t) = insert (p, n) (leaves_of s - {(p, n - 1)})
    \<and> (p, n - 1) \<notin> leaves_of (undo_import d t)"
proof -
  obtain d t where i: "leaf_import h n p s = (d, t)" by fastforce
  have t: "leaf_wf t" "leaves_of t = insert (h, n) (leaves_of s - {(p, n - 1)})"
    and d: "d = Some \<lparr>new_hash = h, displaced = (p, n - 1)\<rparr>"
    using leaf_import_ok [OF assms(1,4), of p] i assms(2,3) by auto
  let ?u = "snd (remove_leaf n h t)"
  have u: "leaf_wf ?u" "leaves_of ?u = leaves_of s - {(p, n - 1)}"
    using remove_leaf_ok [OF t(1), of n h] t(2) assms(4) by auto
  have "leaves_of (insert_leaf n p ?u) = insert (p, n) (leaves_of s - {(p, n - 1)})"
    using insert_leaf_ok [OF u(1), of p n] u(2) assms(5) by auto
  moreover have "undo_import (the d) t = insert_leaf n p ?u" by (simp add: d undo_import_def)
  moreover have "n \<noteq> n - 1" by (simp add: eq_diff_eq)
  ultimately show ?thesis using i d by auto
qed

lemma revert_items_ok:
  assumes "leaf_wf s" and "distinct items" and "set items \<subseteq> leaves_of s"
  shows "\<exists>t. revert_items items b s = Some t \<and> leaf_wf t \<and> leaves_of t = leaves_of s - {(h, m) \<in> set items. m > b}"
  using assms
proof (induction items b s rule: revert_items.induct)
  case (2 h n items b s)
  show ?case
  proof (cases "n > b")
    case True
    obtain f t where r: "remove_leaf n h s = (f, t)" by fastforce
    have t: "leaf_wf t" "leaves_of t = leaves_of s - {(h, n)}" "f"
      using remove_leaf_ok [OF 2(3), of n h] 2(5) r by auto
    let ?t = "t\<lparr>pending_removed := pending_removed t @ [h]\<rparr>"
    have "\<exists>u. revert_items items b ?t = Some u \<and> leaf_wf u \<and> leaves_of u = leaves_of ?t - {(h, m) \<in> set items. m > b}"
      using 2(1) [OF True r [symmetric]] t 2(4,5) by auto
    then show ?thesis using True r t by auto
  next
    case False
    then show ?thesis using 2 by auto
  qed
qed simp

lemma leaf_items:
  assumes "leaf_wf s"
  defines "items \<equiv> concat (map (\<lambda>e. map (\<lambda>h. (h, fst e)) (snd e)) (leaf_storage s))"
  shows "distinct items" "set items = leaves_of s"
proof -
  have "distinct (map fst m) \<Longrightarrow> \<forall>e\<in>set m. distinct (snd e) \<Longrightarrow> distinct (concat (map (\<lambda>e. map (\<lambda>h. (h, fst e)) (snd e)) m))"
    for m :: "'a leaf_map"
    by (induction m) (auto simp: distinct_map inj_on_def image_iff)
  then show "distinct items"
    using assms(1) map_wf_distinct unfolding items_def leaf_wf_def by blast
  show "set items = leaves_of s"
    using map_wf_distinct [OF leaf_wf_map [OF assms(1)]] by (force simp: items_def leaves_of_def)
qed

text \<open>
  Reverting never fails its assertion; it drops exactly the leaves above the
  target and makes the target block a leaf.
\<close>

theorem leaf_revert_total:
  assumes "leaf_wf s"
  shows "\<exists>t. leaf_revert b n s = Some t \<and> leaf_wf t \<and> leaves_of t = insert (b, n) {(h, m) \<in> leaves_of s. m \<le> n}"
proof -
  note it = leaf_items [OF assms]
  let ?items = "concat (map (\<lambda>e. map (\<lambda>h. (h, fst e)) (snd e)) (leaf_storage s))"
  obtain t where t: "revert_items ?items n s = Some t" "leaf_wf t"
    "leaves_of t = leaves_of s - {(h, m) \<in> set ?items. m > n}"
    using revert_items_ok [OF assms it(1) equalityD1 [OF it(2)], of n] by blast
  have L: "leaves_of t = {(h, m) \<in> leaves_of s. m \<le> n}" unfolding t(3) it(2) by (auto simp del: set_concat)
  have c: "(case btree_get n (leaf_storage t) of None \<Rightarrow> False | Some hs \<Rightarrow> b \<in> set hs) \<longleftrightarrow> (b, n) \<in> leaves_of t"
    by (auto simp: btree_get_def leaves_of_def split: option.split)
  show ?thesis
  proof (cases "(b, n) \<in> leaves_of t")
    case True
    then have "leaf_revert b n s = Some t" using t(1) by (simp add: leaf_revert_def Let_def c)
    moreover have "leaves_of t = insert (b, n) {(h, m) \<in> leaves_of s. m \<le> n}" using L True by (simp add: insert_absorb)
    ultimately show ?thesis using t(2) by blast
  next
    case False
    then show ?thesis using t(1) L insert_leaf_ok [OF t(2) False] unfolding leaf_revert_def Let_def by (simp add: c)
  qed
qed

section \<open>Witnesses\<close>

definition blocks0 :: "(nat \<times> u32 \<times> nat) list" where
  "blocks0 = [(10, 0, 0), (11, 1, 10), (12, 2, 11), (22, 2, 11)]"

theorem leaf_set_tracks_leaves_witness:
  "leaves_of (import_all blocks0 leaf_new) = {(12, 2), (22, 2)}"
proof -
  have "well_ordered (rev blocks0)" by (simp add: blocks0_def)
  note leaf_set_tracks_leaves [OF this, THEN conjunct1]
  also have "{(h, n). (\<exists>p. (h, n, p) \<in> set blocks0) \<and> (\<forall>(c, m, q)\<in>set blocks0. m = 0 \<or> q \<noteq> h)} = {(12, 2), (22, 2)}"
    unfolding blocks0_def by auto
  finally show ?thesis .
qed

definition leaves0 :: "nat leaf_set" where
  "leaves0 = import_all [(10, 0, 0), (11, 1, 10)] leaf_new"

lemma leaves0_ok: "leaf_wf leaves0" "leaves_of leaves0 = {(11, 1)}"
proof -
  have "well_ordered [(11 :: nat, 1, 10), (10, 0, 0)]" by simp
  from import_all_leaves [OF this]
  have "leaf_wf leaves0 \<and> leaves_of leaves0 = childless [(11, 1, 10), (10, 0, 0)]" by (simp add: leaves0_def)
  moreover have "childless [(11 :: nat, 1, 10), (10, 0, 0)] = {(11, 1)}" by (auto simp: childless_def)
  ultimately show "leaf_wf leaves0" "leaves_of leaves0 = {(11, 1)}" by simp_all
qed

theorem undo_finalization_restores_witness:
  "\<exists>d t. finalize_height 2 leaves0 = (d, t) \<and> leaves_of t = {}
     \<and> leaf_storage (undo_finalization d t) = leaf_storage leaves0"
proof -
  obtain d t where e: "finalize_height 2 leaves0 = (d, t)" by fastforce
  have "{(h, m) \<in> leaves_of leaves0. (2 :: u32) \<le> m} = {}" by (auto simp: leaves0_ok word_le_nat_alt)
  then show ?thesis using undo_finalization_restores [OF leaves0_ok(1) e] e by auto
qed

theorem undo_import_misplaces_witness:
  "\<exists>d t. leaf_import 12 2 11 leaves0 = (Some d, t) \<and> leaves_of (undo_import d t) = {(11, 2)}"
  using undo_import_misplaces [OF leaves0_ok(1), of 2 11 12] by (simp add: leaves0_ok) blast

theorem leaf_revert_total_witness:
  "\<exists>t. leaf_revert 10 0 leaves0 = Some t \<and> leaves_of t = {(10, 0)}"
proof -
  have "insert (10, 0) {(h, m) \<in> leaves_of leaves0. m \<le> (0 :: u32)} = {(10, 0)}" by (auto simp: leaves0_ok)
  then show ?thesis using leaf_revert_total [OF leaves0_ok(1), of 10 0] by auto
qed

end
