(* ===== verification/In_Mem_Chain.thy ===== *)
theory In_Mem_Chain
  imports Header_Chain Leaf_Set
begin

text \<open>
  The in-memory blockchain (\<open>client/src/in_mem.rs\<close>): stored blocks, the hashes of the canonical
  chain by number, the best and the finalised block, and the leaves.  \<open>None\<close> stands for a loop of
  \<open>tree_route\<close> that does not end; texts of errors are left out.  Locks are not modelled, every call
  is one step.
\<close>

section \<open>Data\<close>

datatype ('h, 'x, 'j) stored_block =
    SHeader "('h, u32) chain_header" "'j option"
  | SFull "('h, u32) chain_header" "'x list" "'j option"

definition stored_new :: "('h, u32) chain_header \<Rightarrow> 'x list option \<Rightarrow> 'j option \<Rightarrow> ('h, 'x, 'j) stored_block" where
  "stored_new header body just = (case body of Some b \<Rightarrow> SFull header b just | None \<Rightarrow> SHeader header just)"

fun stored_header :: "('h, 'x, 'j) stored_block \<Rightarrow> ('h, u32) chain_header" where
  "stored_header (SHeader h _) = h"
| "stored_header (SFull h _ _) = h"

fun stored_justification :: "('h, 'x, 'j) stored_block \<Rightarrow> 'j option" where
  "stored_justification (SHeader _ j) = j"
| "stored_justification (SFull _ _ j) = j"

fun stored_extrinsics :: "('h, 'x, 'j) stored_block \<Rightarrow> 'x list option" where
  "stored_extrinsics (SHeader _ _) = None"
| "stored_extrinsics (SFull _ b _) = Some b"

fun set_justification :: "'j option \<Rightarrow> ('h, 'x, 'j) stored_block \<Rightarrow> ('h, 'x, 'j) stored_block" where
  "set_justification j (SHeader h _) = SHeader h j"
| "set_justification j (SFull h b _) = SFull h b j"

record ('h, 'x, 'j) blockchain_storage =
  blocks :: "'h \<rightharpoonup> ('h, 'x, 'j) stored_block"
  hashes :: "u32 \<rightharpoonup> 'h"
  best_hash :: 'h
  best_number :: u32
  finalized_hash :: 'h
  finalized_number :: u32
  genesis_hash :: 'h
  header_cht_roots :: "u32 \<rightharpoonup> 'h"
  changes_trie_cht_roots :: "u32 \<rightharpoonup> 'h"
  chain_leaves :: "'h leaf_set"
  aux :: "bytes \<rightharpoonup> bytes"

datatype 'h block_id = HashId 'h | NumberId u32

datatype chain_error = UnknownBlock | BackendError

datatype new_block_state = NormalBlock | BestBlock | FinalBlock

fun is_best :: "new_block_state \<Rightarrow> bool" where
  "is_best NormalBlock = False"
| "is_best BestBlock = True"
| "is_best FinalBlock = True"

fun is_final :: "new_block_state \<Rightarrow> bool" where
  "is_final FinalBlock = True"
| "is_final NormalBlock = False"
| "is_final BestBlock = False"

datatype block_status = InChain | UnknownStatus

section \<open>Reading\<close>

fun chain_id :: "'h block_id \<Rightarrow> ('h, 'x, 'j) blockchain_storage \<Rightarrow> 'h option" where
  "chain_id (HashId h) s = Some h"
| "chain_id (NumberId n) s = hashes s n"

definition chain_new :: "'h \<Rightarrow> ('h, 'x, 'j) blockchain_storage" where
  "chain_new dflt = \<lparr>blocks = Map.empty, hashes = Map.empty, best_hash = dflt, best_number = 0,
     finalized_hash = dflt, finalized_number = 0, genesis_hash = dflt, header_cht_roots = Map.empty,
     changes_trie_cht_roots = Map.empty, chain_leaves = leaf_new, aux = Map.empty\<rparr>"

definition header_of :: "'h block_id \<Rightarrow> ('h, 'x, 'j) blockchain_storage \<Rightarrow> ('h, u32) chain_header option" where
  "header_of i s = (case chain_id i s of None \<Rightarrow> None | Some h \<Rightarrow> map_option stored_header (blocks s h))"

definition status_of :: "'h block_id \<Rightarrow> ('h, 'x, 'j) blockchain_storage \<Rightarrow> block_status" where
  "status_of i s =
     (if (case chain_id i s of None \<Rightarrow> False | Some h \<Rightarrow> blocks s h \<noteq> None) then InChain else UnknownStatus)"

definition number_of :: "'h \<Rightarrow> ('h, 'x, 'j) blockchain_storage \<Rightarrow> u32 option" where
  "number_of h s = map_option (\<lambda>b. hd_number (stored_header b)) (blocks s h)"

definition hash_of :: "u32 \<Rightarrow> ('h, 'x, 'j) blockchain_storage \<Rightarrow> 'h option" where
  "hash_of n s = chain_id (NumberId n) s"

definition header_metadata :: "('h, 'x, 'j) blockchain_storage \<Rightarrow> 'h \<Rightarrow> chain_error + ('h, u32) cached_header_metadata" where
  "header_metadata s h =
     (case header_of (HashId h) s of None \<Rightarrow> Inl UnknownBlock | Some x \<Rightarrow> Inr (metadata_from x))"

definition insert_header_metadata ::
  "'h \<Rightarrow> ('h, u32) cached_header_metadata \<Rightarrow> ('h, 'x, 'j) blockchain_storage \<Rightarrow> ('h, 'x, 'j) blockchain_storage" where
  "insert_header_metadata h m s = s"

definition body_of :: "'h block_id \<Rightarrow> ('h, 'x, 'j) blockchain_storage \<Rightarrow> 'x list option" where
  "body_of i s = (case chain_id i s of None \<Rightarrow> None
     | Some h \<Rightarrow> (case blocks s h of None \<Rightarrow> None | Some b \<Rightarrow> stored_extrinsics b))"

definition justification_of :: "'h block_id \<Rightarrow> ('h, 'x, 'j) blockchain_storage \<Rightarrow> 'j option" where
  "justification_of i s = (case chain_id i s of None \<Rightarrow> None
     | Some h \<Rightarrow> (case blocks s h of None \<Rightarrow> None | Some b \<Rightarrow> stored_justification b))"

definition last_finalized :: "('h, 'x, 'j) blockchain_storage \<Rightarrow> 'h" where
  "last_finalized s = finalized_hash s"

definition chain_leaf_hashes :: "('h, 'x, 'j) blockchain_storage \<Rightarrow> 'h list" where
  "chain_leaf_hashes s = leaf_hashes (chain_leaves s)"

definition header_cht_root :: "u32 \<Rightarrow> ('h, 'x, 'j) blockchain_storage \<Rightarrow> chain_error + 'h" where
  "header_cht_root n s = (case header_cht_roots s n of Some r \<Rightarrow> Inr r | None \<Rightarrow> Inl BackendError)"

definition changes_trie_cht_root :: "u32 \<Rightarrow> ('h, 'x, 'j) blockchain_storage \<Rightarrow> chain_error + 'h" where
  "changes_trie_cht_root n s = (case changes_trie_cht_roots s n of Some r \<Rightarrow> Inr r | None \<Rightarrow> Inl BackendError)"

section \<open>Writing\<close>

definition apply_head ::
  "('h, u32) chain_header \<Rightarrow> ('h, 'x, 'j) blockchain_storage
    \<Rightarrow> ((chain_error + unit) \<times> ('h, 'x, 'j) blockchain_storage) option" where
  "apply_head header s =
     (let hsh = hd_hash header;
          number = hd_number header;
          best_tree_route =
            (if best_hash s = hd_parent header then Some (Inr None)
             else map_option (map_sum id Some) (tree_route_between (header_metadata s) (best_hash s) (hd_parent header)))
      in case best_tree_route of
           None \<Rightarrow> None
         | Some (Inl e) \<Rightarrow> Some (Inl e, s)
         | Some (Inr r) \<Rightarrow>
             let hashes1 = (case r of
                   None \<Rightarrow> hashes s
                 | Some tree_route \<Rightarrow>
                     let en = enacted tree_route;
                         inserted = foldl (\<lambda>m entry. m(snd entry \<mapsto> fst entry)) (hashes s) en
                     in foldl (\<lambda>m entry. m(snd entry := None)) inserted (drop (length en) (retracted tree_route)))
             in Some (Inr (), s\<lparr>best_hash := hsh, best_number := number, hashes := hashes1(number \<mapsto> hsh)\<rparr>))"

definition chain_insert ::
  "'h \<Rightarrow> ('h, u32) chain_header \<Rightarrow> 'j option \<Rightarrow> 'x list option \<Rightarrow> new_block_state
    \<Rightarrow> ('h, 'x, 'j) blockchain_storage \<Rightarrow> ((chain_error + unit) \<times> ('h, 'x, 'j) blockchain_storage) option" where
  "chain_insert hsh header justification body new_state s =
     (let number = hd_number header
      in case (if is_best new_state then apply_head header s else Some (Inr (), s)) of
           None \<Rightarrow> None
         | Some (Inl e, s1) \<Rightarrow> Some (Inl e, s1)
         | Some (Inr _, s1) \<Rightarrow>
             let s2 = s1\<lparr>chain_leaves := snd (leaf_import hsh number (hd_parent header) (chain_leaves s1)),
                         blocks := (blocks s1)(hsh \<mapsto> stored_new header body justification)\<rparr>;
                 s3 = (if new_state = FinalBlock then s2\<lparr>finalized_hash := hsh, finalized_number := number\<rparr> else s2);
                 s4 = (if number = 0 then s3\<lparr>genesis_hash := hsh\<rparr> else s3)
             in Some (Inr (), s4))"

definition set_head ::
  "'h block_id \<Rightarrow> ('h, 'x, 'j) blockchain_storage
    \<Rightarrow> ((chain_error + unit) \<times> ('h, 'x, 'j) blockchain_storage) option" where
  "set_head i s = (case header_of i s of None \<Rightarrow> Some (Inl UnknownBlock, s) | Some h \<Rightarrow> apply_head h s)"

text \<open>\<open>None\<close> is the failed \<open>expect\<close>.\<close>

definition finalize_header ::
  "'h block_id \<Rightarrow> 'j option \<Rightarrow> ('h, 'x, 'j) blockchain_storage
    \<Rightarrow> ((chain_error + unit) \<times> ('h, 'x, 'j) blockchain_storage) option" where
  "finalize_header i justification s =
     (case header_of i s of
        None \<Rightarrow> Some (Inl UnknownBlock, s)
      | Some x \<Rightarrow>
          let hsh = hd_hash x; s1 = s\<lparr>finalized_hash := hsh\<rparr>
          in if justification \<noteq> None
             then case blocks s1 hsh of
                    None \<Rightarrow> None
                  | Some b \<Rightarrow> Some (Inr (), s1\<lparr>blocks := (blocks s1)(hsh \<mapsto> set_justification justification b)\<rparr>)
             else Some (Inr (), s1))"

definition write_aux :: "(bytes \<times> bytes option) list \<Rightarrow> ('h, 'x, 'j) blockchain_storage \<Rightarrow> ('h, 'x, 'j) blockchain_storage" where
  "write_aux ops s = s\<lparr>aux := foldl (\<lambda>m kv. m(fst kv := snd kv)) (aux s) ops\<rparr>"

definition insert_aux ::
  "(bytes \<times> bytes) list \<Rightarrow> bytes list \<Rightarrow> ('h, 'x, 'j) blockchain_storage \<Rightarrow> ('h, 'x, 'j) blockchain_storage" where
  "insert_aux ins del s =
     s\<lparr>aux := foldl (\<lambda>m k. m(k := None)) (foldl (\<lambda>m kv. m(fst kv \<mapsto> snd kv)) (aux s) ins) del\<rparr>"

definition get_aux :: "bytes \<Rightarrow> ('h, 'x, 'j) blockchain_storage \<Rightarrow> bytes option" where
  "get_aux k s = aux s k"

definition insert_cht_root :: "u32 \<Rightarrow> 'h \<Rightarrow> ('h, 'x, 'j) blockchain_storage \<Rightarrow> ('h, 'x, 'j) blockchain_storage" where
  "insert_cht_root n root s = s\<lparr>header_cht_roots := (header_cht_roots s)(n \<mapsto> root)\<rparr>"

definition import_header ::
  "('h, u32) chain_header \<Rightarrow> new_block_state \<Rightarrow> (bytes \<times> bytes option) list \<Rightarrow> ('h, 'x, 'j) blockchain_storage
    \<Rightarrow> ((chain_error + unit) \<times> ('h, 'x, 'j) blockchain_storage) option" where
  "import_header header st aux_ops s =
     (case chain_insert (hd_hash header) header None None st s of
        None \<Rightarrow> None
      | Some (Inl e, s1) \<Rightarrow> Some (Inl e, s1)
      | Some (Inr _, s1) \<Rightarrow> Some (Inr (), write_aux aux_ops s1))"

section \<open>The tree of stored headers\<close>

definition hdrs :: "('h, 'x, 'j) blockchain_storage \<Rightarrow> 'h \<rightharpoonup> ('h, u32) chain_header" where
  "hdrs s h = map_option stored_header (blocks s h)"

abbreviation anc :: "('h, 'x, 'j) blockchain_storage \<Rightarrow> ('h \<times> 'h) set" where
  "anc s \<equiv> (up (hdrs s) (genesis_hash s))\<^sup>*"

definition tree_ok :: "('h, 'x, 'j) blockchain_storage \<Rightarrow> bool" where
  "tree_ok s \<longleftrightarrow> chain_ok (hdrs s) (genesis_hash s) \<and> (\<forall>h x. hdrs s h = Some x \<longrightarrow> hd_hash x = h)
     \<and> (\<forall>(h, p)\<in>up (hdrs s) (genesis_hash s). unat (num_of (hdrs s) h) = unat (num_of (hdrs s) p) + 1)"

definition canonical :: "('h, 'x, 'j) blockchain_storage \<Rightarrow> bool" where
  "canonical s \<longleftrightarrow> best_hash s \<in> dom (hdrs s) \<and> best_number s = num_of (hdrs s) (best_hash s)
     \<and> (\<forall>n h. hashes s n = Some h \<longleftrightarrow> (best_hash s, h) \<in> anc s \<and> num_of (hdrs s) h = n)"

lemma tree_chain: "tree_ok s \<Longrightarrow> chain_ok (hdrs s) (genesis_hash s)"
  by (simp add: tree_ok_def)

lemma tree_hash: "tree_ok s \<Longrightarrow> hdrs s h = Some x \<Longrightarrow> hd_hash x = h"
  by (simp add: tree_ok_def)

lemma tree_succ: "tree_ok s \<Longrightarrow> (h, p) \<in> up (hdrs s) (genesis_hash s) \<Longrightarrow>
    unat (num_of (hdrs s) h) = unat (num_of (hdrs s) p) + 1"
  by (auto simp: tree_ok_def)

lemma tree_no_gaps:
  assumes "tree_ok s"
  shows "no_gaps (hdrs s) (genesis_hash s)"
proof -
  have "num_of (hdrs s) h \<le> num_of (hdrs s) b"
    if "(h, p) \<in> up (hdrs s) (genesis_hash s)" "num_of (hdrs s) p < num_of (hdrs s) b" for h p b
    using tree_succ [OF assms that(1)] that(2) unfolding word_less_nat_alt word_le_nat_alt by linarith
  then show ?thesis unfolding no_gaps_def by blast
qed

lemma header_metadata_ok:
  assumes "tree_ok s"
  shows "metadata_ok (hdrs s) (genesis_hash s) (header_metadata s)"
proof -
  have "case header_metadata s h of Inl _ \<Rightarrow> h \<notin> dom (hdrs s)
      | Inr m \<Rightarrow> md_hash m = h \<and> metadata_for (hdrs s) (genesis_hash s) m" for h
  proof (cases "hdrs s h")
    case None
    then show ?thesis by (auto simp: header_metadata_def header_of_def hdrs_def)
  next
    case (Some x)
    then have m: "header_metadata s h = Inr (metadata_from x)"
      by (auto simp: header_metadata_def header_of_def hdrs_def)
    have "hd_hash x = h" by (rule tree_hash [OF assms Some])
    then show ?thesis
      using Some upI [where hs = "hdrs s" and h = h and x = x and gen = "genesis_hash s"]
      by (auto simp: m metadata_for_def metadata_from_def)
  qed
  then show ?thesis by (simp add: metadata_ok_def)
qed

interpretation in_mem: header_backend header_metadata insert_header_metadata hdrs genesis_hash tree_ok
  by unfold_locales (simp_all add: tree_chain header_metadata_ok insert_header_metadata_def)

section \<open>Paths\<close>

lemma up_first: "(a, p) \<in> up hs gen \<Longrightarrow> (a, h) \<in> (up hs gen)\<^sup>* \<longleftrightarrow> h = a \<or> (p, h) \<in> (up hs gen)\<^sup>*"
  using up_single [of hs gen]
  by (metis converse_rtranclE converse_rtrancl_into_rtrancl rtrancl.rtrancl_refl single_valuedD)

lemma up_path_blocks:
  assumes "up_path hs gen a bs c"
  shows "(a, h) \<in> (up hs gen)\<^sup>* \<longleftrightarrow> h \<in> fst ` set bs \<or> (c, h) \<in> (up hs gen)\<^sup>*"
  using assms
proof (induction bs arbitrary: a)
  case (Cons b bs)
  then obtain p where p: "b = (a, num_of hs a)" "(a, p) \<in> up hs gen" "up_path hs gen p bs c" by auto
  then show ?case using Cons.IH [OF p(3)] up_first [OF p(2)] by simp
qed simp

lemma up_path_entries: "up_path hs gen a bs c \<Longrightarrow> e \<in> set bs \<Longrightarrow> snd e = num_of hs (fst e)"
  by (induction bs arbitrary: a) auto

lemma up_path_numbers:
  assumes "\<And>h p. (h, p) \<in> up hs gen \<Longrightarrow> unat (num_of hs h) = unat (num_of hs p :: u32) + 1" and "up_path hs gen a bs c"
  shows "map (unat \<circ> snd) bs = rev [Suc (unat (num_of hs c))..<Suc (unat (num_of hs a))]
    \<and> unat (num_of hs a) = unat (num_of hs c) + length bs"
  using assms(2)
proof (induction bs arbitrary: a)
  case (Cons b bs)
  then obtain p where p: "b = (a, num_of hs a)" "(a, p) \<in> up hs gen" "up_path hs gen p bs c" by auto
  then show ?case using Cons.IH [OF p(3)] assms(1) [OF p(2)] by simp
qed simp

lemma foldl_insert_other: "n \<notin> snd ` set es \<Longrightarrow> foldl (\<lambda>m e. m(snd e \<mapsto> fst e)) m es n = m n"
  by (induction es arbitrary: m) auto

lemma foldl_insert_mem:
  "distinct (map snd es) \<Longrightarrow> (h, n) \<in> set es \<Longrightarrow> foldl (\<lambda>m e. m(snd e \<mapsto> fst e)) m es n = Some h"
proof (induction es arbitrary: m)
  case (Cons e es)
  show ?case
  proof (cases "e = (h, n)")
    case True
    then have "n \<notin> snd ` set es" using Cons.prems(1) by auto
    from foldl_insert_other [OF this] show ?thesis unfolding foldl_Cons True by simp
  next
    case False
    then have "distinct (map snd es)" "(h, n) \<in> set es" using Cons.prems by auto
    then show ?thesis unfolding foldl_Cons by (rule Cons.IH)
  qed
qed simp

lemma foldl_remove: "foldl (\<lambda>m e. m(snd e := None)) m es n = (if n \<in> snd ` set es then None else m n)"
  by (induction es arbitrary: m) auto

lemma unat_in_numbers: "unat n \<in> set (map (unat \<circ> snd) es) \<longleftrightarrow> n \<in> snd ` set es"
  by (auto simp: image_iff dest: word_eq_unatI)

section \<open>A new head\<close>

text \<open>The route \<open>apply_head\<close> works with: from the best block to the parent of the new head.\<close>

lemma head_route:
  assumes t: "tree_ok s" and a: "a \<in> dom (hdrs s)" and b: "b \<in> dom (hdrs s)"
    and r: "tree_route_between (header_metadata s) a b = Some (Inr r)"
  obtains l where "up_path (hdrs s) (genesis_hash s) a (retracted r) l" "up_path (hdrs s) (genesis_hash s) b (rev (enacted r)) l"
    "unat (num_of (hdrs s) a) = unat (num_of (hdrs s) l) + length (retracted r)"
    "unat (num_of (hdrs s) b) = unat (num_of (hdrs s) l) + length (enacted r)"
    "map (unat \<circ> snd) (retracted r) = rev [Suc (unat (num_of (hdrs s) l))..<Suc (unat (num_of (hdrs s) a))]"
    "map (unat \<circ> snd) (enacted r) = [Suc (unat (num_of (hdrs s) l))..<Suc (unat (num_of (hdrs s) b))]"
proof -
  obtain l where l: "up_path (hdrs s) (genesis_hash s) a (retracted r) l" "up_path (hdrs s) (genesis_hash s) b (rev (enacted r)) l"
    using tree_route_ok [OF tree_chain [OF t] tree_no_gaps [OF t] header_metadata_ok [OF t] a b] r by auto
  have "map (unat \<circ> snd) (enacted r) = rev (map (unat \<circ> snd) (rev (enacted r)))" by (simp add: rev_map)
  then show ?thesis
    using that [OF l] up_path_numbers [OF tree_succ [OF t] l(1)] up_path_numbers [OF tree_succ [OF t] l(2)] by simp
qed

definition branch_hashes :: "('h, 'x, 'j) blockchain_storage \<Rightarrow> 'h \<Rightarrow> (u32 \<rightharpoonup> 'h) \<Rightarrow> bool" where
  "branch_hashes s b m \<longleftrightarrow> (\<forall>n h. m n = Some h \<longleftrightarrow> (b, h) \<in> anc s \<and> num_of (hdrs s) h = n)"

lemma anc_num:
  assumes "tree_ok s" and "(b, h) \<in> anc s" and "b \<in> dom (hdrs s)"
  shows "unat (num_of (hdrs s) h) \<le> unat (num_of (hdrs s) b)"
  using up_rtrancl [OF tree_chain [OF assms(1)] assms(2,3)] by (simp add: word_le_nat_alt)

lemma anc_unique:
  assumes "tree_ok s" and "b \<in> dom (hdrs s)" and "(b, h) \<in> anc s" and "(b, g) \<in> anc s"
    and "num_of (hdrs s) h = num_of (hdrs s) g"
  shows "h = g"
proof -
  note ok = tree_chain [OF assms(1)]
  have dom: "h \<in> dom (hdrs s)" "g \<in> dom (hdrs s)" using up_rtrancl [OF ok] assms(2-4) by blast+
  from up_linear [OF assms(3,4)] show ?thesis
    using up_rtrancl [OF ok _ dom(1), of g] up_rtrancl [OF ok _ dom(2), of h] assms(5) by auto
qed

text \<open>Reorganising from one branch to another, when the new one is not shorter or ends on the old one.\<close>

lemma reorganised:
  assumes t: "tree_ok s" and a: "a \<in> dom (hdrs s)" and b: "b \<in> dom (hdrs s)"
    and r: "tree_route_between (header_metadata s) a b = Some (Inr r)" and m: "branch_hashes s a m"
    and cond: "num_of (hdrs s) a \<le> num_of (hdrs s) b \<or> (a, b) \<in> anc s"
  defines "m1 \<equiv> foldl (\<lambda>m e. m(snd e \<mapsto> fst e)) m (enacted r)"
  shows "branch_hashes s b (foldl (\<lambda>m e. m(snd e := None)) m1 (drop (length (enacted r)) (retracted r)))"
proof -
  let ?n = "\<lambda>h. unat (num_of (hdrs s) h)"
  obtain l where l: "up_path (hdrs s) (genesis_hash s) a (retracted r) l" "up_path (hdrs s) (genesis_hash s) b (rev (enacted r)) l"
    "?n a = ?n l + length (retracted r)" "?n b = ?n l + length (enacted r)"
    "map (unat \<circ> snd) (retracted r) = rev [Suc (?n l)..<Suc (?n a)]" "map (unat \<circ> snd) (enacted r) = [Suc (?n l)..<Suc (?n b)]"
    by (rule head_route [OF t a b r])
  have ld: "l \<in> dom (hdrs s)" using up_rtrancl [OF tree_chain [OF t] up_path_rtrancl [OF l(1)] a] by blast
  have dist: "distinct (map snd (enacted r))"
    using l(6) distinct_upt [of "Suc (?n l)" "Suc (?n b)"] by (metis distinct_map map_map)
  have A: "(a, h) \<in> anc s \<longleftrightarrow> h \<in> fst ` set (retracted r) \<or> (l, h) \<in> anc s" for h
    by (rule up_path_blocks [OF l(1)])
  have B: "(b, h) \<in> anc s \<longleftrightarrow> h \<in> fst ` set (enacted r) \<or> (l, h) \<in> anc s" for h
    using up_path_blocks [OF l(2)] by simp
  have En: "e \<in> set (enacted r) \<Longrightarrow> snd e = num_of (hdrs s) (fst e)" for e using up_path_entries [OF l(2)] by simp
  have in_en: "n \<in> snd ` set (enacted r) \<longleftrightarrow> ?n l < unat n \<and> unat n \<le> ?n b" for n :: u32
    using unat_in_numbers [of n "enacted r"] unfolding l(6) by auto
  have m1_en: "m1 n = Some h \<longleftrightarrow> (b, h) \<in> anc s \<and> num_of (hdrs s) h = n" if "?n l < unat n" "unat n \<le> ?n b" for n h
  proof -
    have "n \<in> snd ` set (enacted r)" using that in_en by blast
    then obtain g where g: "(g, n) \<in> set (enacted r)" by auto
    then have "m1 n = Some g" unfolding m1_def by (rule foldl_insert_mem [OF dist])
    moreover have "(b, g) \<in> anc s" "num_of (hdrs s) g = n" using B [of g] g En [OF g] by force+
    ultimately show ?thesis using anc_unique [OF t b] by auto
  qed
  have m1_out: "m1 n = m n" if "\<not> (?n l < unat n \<and> unat n \<le> ?n b)" for n
    unfolding m1_def using that in_en by (intro foldl_insert_other) blast
  have low: "m n = Some h \<longleftrightarrow> (b, h) \<in> anc s \<and> num_of (hdrs s) h = n" if low_n: "unat n \<le> ?n l" for n h
  proof -
    have eqv: "(x, h) \<in> anc s \<longleftrightarrow> (l, h) \<in> anc s" if "num_of (hdrs s) h = n" "(x, l) \<in> anc s" "x \<in> dom (hdrs s)" for x
    proof
      assume x: "(x, h) \<in> anc s"
      show "(l, h) \<in> anc s"
      proof (rule disjE [OF up_linear [OF that(2) x]])
        assume hl: "(h, l) \<in> anc s"
        have "h \<in> dom (hdrs s)" using up_rtrancl [OF tree_chain [OF t] x that(3)] by blast
        note hl' = up_rtrancl [OF tree_chain [OF t] hl this]
        have "num_of (hdrs s) l = num_of (hdrs s) h"
          using hl' low_n that(1) by (auto simp: word_le_nat_alt intro: word_eq_unatI)
        then have "l = h" using hl' by blast
        then show ?thesis by simp
      qed
    qed (rule rtrancl_trans [OF that(2)])
    have "m n = Some h \<longleftrightarrow> (a, h) \<in> anc s \<and> num_of (hdrs s) h = n" using m by (simp add: branch_hashes_def)
    then show ?thesis
      using eqv [OF _ up_path_rtrancl [OF l(1)] a] eqv [OF _ up_path_rtrancl [OF l(2)] b] by blast
  qed
  have high: "m n = None" if "unat n > ?n a" for n
  proof (rule ccontr)
    assume "m n \<noteq> None"
    then obtain h where "m n = Some h" by blast
    then have "(a, h) \<in> anc s" "num_of (hdrs s) h = n" using m by (simp_all add: branch_hashes_def)
    then show False using anc_num [OF t _ a, of h] that by simp
  qed
  have none_b: "\<not> ((b, h) \<in> anc s \<and> num_of (hdrs s) h = n)" if "unat n > ?n b" for n h
    using that anc_num [OF t _ b, of h] by auto
  show ?thesis
  proof (cases "length (retracted r) \<le> length (enacted r)")
    case True
    have "m1 n = Some h \<longleftrightarrow> (b, h) \<in> anc s \<and> num_of (hdrs s) h = n" for n h
    proof -
      consider "unat n \<le> ?n l" | "?n l < unat n \<and> unat n \<le> ?n b" | "?n b < unat n" by linarith
      then show ?thesis
      proof cases
        case 1
        then show ?thesis using low m1_out by simp
      next
        case 2
        then show ?thesis using m1_en by blast
      next
        case 3
        then have "?n a < unat n" using True l(3,4) by linarith
        then show ?thesis using high m1_out 3 none_b by simp
      qed
    qed
    then show ?thesis using True by (simp add: branch_hashes_def)
  next
    case False
    then have lt: "?n b < ?n a" using l(3,4) by linarith
    then have ab: "(a, b) \<in> anc s" using cond by (simp add: word_le_nat_alt)
    have en: "enacted r = []"
    proof (rule ccontr)
      assume "enacted r \<noteq> []"
      then have "?n l < ?n b" using l(4) by simp
      moreover have "b \<in> fst ` set (retracted r) \<or> (l, b) \<in> anc s" using A ab by blast
      ultimately have "b \<in> fst ` set (retracted r)" using anc_num [OF t _ ld, of b] by fastforce
      then have "is_lca (hdrs s) (genesis_hash s) a b b" using ab by (auto simp: is_lca_def common_ancestor_def)
      moreover have "\<exists>k. is_lca (hdrs s) (genesis_hash s) a b k \<and> up_path (hdrs s) (genesis_hash s) b (rev (enacted r)) k"
        using tree_route_ok [OF tree_chain [OF t] tree_no_gaps [OF t] header_metadata_ok [OF t] a b] r by auto
      ultimately have "up_path (hdrs s) (genesis_hash s) b (rev (enacted r)) b"
        using lca_unique [OF tree_chain [OF t]] by blast
      then have "length (rev (enacted r)) = 0" using up_path_numbers [OF tree_succ [OF t]] by fastforce
      then show False using \<open>enacted r \<noteq> []\<close> by simp
    qed
    then have bl: "b = l" and m1: "m1 = m" using l(2) by (simp_all add: m1_def)
    have in_re: "n \<in> snd ` set (retracted r) \<longleftrightarrow> ?n l < unat n \<and> unat n \<le> ?n a" for n :: u32
      using unat_in_numbers [of n "retracted r"] unfolding l(5) by auto
    have "(if n \<in> snd ` set (retracted r) then None else m n) = Some h \<longleftrightarrow> (b, h) \<in> anc s \<and> num_of (hdrs s) h = n" for n h
    proof (cases "unat n \<le> ?n l")
      case True
      then show ?thesis using low in_re by simp
    next
      case False
      then show ?thesis using in_re high [of n] none_b [of n h] bl by auto
    qed
    then show ?thesis unfolding branch_hashes_def foldl_remove en m1 by simp
  qed
qed

lemma canonical_branch: "canonical s \<Longrightarrow> branch_hashes s (best_hash s) (hashes s)"
  by (simp add: canonical_def branch_hashes_def)

definition fits_head :: "('h, u32) chain_header \<Rightarrow> ('h, 'x, 'j) blockchain_storage \<Rightarrow> bool" where
  "fits_head x s \<longleftrightarrow> hd_parent x \<in> dom (hdrs s) \<and> unat (hd_number x) = unat (num_of (hdrs s) (hd_parent x)) + 1"

definition no_shorter_fork :: "('h, u32) chain_header \<Rightarrow> ('h, 'x, 'j) blockchain_storage \<Rightarrow> bool" where
  "no_shorter_fork x s \<longleftrightarrow> best_number s < hd_number x \<or> (best_hash s, hd_parent x) \<in> anc s"

lemma apply_head_ok:
  assumes t: "tree_ok s" and c: "canonical s" and x: "fits_head x s" and n: "no_shorter_fork x s"
  shows "\<exists>m. apply_head x s = Some (Inr (), s\<lparr>best_hash := hd_hash x, best_number := hd_number x,
      hashes := m(hd_number x \<mapsto> hd_hash x)\<rparr>) \<and> branch_hashes s (hd_parent x) m"
proof (cases "best_hash s = hd_parent x")
  case True
  then show ?thesis
    using canonical_branch [OF c] by (intro exI [of _ "hashes s"]) (simp add: apply_head_def Let_def)
next
  case False
  have dom: "best_hash s \<in> dom (hdrs s)" "hd_parent x \<in> dom (hdrs s)"
    using c x by (simp_all add: canonical_def fits_head_def)
  obtain r where r: "tree_route_between (header_metadata s) (best_hash s) (hd_parent x) = Some (Inr r)"
    using tree_route_ok [OF tree_chain [OF t] tree_no_gaps [OF t] header_metadata_ok [OF t] dom] by blast
  have "num_of (hdrs s) (best_hash s) \<le> num_of (hdrs s) (hd_parent x) \<or> (best_hash s, hd_parent x) \<in> anc s"
    using n c x by (auto simp: no_shorter_fork_def canonical_def fits_head_def word_less_nat_alt word_le_nat_alt)
  note reorganised [OF t dom r canonical_branch [OF c] this]
  moreover have "apply_head x s = Some (Inr (), s\<lparr>best_hash := hd_hash x, best_number := hd_number x, hashes :=
      (foldl (\<lambda>m e. m(snd e := None)) (foldl (\<lambda>m e. m(snd e \<mapsto> fst e)) (hashes s) (enacted r))
        (drop (length (enacted r)) (retracted r)))(hd_number x \<mapsto> hd_hash x)\<rparr>)"
    using False r by (simp add: apply_head_def Let_def)
  ultimately show ?thesis by blast
qed

text \<open>A block added to the tree.\<close>

lemma hdrs_added: "hdrs (s\<lparr>blocks := (blocks s)(h \<mapsto> b)\<rparr>) = (hdrs s)(h \<mapsto> stored_header b)"
  by (auto simp: hdrs_def)

lemma up_added:
  assumes "h \<notin> dom hs" and "h \<noteq> gen"
  shows "up (hs(h \<mapsto> x)) gen = insert (h, hd_parent x) (up hs gen)"
  using assms by (auto simp: up_def split: if_splits)

lemma added_ok:
  assumes t: "chain_ok hs gen" and succ: "\<forall>(h, p)\<in>up hs gen. unat (num_of hs h) = unat (num_of hs p :: u32) + 1"
    and h: "h \<notin> dom hs" and p: "hd_parent x \<in> dom hs" and n: "unat (hd_number x) = unat (num_of hs (hd_parent x)) + 1"
  shows "chain_ok (hs(h \<mapsto> x)) gen"
    and "(g, q) \<in> up (hs(h \<mapsto> x)) gen \<Longrightarrow> unat (num_of (hs(h \<mapsto> x)) g) = unat (num_of (hs(h \<mapsto> x)) q) + 1"
    and "a \<in> dom hs \<Longrightarrow> num_of (hs(h \<mapsto> x)) a = num_of hs a"
proof -
  have gen: "h \<noteq> gen" using t h by (auto simp: chain_ok_def)
  have keep: "num_of (hs(h \<mapsto> x)) a = num_of hs a" if "a \<in> dom hs" for a using that h by (auto simp: num_of_def)
  then show "a \<in> dom hs \<Longrightarrow> num_of (hs(h \<mapsto> x)) a = num_of hs a" .
  have new: "num_of (hs(h \<mapsto> x)) h = hd_number x" by (simp add: num_of_def)
  have edges: "unat (num_of (hs(h \<mapsto> x)) g) = unat (num_of (hs(h \<mapsto> x)) q) + 1 \<and> q \<in> dom hs" if "(g, q) \<in> up (hs(h \<mapsto> x)) gen" for g q
  proof -
    from that consider "g = h" "q = hd_parent x" | "(g, q) \<in> up hs gen" unfolding up_added [OF h gen] by auto
    then show ?thesis
    proof cases
      case 1
      then show ?thesis using n p new keep by simp
    next
      case 2
      then show ?thesis using succ 2 chain_up [OF t 2] up_known [OF 2] keep by auto
    qed
  qed
  then show "(g, q) \<in> up (hs(h \<mapsto> x)) gen \<Longrightarrow> unat (num_of (hs(h \<mapsto> x)) g) = unat (num_of (hs(h \<mapsto> x)) q) + 1" by blast
  have "num_of (hs(h \<mapsto> x)) q < num_of (hs(h \<mapsto> x)) g \<and> q \<in> dom (hs(h \<mapsto> x))" if "(g, q) \<in> up (hs(h \<mapsto> x)) gen" for g q
    using edges [OF that] by (simp add: word_less_nat_alt)
  then show "chain_ok (hs(h \<mapsto> x)) gen" using t unfolding chain_ok_def by auto
qed

lemma rtrancl_added:
  assumes t: "chain_ok hs gen" and h: "h \<notin> dom hs" and p: "hd_parent x \<in> dom hs" and a: "a \<in> dom hs"
  shows "(a, g) \<in> (up (hs(h \<mapsto> x)) gen)\<^sup>* \<longleftrightarrow> (a, g) \<in> (up hs gen)\<^sup>*"
    and "(h, g) \<in> (up (hs(h \<mapsto> x)) gen)\<^sup>* \<longleftrightarrow> g = h \<or> (hd_parent x, g) \<in> (up hs gen)\<^sup>*"
proof -
  have gen: "h \<noteq> gen" using t h by (auto simp: chain_ok_def)
  have "up hs gen \<subseteq> dom hs \<times> dom hs" using chain_up [OF t] up_known by fastforce
  note ext = extended_ancestry [OF this p h]
  show "(a, g) \<in> (up (hs(h \<mapsto> x)) gen)\<^sup>* \<longleftrightarrow> (a, g) \<in> (up hs gen)\<^sup>*"
    unfolding up_added [OF h gen] rtrancl_eq_or_trancl using ext(2) [OF a] by blast
  show "(h, g) \<in> (up (hs(h \<mapsto> x)) gen)\<^sup>* \<longleftrightarrow> g = h \<or> (hd_parent x, g) \<in> (up hs gen)\<^sup>*"
    unfolding up_added [OF h gen] rtrancl_eq_or_trancl using ext(3) [of g] by auto
qed

section \<open>Operations keep the canonical chain\<close>

lemma ballI2: "(\<And>x y. (x, y) \<in> A \<Longrightarrow> P x y) \<Longrightarrow> \<forall>(x, y)\<in>A. P x y"
  by auto

definition in_mem_ok :: "('h, 'x, 'j) blockchain_storage \<Rightarrow> bool" where
  "in_mem_ok s \<longleftrightarrow> tree_ok s \<and> canonical s \<and> num_of (hdrs s) (genesis_hash s) = 0"

lemma in_mem_ok_cong:
  assumes "hdrs t = hdrs s" "hashes t = hashes s" "best_hash t = best_hash s" "best_number t = best_number s"
    "genesis_hash t = genesis_hash s"
  shows "in_mem_ok t = in_mem_ok s"
  by (simp only: in_mem_ok_def tree_ok_def canonical_def assms)

lemma stored_header_new [simp]: "stored_header (stored_new x b j) = x"
  by (simp add: stored_new_def split: option.split)

lemma stored_header_just [simp]: "stored_header (set_justification j b) = stored_header b"
  by (cases b) simp_all

lemma inserted_ok:
  assumes t: "tree_ok s" and g: "num_of (hdrs s) (genesis_hash s) = 0" and x: "fits_head x s"
    and h: "hd_hash x \<notin> dom (hdrs s)"
    and hd: "hdrs u = (hdrs s)(hd_hash x \<mapsto> x)" "genesis_hash u = genesis_hash s"
    and c: "canonical s \<and> best_hash u = best_hash s \<and> best_number u = best_number s \<and> hashes u = hashes s
      \<or> best_hash u = hd_hash x \<and> best_number u = hd_number x
         \<and> (\<exists>m. hashes u = m(hd_number x \<mapsto> hd_hash x) \<and> branch_hashes s (hd_parent x) m)"
  shows "in_mem_ok u"
proof -
  let ?hs = "hdrs s" let ?h = "hd_hash x" let ?p = "hd_parent x"
  note ok = tree_chain [OF t]
  have p: "?p \<in> dom ?hs" and n: "unat (hd_number x) = unat (num_of ?hs ?p) + 1" using x by (simp_all add: fits_head_def)
  have succ: "\<forall>(h, p)\<in>up ?hs (genesis_hash s). unat (num_of ?hs h) = unat (num_of ?hs p) + 1"
    using t by (simp add: tree_ok_def)
  note add = added_ok [OF ok succ h p n] and rt = rtrancl_added [OF ok h p]
  have gen: "genesis_hash s \<in> dom ?hs" using ok by (simp add: chain_ok_def)
  have "tree_ok u"
    unfolding tree_ok_def hd
  proof (intro conjI allI impI ballI2)
    show "chain_ok (?hs(?h \<mapsto> x)) (genesis_hash s)" by (rule add(1))
    show "hd_hash y = k" if "(?hs(?h \<mapsto> x)) k = Some y" for k y
      using that tree_hash [OF t, of k y] by (cases "k = ?h") simp_all
  qed (rule add(2))
  moreover have "num_of (hdrs u) (genesis_hash u) = 0" using add(3) [OF gen] g by (simp add: hd)
  moreover have "canonical u"
    using c
  proof (elim disjE conjE exE)
    assume cs: "canonical s" and b: "best_hash u = best_hash s" "best_number u = best_number s" "hashes u = hashes s"
    have bd: "best_hash s \<in> dom ?hs" using cs by (simp add: canonical_def)
    have au: "(best_hash s, y) \<in> anc u \<longleftrightarrow> (best_hash s, y) \<in> anc s" for y unfolding hd by (rule rt(1) [OF bd])
    have nu: "num_of (hdrs u) y = num_of ?hs y" if "(best_hash s, y) \<in> anc s" for y
      unfolding hd(1) by (rule add(3)) (use up_rtrancl [OF ok that bd] in blast)
    have "hashes s k = Some y \<longleftrightarrow> (best_hash s, y) \<in> anc u \<and> num_of (hdrs u) y = k" for k y
      using cs au [of y] nu [of y] unfolding canonical_def by (metis (no_types))
    moreover have "best_hash s \<in> dom (hdrs u)" "best_number s = num_of (hdrs u) (best_hash s)"
      using bd cs nu [of "best_hash s"] by (simp_all add: hd(1) canonical_def)
    ultimately show ?thesis unfolding canonical_def b by blast
  next
    fix m assume b: "best_hash u = ?h" "best_number u = hd_number x" "hashes u = m(hd_number x \<mapsto> ?h)" and m: "branch_hashes s ?p m"
    have new: "num_of (hdrs u) ?h = hd_number x" by (simp add: hd num_of_def)
    have below: "(?p, y) \<in> anc s \<Longrightarrow> y \<in> dom ?hs \<and> num_of ?hs y \<noteq> hd_number x \<and> y \<noteq> ?h" for y
      using up_rtrancl [OF ok _ p, of y] n h by (auto simp: word_le_nat_alt)
    have "hashes u k = Some y \<longleftrightarrow> (?h, y) \<in> anc u \<and> num_of (hdrs u) y = k" for k y
    proof (cases "k = hd_number x")
      case True
      then show ?thesis using new below [of y] add(3) [of y] rt(2) [OF p, of y] unfolding b hd by auto
    next
      case False
      then have "hashes u k = Some y \<longleftrightarrow> (?p, y) \<in> anc s \<and> num_of ?hs y = k" using m by (simp add: b branch_hashes_def)
      then show ?thesis using False new below [of y] add(3) [of y] rt(2) [OF p, of y] unfolding hd by auto
    qed
    then show ?thesis using new by (simp add: canonical_def b hd)
  qed
  ultimately show ?thesis by (simp add: in_mem_ok_def)
qed

lemma chain_insert_ok:
  assumes ok: "in_mem_ok s" and x: "fits_head x s" and h: "hd_hash x \<notin> dom (hdrs s)"
    and n: "is_best st \<Longrightarrow> no_shorter_fork x s"
  shows "\<exists>t. chain_insert (hd_hash x) x j b st s = Some (Inr (), t) \<and> in_mem_ok t
    \<and> best_hash t = (if is_best st then hd_hash x else best_hash s)"
proof -
  have t: "tree_ok s" and c: "canonical s" and g: "num_of (hdrs s) (genesis_hash s) = 0" using ok by (simp_all add: in_mem_ok_def)
  have nz: "hd_number x \<noteq> 0" using x by (auto simp: fits_head_def)
  show ?thesis
  proof (cases "is_best st")
    case True
    obtain m where m: "apply_head x s = Some (Inr (), s\<lparr>best_hash := hd_hash x, best_number := hd_number x,
        hashes := m(hd_number x \<mapsto> hd_hash x)\<rparr>)" "branch_hashes s (hd_parent x) m"
      using apply_head_ok [OF t c x n [OF True]] by blast
    let ?r = "chain_insert (hd_hash x) x j b st s"
    obtain u where u: "?r = Some (Inr (), u)" "hdrs u = (hdrs s)(hd_hash x \<mapsto> x)" "genesis_hash u = genesis_hash s"
      "best_hash u = hd_hash x" "best_number u = hd_number x" "hashes u = m(hd_number x \<mapsto> hd_hash x)"
      using True nz m(1) by (simp add: chain_insert_def Let_def hdrs_def fun_eq_iff)
    have "in_mem_ok u" by (rule inserted_ok [OF t g x h u(2,3)]) (use u m(2) in blast)
    then show ?thesis using u True by auto
  next
    case False
    then obtain u where u: "chain_insert (hd_hash x) x j b st s = Some (Inr (), u)" "hdrs u = (hdrs s)(hd_hash x \<mapsto> x)"
      "genesis_hash u = genesis_hash s" "best_hash u = best_hash s" "best_number u = best_number s" "hashes u = hashes s"
      using nz by (cases st) (simp_all add: chain_insert_def Let_def hdrs_def fun_eq_iff)
    have "in_mem_ok u" by (rule inserted_ok [OF t g x h u(2,3)]) (use u c in blast)
    then show ?thesis using u False by auto
  qed
qed

lemma set_head_ok:
  assumes ok: "in_mem_ok s" and i: "header_of i s = Some x" and x: "fits_head x s" and n: "no_shorter_fork x s"
  shows "\<exists>t. set_head i s = Some (Inr (), t) \<and> in_mem_ok t \<and> best_hash t = hd_hash x"
proof -
  have t: "tree_ok s" and c: "canonical s" and g: "num_of (hdrs s) (genesis_hash s) = 0" using ok by (simp_all add: in_mem_ok_def)
  obtain h where "hdrs s h = Some x" using i by (auto simp: header_of_def hdrs_def split: option.splits)
  then have hx: "hdrs s (hd_hash x) = Some x" using tree_hash [OF t] by fastforce
  have "hd_hash x \<noteq> genesis_hash s" using hx g x by (auto simp: num_of_def fits_head_def)
  then have e: "(hd_hash x, hd_parent x) \<in> up (hdrs s) (genesis_hash s)" using hx by (auto simp: up_def)
  obtain m where m: "apply_head x s = Some (Inr (), s\<lparr>best_hash := hd_hash x, best_number := hd_number x,
        hashes := m(hd_number x \<mapsto> hd_hash x)\<rparr>)" "branch_hashes s (hd_parent x) m"
    using apply_head_ok [OF t c x n] by blast
  let ?u = "s\<lparr>best_hash := hd_hash x, best_number := hd_number x, hashes := m(hd_number x \<mapsto> hd_hash x)\<rparr>"
  have hu: "hdrs ?u = hdrs s" by (simp add: hdrs_def fun_eq_iff)
  have num: "num_of (hdrs s) (hd_hash x) = hd_number x" by (simp add: num_of_def hx)
  have p: "hd_parent x \<in> dom (hdrs s)" using x by (simp add: fits_head_def)
  have below: "(hd_parent x, y) \<in> anc s \<Longrightarrow> num_of (hdrs s) y \<noteq> hd_number x" for y
    using up_rtrancl [OF tree_chain [OF t] _ p, of y] x by (auto simp: word_le_nat_alt fits_head_def)
  have "(m(hd_number x \<mapsto> hd_hash x)) k = Some y \<longleftrightarrow> (hd_hash x, y) \<in> anc s \<and> num_of (hdrs s) y = k" for k y
    using m(2) num below [of y] unfolding branch_hashes_def up_first [OF e] by (cases "k = hd_number x") auto
  then have "canonical ?u" unfolding canonical_def hu using hx num by auto
  moreover have "tree_ok ?u" using t unfolding tree_ok_def hu by simp
  ultimately have "in_mem_ok ?u" using g by (simp add: in_mem_ok_def hu)
  then show ?thesis using i m(1) by (simp add: set_head_def)
qed

lemma genesis_ok:
  assumes "hd_number x = 0" and "hd_parent x = dflt" and "is_best st"
  shows "\<exists>t. chain_insert (hd_hash x) x j b st (chain_new dflt) = Some (Inr (), t) \<and> in_mem_ok t
    \<and> best_hash t = hd_hash x \<and> genesis_hash t = hd_hash x"
proof -
  obtain t where t: "chain_insert (hd_hash x) x j b st (chain_new dflt) = Some (Inr (), t)"
    "hdrs t = [hd_hash x \<mapsto> x]" "genesis_hash t = hd_hash x" "best_hash t = hd_hash x" "best_number t = 0" "hashes t = [0 \<mapsto> hd_hash x]"
    using assms by (cases st) (simp_all add: chain_insert_def apply_head_def chain_new_def Let_def hdrs_def fun_eq_iff)
  have u: "up (hdrs t) (genesis_hash t) = {}" by (auto simp: t up_def split: if_splits)
  have "num_of (hdrs t) (hd_hash x) = 0" by (simp add: t num_of_def assms)
  then have "in_mem_ok t"
    unfolding in_mem_ok_def tree_ok_def canonical_def chain_ok_def u using assms
    by (auto simp: t split: if_splits)
  then show ?thesis using t by blast
qed

end
