(* ===== verification/In_Mem_Properties.thy ===== *)
theory In_Mem_Properties
  imports In_Mem_Chain
begin

text \<open>
  What the in-memory chain promises: routes, ancestry and the canonical chain, over every history of
  insertions, head changes and finalisations.
\<close>

section \<open>Histories\<close>

text \<open>
  Inserted blocks are new, follow a stored parent with the next number, and a new head is higher
  than the old one or has its parent on the branch of the old one.
\<close>

inductive in_mem_step :: "('h, 'x, 'j) blockchain_storage \<Rightarrow> ('h, 'x, 'j) blockchain_storage \<Rightarrow> bool" where
  insert: "fits_head x s \<Longrightarrow> hd_hash x \<notin> dom (hdrs s) \<Longrightarrow> (is_best st \<longrightarrow> no_shorter_fork x s)
    \<Longrightarrow> chain_insert (hd_hash x) x j b st s = Some (r, t) \<Longrightarrow> in_mem_step s t"
| head: "header_of i s = Some x \<Longrightarrow> fits_head x s \<Longrightarrow> no_shorter_fork x s
    \<Longrightarrow> set_head i s = Some (r, t) \<Longrightarrow> in_mem_step s t"
| finalize: "finalize_header i j s = Some (r, t) \<Longrightarrow> in_mem_step s t"
| aux: "in_mem_step s (write_aux ops s)"
| aux_store: "in_mem_step s (insert_aux ins del s)"
| cht: "in_mem_step s (insert_cht_root n root s)"

inductive_cases in_mem_stepE: "in_mem_step s t"

definition in_mem_init :: "('h, 'x, 'j) blockchain_storage \<Rightarrow> bool" where
  "in_mem_init s \<longleftrightarrow> (\<exists>x j b st r. hd_number x = 0 \<and> is_best st
     \<and> chain_insert (hd_hash x) x j b st (chain_new (hd_parent x)) = Some (r, s))"

lemma finalize_header_ok:
  assumes "in_mem_ok s" and "finalize_header i j s = Some (r, t)"
  shows "in_mem_ok t"
proof -
  have "hdrs t = hdrs s \<and> hashes t = hashes s \<and> best_hash t = best_hash s \<and> best_number t = best_number s \<and> genesis_hash t = genesis_hash s"
    using assms(2) by (auto simp: finalize_header_def Let_def hdrs_def fun_eq_iff split: option.splits if_splits)
  then show ?thesis using in_mem_ok_cong [of t s] assms(1) by blast
qed

lemma in_mem_step_ok:
  assumes "in_mem_ok s" and "in_mem_step s t"
  shows "in_mem_ok t"
  using assms(2)
proof cases
  case (insert x st j b r)
  then show ?thesis using chain_insert_ok [OF assms(1) insert(1,2), of st j b] by auto
next
  case (head i x r)
  then show ?thesis using set_head_ok [OF assms(1) head(1-3)] by auto
next
  case (finalize i j r)
  then show ?thesis using finalize_header_ok [OF assms(1)] by blast
next
  case (aux ops)
  then show ?thesis using in_mem_ok_cong [of t s] assms(1) by (simp add: write_aux_def hdrs_def fun_eq_iff)
next
  case (aux_store ins del)
  then show ?thesis using in_mem_ok_cong [of t s] assms(1) by (simp add: insert_aux_def hdrs_def fun_eq_iff)
next
  case (cht n root)
  then show ?thesis using in_mem_ok_cong [of t s] assms(1) by (simp add: insert_cht_root_def hdrs_def fun_eq_iff)
qed

lemma in_mem_init_ok: "in_mem_init s \<Longrightarrow> in_mem_ok s"
  unfolding in_mem_init_def
proof (elim exE conjE)
  fix x j b st r
  assume "hd_number x = 0" "is_best st" "chain_insert (hd_hash x) x j b st (chain_new (hd_parent x)) = Some (r, s)"
  then show ?thesis using genesis_ok [of x "hd_parent x" st j b] by auto
qed

interpretation chain_states: guarded_system in_mem_init in_mem_step in_mem_ok
  by unfold_locales (use in_mem_init_ok in_mem_step_ok in blast)+

section \<open>The canonical chain\<close>

lemma rtrancl_up_path: "(a, c) \<in> (up hs gen)\<^sup>* \<Longrightarrow> \<exists>bs. up_path hs gen a bs c"
proof (induction rule: converse_rtrancl_induct)
  case base
  show ?case by (rule exI [of _ "[]"]) simp
next
  case (step a p)
  then obtain bs where "up_path hs gen p bs c" by blast
  then show ?case using step(1) by (intro exI [of _ "(a, num_of hs a) # bs"]) auto
qed

lemma canonical_covers:
  assumes "in_mem_ok s"
  shows "hashes s n \<noteq> None \<longleftrightarrow> n \<le> best_number s"
proof -
  have t: "tree_ok s" and c: "canonical s" and g: "num_of (hdrs s) (genesis_hash s) = 0" using assms by (simp_all add: in_mem_ok_def)
  have bd: "best_hash s \<in> dom (hdrs s)" and bn: "best_number s = num_of (hdrs s) (best_hash s)" using c by (simp_all add: canonical_def)
  have bg: "(best_hash s, genesis_hash s) \<in> anc s" by (rule up_genesis [OF tree_chain [OF t] bd])
  obtain bs where bs: "up_path (hdrs s) (genesis_hash s) (best_hash s) bs (genesis_hash s)"
    using rtrancl_up_path [OF bg] by blast
  have nums: "set (map (unat \<circ> snd) bs) = {Suc 0..<Suc (unat (best_number s))}"
    using up_path_numbers [OF tree_succ [OF t] bs] g bn by (auto simp del: upt_Suc)
  have "\<exists>h. (best_hash s, h) \<in> anc s \<and> num_of (hdrs s) h = n" if "n \<le> best_number s"
  proof (cases "n = 0")
    case True
    then show ?thesis using bg g by blast
  next
    case False
    then have "unat n \<in> set (map (unat \<circ> snd) bs)"
      using that unfolding nums by (simp add: word_le_nat_alt Suc_le_eq word_unat_eq_iff)
    then have "n \<in> snd ` set bs" by (simp only: unat_in_numbers)
    then obtain h where "(h, n) \<in> set bs" by auto
    then show ?thesis using up_path_blocks [OF bs, of h] up_path_entries [OF bs] by force
  qed
  moreover have "n \<le> best_number s" if "(best_hash s, h) \<in> anc s" "num_of (hdrs s) h = n" for h
    using anc_num [OF t that(1) bd] that(2) bn by (simp add: word_le_nat_alt)
  moreover have "hashes s n = Some h \<longleftrightarrow> (best_hash s, h) \<in> anc s \<and> num_of (hdrs s) h = n" for h
    using c by (simp add: canonical_def)
  ultimately show ?thesis by (metis not_None_eq)
qed

text \<open>
  C5 (canonical_chain): take any history of insertions, head changes, finalisations and auxiliary
  writes in which inserted blocks are new and follow a stored parent with the next number, and every
  new head is higher than the old best block or has its parent on the branch of that block.  Then
  the hash stored for a number is the block with that number on the branch of the best block, every
  number up to the best one has a hash, and no number above it has.  Heads on shorter forks are
  left out: for them the conclusion is false, as shown below.
\<close>

theorem canonical_chain:
  assumes "in_mem_init s0" and "in_mem_step\<^sup>*\<^sup>* s0 s"
  shows "(hash_of n s = Some h \<longleftrightarrow> (best_hash s, h) \<in> (up (hdrs s) (genesis_hash s))\<^sup>* \<and> number_of h s = Some n)
    \<and> (hash_of n s \<noteq> None \<longleftrightarrow> n \<le> best_number s)"
proof -
  have ok: "in_mem_ok s" by (rule chain_states.inv_reachable [OF assms])
  have t: "tree_ok s" and c: "canonical s" using ok by (simp_all add: in_mem_ok_def)
  have bd: "best_hash s \<in> dom (hdrs s)" using c by (simp add: canonical_def)
  have "(best_hash s, h) \<in> anc s \<Longrightarrow> num_of (hdrs s) h = n \<longleftrightarrow> number_of h s = Some n"
    using up_rtrancl [OF tree_chain [OF t] _ bd, of h] by (auto simp: number_of_def num_of_def hdrs_def)
  moreover have "hashes s n = Some h \<longleftrightarrow> (best_hash s, h) \<in> anc s \<and> num_of (hdrs s) h = n"
    using c by (simp add: canonical_def)
  ultimately show ?thesis using canonical_covers [OF ok, of n] unfolding hash_of_def chain_id.simps by blast
qed

section \<open>Ancestors and routes\<close>

lemma reachable_tree: "in_mem_init s0 \<Longrightarrow> in_mem_step\<^sup>*\<^sup>* s0 s \<Longrightarrow> tree_ok s"
  using chain_states.inv_reachable [of s0 s] by (simp add: in_mem_ok_def)

text \<open>
  C25 (lowest_common_ancestor_correct): for two stored blocks the search over ancestor and parent links
  ends and gives the block of greatest height that both descend from, with its number; a hash that
  is not stored is an error.
\<close>

theorem lowest_common_ancestor_correct:
  assumes "in_mem_init s0" and "in_mem_step\<^sup>*\<^sup>* s0 s"
  shows "case lowest_common_ancestor header_metadata insert_header_metadata a b s of
      None \<Rightarrow> False
    | Some (Inl e, t) \<Rightarrow> t = s \<and> \<not> {a, b} \<subseteq> dom (hdrs s)
    | Some (Inr (l, n), t) \<Rightarrow> t = s \<and> {a, b} \<subseteq> dom (hdrs s) \<and> is_lca (hdrs s) (genesis_hash s) a b l \<and> number_of l s = Some n"
proof (cases "{a, b} \<subseteq> dom (hdrs s)")
  case True
  note t = reachable_tree [OF assms]
  have dom: "a \<in> dom (hdrs s)" "b \<in> dom (hdrs s)" using True by auto
  obtain l where l: "metadata_for (hdrs s) (genesis_hash s) l" "is_lca (hdrs s) (genesis_hash s) a b (md_hash l)"
    "lowest_common_ancestor header_metadata insert_header_metadata a b s = Some (Inr (md_hash l, md_number l), s)"
    using lowest_common_ancestor_ok [where hm = header_metadata and s = s and ins = insert_header_metadata,
        OF tree_chain [OF t] header_metadata_ok [OF t] dom]
    by (auto simp: cache_ancestor_def insert_header_metadata_def)
  have "number_of (md_hash l) s = Some (md_number l)"
    using metadata_facts(1,2) [OF l(1)] by (auto simp: number_of_def num_of_def hdrs_def)
  then show ?thesis using l(2,3) True by simp
next
  case False
  then have "a \<notin> dom (hdrs s) \<or> b \<notin> dom (hdrs s)" by blast
  from lowest_common_ancestor_unknown [where hm = header_metadata and s = s and ins = insert_header_metadata,
      OF header_metadata_ok [OF reachable_tree [OF assms]] this]
  obtain e where "lowest_common_ancestor header_metadata insert_header_metadata a b s = Some (Inl e, s)" by blast
  then show ?thesis using False by simp
qed

text \<open>
  C26 (tree_route_correct): the route between two stored blocks goes up from the first to the lowest
  common ancestor and down to the second, block by block.
\<close>

theorem tree_route_correct:
  assumes "in_mem_init s0" and "in_mem_step\<^sup>*\<^sup>* s0 s" and "a \<in> dom (hdrs s)" and "b \<in> dom (hdrs s)"
  shows "\<exists>r l. tree_route_between (header_metadata s) a b = Some (Inr r)
    \<and> is_lca (hdrs s) (genesis_hash s) a b l \<and> common_block r = Some (l, num_of (hdrs s) l)
    \<and> up_path (hdrs s) (genesis_hash s) a (retracted r) l \<and> up_path (hdrs s) (genesis_hash s) b (rev (enacted r)) l"
proof -
  note t = reachable_tree [OF assms(1,2)]
  show ?thesis by (rule tree_route_ok [OF tree_chain [OF t] tree_no_gaps [OF t] header_metadata_ok [OF t] assms(3,4)])
qed

text \<open>
  C27 (is_descendent_of_correct): the client's ancestry check answers, and answers whether the second block is a
  proper descendant of the first in the tree extended by the block being imported; with no block
  being imported, in the tree itself.
\<close>

theorem is_descendent_of_correct:
  assumes "in_mem_init s0" and "in_mem_step\<^sup>*\<^sup>* s0 s" and "p \<in> dom (hdrs s)" and "c \<notin> dom (hdrs s)"
    and "base \<in> insert c (dom (hdrs s))" and "h \<in> insert c (dom (hdrs s))"
  shows "(\<exists>t. is_descendent_of_client header_metadata insert_header_metadata (Some (c, p)) base h s
      = Some (Inr ((h, base) \<in> (insert (c, p) (up (hdrs s) (genesis_hash s)))\<^sup>+), t))
    \<and> ({base, h} \<subseteq> dom (hdrs s) \<longrightarrow>
        (\<exists>t. is_descendent_of_client header_metadata insert_header_metadata None base h s
          = Some (Inr ((h, base) \<in> (up (hdrs s) (genesis_hash s))\<^sup>+), t)))"
  using in_mem.descendent_current [OF reachable_tree [OF assms(1,2)] assms(3-6)]
    in_mem.descendent_total [OF reachable_tree [OF assms(1,2)], of base h] by blast

section \<open>A head on a shorter fork\<close>

lemma shorter_route:
  assumes t: "tree_ok s" and a: "a \<in> dom (hdrs s)" and b: "b \<in> dom (hdrs s)"
    and r: "tree_route_between (header_metadata s) a b = Some (Inr r)"
    and fork: "(a, b) \<notin> anc s" and shorter: "num_of (hdrs s) b < num_of (hdrs s) a"
  shows "\<exists>n. n \<in> snd ` set (drop (length (enacted r)) (retracted r)) \<and> n \<le> num_of (hdrs s) b"
proof -
  obtain l where l: "up_path (hdrs s) (genesis_hash s) a (retracted r) l" "up_path (hdrs s) (genesis_hash s) b (rev (enacted r)) l"
    "unat (num_of (hdrs s) a) = unat (num_of (hdrs s) l) + length (retracted r)"
    "unat (num_of (hdrs s) b) = unat (num_of (hdrs s) l) + length (enacted r)"
    "map (unat \<circ> snd) (retracted r) = rev [Suc (unat (num_of (hdrs s) l))..<Suc (unat (num_of (hdrs s) a))]"
    by (rule head_route [OF t a b r])
  let ?e = "last (retracted r)"
  have len: "length (enacted r) < length (retracted r)" using shorter l(3,4) unfolding word_less_nat_alt by linarith
  have "enacted r \<noteq> []"
  proof
    assume "enacted r = []"
    then show False using l(2) up_path_rtrancl [OF l(1)] fork by simp
  qed
  then have pos: "0 < length (enacted r)" by simp
  have ne: "retracted r \<noteq> []" using len by auto
  have "unat (snd ?e) = last (map (unat \<circ> snd) (retracted r))" using ne by (simp add: last_map)
  also have "\<dots> = Suc (unat (num_of (hdrs s) l))" unfolding l(5) using l(3) ne by (simp add: last_rev upt_rec del: upt_Suc)
  finally have n: "unat (snd ?e) = Suc (unat (num_of (hdrs s) l))" .
  have "?e \<in> set (drop (length (enacted r)) (retracted r))"
    using len last_in_set [of "drop (length (enacted r)) (retracted r)"] by simp
  moreover have "snd ?e \<le> num_of (hdrs s) b" using n l(4) pos unfolding word_le_nat_alt by linarith
  ultimately show ?thesis by blast
qed

text \<open>
  C28 (shorter_fork_loses_hashes): a head on a fork below the old best block leaves a number on its own
  branch without a hash: the entries removed are the lowest retracted ones, not the ones above
  the new head.
\<close>

theorem shorter_fork_loses_hashes:
  assumes "in_mem_init s0" and "in_mem_step\<^sup>*\<^sup>* s0 s" and x: "fits_head x s"
    and fork: "(best_hash s, hd_parent x) \<notin> (up (hdrs s) (genesis_hash s))\<^sup>*"
    and shorter: "num_of (hdrs s) (hd_parent x) < best_number s"
  shows "\<exists>t n. apply_head x s = Some (Inr (), t) \<and> best_hash t = hd_hash x \<and> n \<le> best_number t \<and> hash_of n t = None"
proof -
  have ok: "in_mem_ok s" by (rule chain_states.inv_reachable [OF assms(1,2)])
  have t: "tree_ok s" and c: "canonical s" using ok by (simp_all add: in_mem_ok_def)
  have dom: "best_hash s \<in> dom (hdrs s)" "hd_parent x \<in> dom (hdrs s)" and bn: "best_number s = num_of (hdrs s) (best_hash s)"
    using c x by (simp_all add: canonical_def fits_head_def)
  have ne: "best_hash s \<noteq> hd_parent x" using fork by auto
  obtain r where r: "tree_route_between (header_metadata s) (best_hash s) (hd_parent x) = Some (Inr r)"
    using tree_route_ok [OF tree_chain [OF t] tree_no_gaps [OF t] header_metadata_ok [OF t] dom] by blast
  obtain n where n: "n \<in> snd ` set (drop (length (enacted r)) (retracted r))" "n \<le> num_of (hdrs s) (hd_parent x)"
    using shorter_route [OF t dom r fork] shorter unfolding bn by blast
  have lt: "unat n < unat (hd_number x)" using n(2) x unfolding fits_head_def word_le_nat_alt by linarith
  then have "n \<noteq> hd_number x" "n \<le> hd_number x" by (auto simp: word_le_nat_alt)
  moreover define m where "m = foldl (\<lambda>m e. m(snd e := None)) (foldl (\<lambda>m e. m(snd e \<mapsto> fst e)) (hashes s) (enacted r))
      (drop (length (enacted r)) (retracted r))"
  moreover have "m n = None" unfolding m_def foldl_remove using n(1) by simp
  moreover have "apply_head x s = Some (Inr (), s\<lparr>best_hash := hd_hash x, best_number := hd_number x,
      hashes := m(hd_number x \<mapsto> hd_hash x)\<rparr>)"
    using ne r by (simp add: apply_head_def Let_def m_def)
  ultimately show ?thesis by (simp add: hash_of_def) blast
qed

section \<open>A sample chain\<close>

text \<open>Block 1 is the genesis block; 2 and 3 follow it on the best branch; 4 is a fork of height one.\<close>

definition block :: "nat \<Rightarrow> u32 \<Rightarrow> nat \<Rightarrow> (nat, u32) chain_header" where
  "block h n p = \<lparr>hd_hash = h, hd_number = n, hd_parent = p\<rparr>"

definition grow :: "(nat, u32) chain_header \<Rightarrow> new_block_state \<Rightarrow> (nat, unit, unit) blockchain_storage
    \<Rightarrow> (nat, unit, unit) blockchain_storage" where
  "grow x st s = snd (the (chain_insert (hd_hash x) x None None st s))"

definition sample1 :: "(nat, unit, unit) blockchain_storage" where
  "sample1 = grow (block 1 0 0) BestBlock (chain_new 0)"

definition sample3 :: "(nat, unit, unit) blockchain_storage" where
  "sample3 = grow (block 3 2 2) BestBlock (grow (block 2 1 1) BestBlock sample1)"

definition sample4 :: "(nat, unit, unit) blockchain_storage" where
  "sample4 = grow (block 4 1 1) NormalBlock sample3"

lemma grow_best:
  assumes "best_hash s = hd_parent x"
  shows "chain_insert (hd_hash x) x None None BestBlock s = Some (Inr (), grow x BestBlock s)"
    and "hdrs (grow x BestBlock s) = (hdrs s)(hd_hash x \<mapsto> x)" "best_hash (grow x BestBlock s) = hd_hash x"
    and "best_number (grow x BestBlock s) = hd_number x"
    and "genesis_hash (grow x BestBlock s) = (if hd_number x = 0 then hd_hash x else genesis_hash s)"
  using assms by (simp_all add: grow_def chain_insert_def apply_head_def Let_def hdrs_def fun_eq_iff)

lemma grow_normal:
  "chain_insert (hd_hash x) x None None NormalBlock s = Some (Inr (), grow x NormalBlock s)"
  "hdrs (grow x NormalBlock s) = (hdrs s)(hd_hash x \<mapsto> x)" "best_hash (grow x NormalBlock s) = best_hash s"
  "best_number (grow x NormalBlock s) = best_number s"
  "genesis_hash (grow x NormalBlock s) = (if hd_number x = 0 then hd_hash x else genesis_hash s)"
  by (simp_all add: grow_def chain_insert_def Let_def hdrs_def fun_eq_iff)

lemma block_simps [simp]: "hd_hash (block h n p) = h" "hd_number (block h n p) = n" "hd_parent (block h n p) = p"
  by (simp_all add: block_def)

lemma chain_new_simps [simp]: "hdrs (chain_new d) = Map.empty" "best_hash (chain_new d) = d"
  by (simp_all add: chain_new_def hdrs_def fun_eq_iff)

lemma sample1_simps: "hdrs sample1 = [1 \<mapsto> block 1 0 0]" "best_hash sample1 = 1" "best_number sample1 = 0"
    "genesis_hash sample1 = 1"
  by (simp_all add: sample1_def grow_best)

lemma sample3_simps: "hdrs sample3 = [1 \<mapsto> block 1 0 0, 2 \<mapsto> block 2 1 1, 3 \<mapsto> block 3 2 2]" "best_hash sample3 = 3"
    "best_number sample3 = 2" "genesis_hash sample3 = 1"
  by (simp_all add: sample3_def grow_best sample1_simps)

lemma sample4_simps: "hdrs sample4 = [1 \<mapsto> block 1 0 0, 2 \<mapsto> block 2 1 1, 3 \<mapsto> block 3 2 2, 4 \<mapsto> block 4 1 1]"
    "best_hash sample4 = 3" "best_number sample4 = 2" "genesis_hash sample4 = 1"
  by (simp_all add: sample4_def grow_normal sample3_simps)

lemma sample_init: "in_mem_init sample1"
  unfolding in_mem_init_def sample1_def
  using grow_best(1) [of "chain_new 0" "block 1 0 0"] by (intro exI [of _ "block 1 0 0"] exI conjI) auto

lemma grow_step:
  assumes "best_hash s = hd_parent x" and "fits_head x s" and "hd_hash x \<notin> dom (hdrs s)"
  shows "in_mem_step s (grow x BestBlock s)"
  by (rule in_mem_step.insert [OF assms(2,3) _ grow_best(1) [OF assms(1)]]) (simp add: assms(1) no_shorter_fork_def)

lemma sample3_reachable: "in_mem_step\<^sup>*\<^sup>* sample1 sample3"
proof -
  have "in_mem_step sample1 (grow (block 2 1 1) BestBlock sample1)"
    by (rule grow_step) (simp_all add: sample1_simps fits_head_def num_of_def)
  moreover have "in_mem_step (grow (block 2 1 1) BestBlock sample1) sample3"
    unfolding sample3_def by (rule grow_step) (simp_all add: grow_best sample1_simps fits_head_def num_of_def)
  ultimately show ?thesis by (meson rtranclp.rtrancl_refl rtranclp.rtrancl_into_rtrancl)
qed

lemma sample4_reachable: "in_mem_step\<^sup>*\<^sup>* sample1 sample4"
proof -
  have "in_mem_step sample3 sample4"
    unfolding sample4_def
    by (rule in_mem_step.insert [OF _ _ _ grow_normal(1)]) (simp_all add: sample3_simps fits_head_def num_of_def)
  then show ?thesis using sample3_reachable by (rule rtranclp.rtrancl_into_rtrancl [rotated])
qed

lemma sample_up: "up (hdrs sample4) (genesis_hash sample4) = {(2, 1), (3, 2), (4, 1)}"
  by (auto simp: up_def sample4_simps split: if_splits)

lemma sample_anc: "(3, h) \<in> anc sample4 \<longleftrightarrow> h \<in> {1, 2, 3}"
proof -
  have edges: "(3, 2) \<in> up (hdrs sample4) (genesis_hash sample4)" "(2, 1) \<in> up (hdrs sample4) (genesis_hash sample4)"
    by (simp_all add: sample_up)
  have "(1, h) \<in> anc sample4 \<longleftrightarrow> h = 1" by (auto simp: sample_up elim: converse_rtranclE)
  then show ?thesis using up_first [OF edges(1), of h] up_first [OF edges(2), of h] by auto
qed

theorem canonical_chain_witness:
  "in_mem_init sample1 \<and> in_mem_step\<^sup>*\<^sup>* sample1 sample4 \<and> hash_of 1 sample4 = Some 2 \<and> hash_of 3 sample4 = None"
proof -
  note c = canonical_chain [OF sample_init sample4_reachable]
  have "number_of 2 sample4 = Some 1" using fun_cong [OF sample4_simps(1), of 2] by (auto simp: hdrs_def number_of_def)
  then have "hash_of 1 sample4 = Some 2"
    using conjunct1 [OF c [of 1 2]] sample_anc [of 2] unfolding sample4_simps(2) by simp
  moreover have "hash_of 3 sample4 = None" using conjunct2 [OF c [of 3]] by (simp add: sample4_simps)
  ultimately show ?thesis using sample_init sample4_reachable by simp
qed


lemma sample_lca: "common_ancestor (hdrs sample4) (genesis_hash sample4) 3 4 l \<Longrightarrow> l = 1"
proof -
  have e: "(4, 1) \<in> up (hdrs sample4) (genesis_hash sample4)" by (simp add: sample_up)
  have "(1, l) \<in> anc sample4 \<longleftrightarrow> l = 1" by (auto simp: sample_up elim: converse_rtranclE)
  then show "common_ancestor (hdrs sample4) (genesis_hash sample4) 3 4 l \<Longrightarrow> l = 1"
    using sample_anc [of l] up_first [OF e, of l] by (auto simp: common_ancestor_def)
qed

theorem lowest_common_ancestor_correct_witness:
  "in_mem_init sample1 \<and> in_mem_step\<^sup>*\<^sup>* sample1 sample4
    \<and> (\<exists>n. lowest_common_ancestor header_metadata insert_header_metadata 3 4 sample4 = Some (Inr (1, n), sample4))"
proof -
  have dom: "{3, 4} \<subseteq> dom (hdrs sample4)" by (auto simp: sample4_simps)
  obtain l n where l: "lowest_common_ancestor header_metadata insert_header_metadata 3 4 sample4 = Some (Inr (l, n), sample4)"
    "is_lca (hdrs sample4) (genesis_hash sample4) 3 4 l"
    using lowest_common_ancestor_correct [OF sample_init sample4_reachable, of 3 4] dom
    by (simp split: option.splits prod.splits sum.splits) (metis surj_pair)
  moreover have "l = 1" using l(2) sample_lca [of l] by (simp add: is_lca_def)
  ultimately show ?thesis using sample_init sample4_reachable by blast
qed

theorem tree_route_correct_witness:
  "in_mem_init sample1 \<and> in_mem_step\<^sup>*\<^sup>* sample1 sample4
    \<and> (\<exists>r. tree_route_between (header_metadata sample4) 3 4 = Some (Inr r) \<and> fst (the (common_block r)) = 1)"
proof -
  have "3 \<in> dom (hdrs sample4)" "4 \<in> dom (hdrs sample4)" by (simp_all add: sample4_simps)
  from tree_route_correct [OF sample_init sample4_reachable this] obtain r l where
    "tree_route_between (header_metadata sample4) 3 4 = Some (Inr r)" "is_lca (hdrs sample4) (genesis_hash sample4) 3 4 l"
    "common_block r = Some (l, num_of (hdrs sample4) l)" by blast
  then show ?thesis using sample_lca [of l] sample_init sample4_reachable by (auto simp: is_lca_def)
qed

theorem is_descendent_of_correct_witness:
  "in_mem_init sample1 \<and> in_mem_step\<^sup>*\<^sup>* sample1 sample4
    \<and> (\<exists>t. is_descendent_of_client header_metadata insert_header_metadata (Some (5, 4)) 1 5 sample4 = Some (Inr True, t))"
proof -
  have "4 \<in> dom (hdrs sample4)" "5 \<notin> dom (hdrs sample4)" "1 \<in> insert 5 (dom (hdrs sample4))" "5 \<in> insert 5 (dom (hdrs sample4))"
    by (simp_all add: sample4_simps)
  from is_descendent_of_correct [OF sample_init sample4_reachable this] obtain t where
    t: "is_descendent_of_client header_metadata insert_header_metadata (Some (5, 4)) 1 5 sample4
      = Some (Inr ((5, 1) \<in> (insert (5, 4) (up (hdrs sample4) (genesis_hash sample4)))\<^sup>+), t)" by blast
  have "(5, 4) \<in> insert (5, 4) (up (hdrs sample4) (genesis_hash sample4))"
    "(4, 1) \<in> insert (5, 4) (up (hdrs sample4) (genesis_hash sample4))" by (simp_all add: sample_up)
  then have "(5, 1) \<in> (insert (5, 4) (up (hdrs sample4) (genesis_hash sample4)))\<^sup>+" by (rule trancl.intros(2) [OF trancl.intros(1)])
  then show ?thesis using t sample_init sample4_reachable by simp
qed

theorem shorter_fork_loses_hashes_witness:
  "in_mem_init sample1 \<and> in_mem_step\<^sup>*\<^sup>* sample1 sample4
    \<and> (\<exists>t n. apply_head (block 6 2 4) sample4 = Some (Inr (), t) \<and> best_hash t = 6 \<and> n \<le> best_number t \<and> hash_of n t = None)"
proof -
  have "fits_head (block 6 2 4) sample4" by (simp add: fits_head_def sample4_simps num_of_def)
  moreover have "(best_hash sample4, hd_parent (block 6 2 4)) \<notin> anc sample4" using sample_anc [of 4] by (simp add: sample4_simps(2))
  moreover have "num_of (hdrs sample4) (hd_parent (block 6 2 4)) < best_number sample4" by (simp add: sample4_simps num_of_def)
  ultimately show ?thesis
    using shorter_fork_loses_hashes [OF sample_init sample4_reachable, of "block 6 2 4"] sample_init sample4_reachable by simp
qed

end
