(* ===== verification/Fork_Tree_Properties.thy ===== *)
theory Fork_Tree_Properties
  imports Fork_Tree_Laws In_Mem_Properties
begin

text \<open>
  The fork tree beside the in-memory chain: the client's ancestry check answers the questions of
  the tree, also for a block that is being imported.
\<close>

section \<open>The client of the in-memory chain\<close>

text \<open>A chain, with the header of the block that is being imported, if any.\<close>

type_synonym ('h, 'x, 'j) chain_view = "('h, 'x, 'j) blockchain_storage \<times> ('h, u32) chain_header option"

definition view_hdrs :: "('h, 'x, 'j) chain_view \<Rightarrow> 'h \<rightharpoonup> ('h, u32) chain_header" where
  "view_hdrs v = (case snd v of None \<Rightarrow> hdrs (fst v) | Some x \<Rightarrow> (hdrs (fst v))(hd_hash x \<mapsto> x))"

definition view_known :: "('h, 'x, 'j) chain_view \<Rightarrow> 'h set" where
  "view_known v = dom (view_hdrs v)"

definition view_desc :: "('h, 'x, 'j) chain_view \<Rightarrow> 'h \<Rightarrow> 'h \<Rightarrow> bool" where
  "view_desc v a b \<longleftrightarrow> (b, a) \<in> (up (view_hdrs v) (genesis_hash (fst v)))\<^sup>+"

definition view_num :: "('h, 'x, 'j) chain_view \<Rightarrow> 'h \<Rightarrow> u32" where
  "view_num v = num_of (view_hdrs v)"

definition view_ok :: "('h, 'x, 'j) chain_view \<Rightarrow> bool" where
  "view_ok v \<longleftrightarrow> tree_ok (fst v) \<and> (case snd v of None \<Rightarrow> True | Some x \<Rightarrow> fits_head x (fst v) \<and> hd_hash x \<notin> dom (hdrs (fst v)))"

definition client_isd :: "('h, 'x, 'j) chain_view \<Rightarrow> ('h, chain_error) is_descendent_of" where
  "client_isd v a b =
     (case is_descendent_of_client header_metadata insert_header_metadata
             (map_option (\<lambda>x. (hd_hash x, hd_parent x)) (snd v)) a b (fst v) of
        Some (r, _) \<Rightarrow> r
      | None \<Rightarrow> Inl BackendError)"

lemma tree_added:
  assumes "tree_ok s" and "fits_head x s" and "hd_hash x \<notin> dom (hdrs s)"
  shows "chain_ok ((hdrs s)(hd_hash x \<mapsto> x)) (genesis_hash s)"
    and "up ((hdrs s)(hd_hash x \<mapsto> x)) (genesis_hash s) = insert (hd_hash x, hd_parent x) (up (hdrs s) (genesis_hash s))"
    and "a \<in> dom (hdrs s) \<Longrightarrow> num_of ((hdrs s)(hd_hash x \<mapsto> x)) a = num_of (hdrs s) a"
    and "a \<in> dom (hdrs s) \<Longrightarrow> (a, b) \<in> (up ((hdrs s)(hd_hash x \<mapsto> x)) (genesis_hash s))\<^sup>+ \<longleftrightarrow> (a, b) \<in> (up (hdrs s) (genesis_hash s))\<^sup>+"
proof -
  note c = tree_chain [OF assms(1)]
  have p: "hd_parent x \<in> dom (hdrs s)" "unat (hd_number x) = unat (num_of (hdrs s) (hd_parent x)) + 1"
    using assms(2) by (simp_all add: fits_head_def)
  have succ: "\<forall>(h, p)\<in>up (hdrs s) (genesis_hash s). unat (num_of (hdrs s) h) = unat (num_of (hdrs s) p) + 1"
    using assms(1) by (simp add: tree_ok_def)
  show "chain_ok ((hdrs s)(hd_hash x \<mapsto> x)) (genesis_hash s)" by (rule added_ok(1) [OF c succ assms(3) p])
  show "num_of ((hdrs s)(hd_hash x \<mapsto> x)) a = num_of (hdrs s) a" if "a \<in> dom (hdrs s)"
    by (rule added_ok(3) [OF c succ assms(3) p that])
  have "hd_hash x \<noteq> genesis_hash s" using c assms(3) by (auto simp: chain_ok_def)
  from up_added [OF assms(3) this, of x]
  show u: "up ((hdrs s)(hd_hash x \<mapsto> x)) (genesis_hash s) = insert (hd_hash x, hd_parent x) (up (hdrs s) (genesis_hash s))" .
  have "up (hdrs s) (genesis_hash s) \<subseteq> dom (hdrs s) \<times> dom (hdrs s)" using chain_up [OF c] up_known by fastforce
  from extended_ancestry(2) [OF this p(1) assms(3)]
  show "(a, b) \<in> (up ((hdrs s)(hd_hash x \<mapsto> x)) (genesis_hash s))\<^sup>+ \<longleftrightarrow> (a, b) \<in> (up (hdrs s) (genesis_hash s))\<^sup>+"
    if "a \<in> dom (hdrs s)" unfolding u using that by blast
qed

lemma view_chain: "view_ok v \<Longrightarrow> chain_ok (view_hdrs v) (genesis_hash (fst v))"
  using tree_chain tree_added(1) by (auto simp: view_ok_def view_hdrs_def split: option.splits)

lemma client_isd_answers:
  assumes "view_ok v" and "a \<in> view_known v" and "b \<in> view_known v"
  shows "client_isd v a b = Inr (view_desc v a b)"
proof (cases "snd v")
  case None
  have t: "tree_ok (fst v)" and d: "a \<in> dom (hdrs (fst v))" "b \<in> dom (hdrs (fst v))"
    using assms None by (simp_all add: view_ok_def view_known_def view_hdrs_def)
  show ?thesis using in_mem.descendent_total [OF t d] None by (auto simp: client_isd_def view_desc_def view_hdrs_def)
next
  case (Some x)
  have t: "tree_ok (fst v)" and x: "fits_head x (fst v)" "hd_hash x \<notin> dom (hdrs (fst v))"
    using assms(1) Some by (simp_all add: view_ok_def)
  have d: "a \<in> insert (hd_hash x) (dom (hdrs (fst v)))" "b \<in> insert (hd_hash x) (dom (hdrs (fst v)))"
    using assms(2,3) Some by (simp_all add: view_known_def view_hdrs_def)
  have p: "hd_parent x \<in> dom (hdrs (fst v))" using x(1) by (simp add: fits_head_def)
  have "view_desc v a b = ((b, a) \<in> (insert (hd_hash x, hd_parent x) (up (hdrs (fst v)) (genesis_hash (fst v))))\<^sup>+)"
    unfolding view_desc_def view_hdrs_def Some option.case tree_added(2) [OF t x] ..
  then show ?thesis using in_mem.descendent_current [OF t p x(2) d] Some by (auto simp: client_isd_def)
qed

interpretation chain_client: ancestry_client view_ok view_known view_desc view_num client_isd
proof unfold_locales
  fix v :: "('h, 'x, 'j) chain_view" and a b c
  assume v: "view_ok v"
  note ok = view_chain [OF v]
  show "a \<in> view_known v \<Longrightarrow> b \<in> view_known v \<Longrightarrow> client_isd v a b = Inr (view_desc v a b)"
    by (rule client_isd_answers [OF v])
  show "view_desc v a b \<Longrightarrow> view_desc v b c \<Longrightarrow> view_desc v a c"
    unfolding view_desc_def by (rule trancl_trans)
  show "view_desc v a b \<Longrightarrow> view_num v a < view_num v b"
    unfolding view_desc_def view_num_def using up_trancl [OF ok] by blast
  assume "view_desc v a c" "view_desc v b c"
  from up_linear [OF trancl_into_rtrancl [OF this(1) [unfolded view_desc_def]] trancl_into_rtrancl [OF this(2) [unfolded view_desc_def]]]
  show "a = b \<or> view_desc v a b \<or> view_desc v b a" unfolding view_desc_def rtrancl_eq_or_trancl by blast
qed

section \<open>Histories of a chain with a fork tree\<close>

lemma forest_ok_cong:
  assumes "K \<subseteq> K'" and "\<And>a b. a \<in> K \<Longrightarrow> b \<in> K \<Longrightarrow> ds' a b = ds a b" and "\<And>a. a \<in> K \<Longrightarrow> nm' a = nm a"
    and "forest_ok K ds nm rs"
  shows "forest_ok K' ds' nm' rs"
proof -
  have un: "unrelated ds' rs" if "unrelated ds rs" "\<forall>x\<in>set rs. node_ok K ds nm x" for rs :: "('a, 'b, 'c) node list"
    using that assms(2) unfolding unrelated_def by (metis node_ok_iff)
  have "node_ok K ds nm x \<Longrightarrow> node_ok K' ds' nm' x" for x :: "('a, 'b, 'c) node"
  proof (induction x)
    case (Node h n d cs)
    have "ds' h (fst e)" if e: "e \<in> set (forest_entries cs)" for e
    proof -
      have "e \<in> set (entries (Node h n d cs))" using e by (simp add: forest_entries_def)
      then have "fst e \<in> K" by (rule node_ok_known [OF Node.prems])
      then show ?thesis using Node.prems e assms(2) by simp
    qed
    then show ?case using Node un [of cs] assms(1,3) by auto
  qed
  then show ?thesis using assms(4) un [of rs] by (simp add: forest_ok_def)
qed

lemma forest_ok_filter: "forest_ok K ds nm rs \<Longrightarrow> forest_ok K ds nm (filter q rs)"
  unfolding forest_ok_def unrelated_def by (simp add: distinct_map_filter)

lemma forest_ok_take: "forest_ok K ds nm rs \<Longrightarrow> forest_ok K ds nm (take n rs)"
  using forest_ok_append [of K ds nm "take n rs" "drop n rs"] by simp

lemma node_find_ok:
  "node_ok K ds nm x \<Longrightarrow> node_find_node_where f h n p x = Inr (Found y) \<Longrightarrow> node_ok K ds nm y"
proof (induction x)
  case (Node sh sn sd cs)
  have "children_find f h n p cs' = Inl (Inr (Found y)) \<Longrightarrow> set cs' \<subseteq> set cs \<Longrightarrow> node_ok K ds nm y" for cs'
  proof (induction cs')
    case (Cons c cs')
    then show ?case using Node.IH [of c] Node.prems(1) by (auto split: sum.splits find_outcome.splits bool.splits)
  qed simp
  then show ?case using Node.prems by (auto split: if_splits sum.splits)
qed

lemma find_ok:
  assumes "forest_ok K ds nm (roots t)" and "find_node_where f h n p t = Inr (Some y)"
  shows "node_ok K ds nm y"
proof -
  have "\<forall>x\<in>set rs. node_ok K ds nm x \<Longrightarrow> roots_find f h n p rs = Inr (Some y) \<Longrightarrow> node_ok K ds nm y" for rs
    using node_find_ok [of K ds nm _ f h n p y] by (induction rs) (auto split: sum.splits find_outcome.splits)
  then show ?thesis using assms by (auto simp: find_node_where_def forest_ok_def)
qed

lemma prune_ok:
  assumes "forest_ok K ds nm (roots t)" and "\<And>a. a \<in> K \<Longrightarrow> \<not> ds a a" and "fork_prune f h n p t = (r, t')"
  shows "forest_ok K ds nm (roots t')"
proof (cases "find_node_where f h n p t")
  case (Inl e)
  then show ?thesis using assms(1,3) by (simp add: fork_prune_def)
next
  case (Inr found)
  show ?thesis
  proof (cases found)
    case None
    then show ?thesis using assms(1,3) Inr by (simp add: fork_prune_def)
  next
    case (Some y)
    let ?kept = "take 1 (filter (\<lambda>node. nnumber node = n \<and> nhash node = h
                       \<or> nnumber node < n \<and> unwrap_or_false (f (nhash node) h)) (children y))"
    have y: "node_ok K ds nm y" using find_ok [OF assms(1)] Inr Some by simp
    have "forest_ok K ds nm ?kept" using y by (intro forest_ok_take forest_ok_filter) (simp add: node_ok_iff)
    moreover have "set ?kept \<subseteq> set (children y)" by (auto dest: in_set_takeD)
    then have "\<forall>e\<in>set (forest_entries ?kept). ds (nhash y) (fst e)"
      using y unfolding node_ok_iff in_forest_entries by (meson in_forest_entries subsetD)
    ultimately have "node_ok K ds nm (Node (nhash y) (nnumber y) (ndata y) ?kept)"
      using y by (intro node_okI) (simp_all add: node_ok_iff)
    moreover have "\<not> ds (nhash y) (nhash y)" using assms(2) y by (simp add: node_ok_iff)
    ultimately show ?thesis using assms(3) Inr Some by (auto simp: fork_prune_def forest_ok_Cons)
  qed
qed

lemma map_sum_Inr: "map_sum f g r = Inr y \<longleftrightarrow> (\<exists>x. r = Inr x \<and> g x = y)"
  by (cases r) auto

lemma find_finalized_lt: "find_finalized f h n p xs = Inr (Some i) \<Longrightarrow> i < length xs"
  by (induction xs arbitrary: i) (auto simp: map_sum_Inr split: if_splits sum.splits bool.splits)

lemma finalize_with_descendent_ok:
  assumes f: "forest_ok K ds nm (roots t)" and "finalize_with_descendent_if g h n p t = (r, t')"
  shows "forest_ok K ds nm (roots t')"
proof (cases "reverts n t \<or> (\<exists>e. find_finalized g h n p (roots t) = Inl e)")
  case True
  then have "t' = t" using assms(2) by (cases "reverts n t") (auto simp: finalize_with_descendent_if_def)
  then show ?thesis using f by simp
next
  case False
  then obtain pos where pos: "find_finalized g h n p (roots t) = Inr pos" by (cases "find_finalized g h n p (roots t)") auto
  have "forest_ok K ds nm (children (roots t ! i))" if "pos = Some i" for i
  proof -
    have "roots t ! i \<in> set (roots t)" using find_finalized_lt [of g h n p "roots t" i] pos that by simp
    then show ?thesis using forest_ok_mem [OF f] by (simp add: node_ok_iff)
  qed
  then show ?thesis
    using assms False pos
    by (auto simp: finalize_with_descendent_if_def finalize_root_at_def Let_def retain_def intro!: forest_ok_filter split: option.splits)
qed

text \<open>
  The chain takes a step of its own, or a block enters the tree and then the chain, or the tree
  is finalised or pruned at a block of the chain.
\<close>

inductive fork_step :: "('h, 'x, 'j) blockchain_storage \<times> ('h, u32, 'v) fork_tree \<Rightarrow>
    ('h, 'x, 'j) blockchain_storage \<times> ('h, u32, 'v) fork_tree \<Rightarrow> bool" where
  chain: "in_mem_step s s' \<Longrightarrow> fork_step (s, t) (s', t)"
| import: "fits_head x s \<Longrightarrow> hd_hash x \<notin> dom (hdrs s) \<Longrightarrow> (is_best st \<longrightarrow> no_shorter_fork x s) \<Longrightarrow>
    fork_import (client_isd (s, Some x)) (hd_hash x) (hd_number x) d t = (r, t') \<Longrightarrow>
    chain_insert (hd_hash x) x j b st s = Some (q, s') \<Longrightarrow> fork_step (s, t) (s', t')"
| finalize: "number_of h s = Some n \<Longrightarrow> fork_finalize (client_isd (s, None)) h n t = (r, t') \<Longrightarrow> fork_step (s, t) (s, t')"
| finalize_ancestors: "number_of h s = Some n \<Longrightarrow> finalize_with_ancestors (client_isd (s, None)) h n t = Some (q, t') \<Longrightarrow>
    fork_step (s, t) (s, t')"
| finalize_descendent: "number_of h s = Some n \<Longrightarrow>
    finalize_with_descendent_if (client_isd (s, None)) h n p t = (r, t') \<Longrightarrow> fork_step (s, t) (s, t')"
| prune: "number_of h s = Some n \<Longrightarrow> fork_prune (client_isd (s, None)) h n p t = (u, t') \<Longrightarrow> fork_step (s, t) (s, t')"

definition fork_init :: "('h, 'x, 'j) blockchain_storage \<times> ('h, u32, 'v) fork_tree \<Rightarrow> bool" where
  "fork_init c \<longleftrightarrow> in_mem_init (fst c) \<and> snd c = fork_tree_new"

definition fork_inv :: "('h, 'x, 'j) blockchain_storage \<times> ('h, u32, 'v) fork_tree \<Rightarrow> bool" where
  "fork_inv c \<longleftrightarrow> in_mem_ok (fst c)
     \<and> forest_ok (view_known (fst c, None)) (view_desc (fst c, None)) (view_num (fst c, None)) (roots (snd c))"

lemma apply_head_hdrs: "apply_head x s = Some (r, t) \<Longrightarrow> hdrs t = hdrs s \<and> genesis_hash t = genesis_hash s"
  by (auto simp: apply_head_def Let_def hdrs_def fun_eq_iff split: if_splits option.splits sum.splits)

lemma chain_insert_hdrs:
  assumes "chain_insert (hd_hash x) x j b st s = Some (r, t)" and "fits_head x s"
  shows "genesis_hash t = genesis_hash s \<and> hdrs t = (case r of Inl _ \<Rightarrow> hdrs s | Inr _ \<Rightarrow> (hdrs s)(hd_hash x \<mapsto> x))"
proof -
  have nz: "hd_number x \<noteq> 0" using assms(2) by (auto simp: fits_head_def)
  obtain q u where q: "(if is_best st then apply_head x s else Some (Inr (), s)) = Some (q, u)"
    using assms(1) by (auto simp: chain_insert_def Let_def split: option.splits if_splits)
  then have u: "hdrs u = hdrs s" "genesis_hash u = genesis_hash s" using apply_head_hdrs by (auto split: if_splits)
  show ?thesis
  proof (cases q)
    case (Inl e)
    then show ?thesis using assms(1) q u by (auto simp: chain_insert_def Let_def)
  next
    case (Inr y)
    then have "hdrs t = (hdrs u)(hd_hash x \<mapsto> x)" "genesis_hash t = genesis_hash u" "r = Inr ()"
      using assms(1) q nz by (auto simp: chain_insert_def Let_def hdrs_def fun_eq_iff)
    then show ?thesis using u by simp
  qed
qed

lemma in_mem_step_hdrs:
  assumes "in_mem_step s s'"
  shows "genesis_hash s' = genesis_hash s \<and> (hdrs s' = hdrs s
    \<or> (\<exists>x. fits_head x s \<and> hd_hash x \<notin> dom (hdrs s) \<and> hdrs s' = (hdrs s)(hd_hash x \<mapsto> x)))"
  using assms
proof cases
  case (insert x st j b r)
  then show ?thesis using chain_insert_hdrs [OF insert(4,1)] by (cases r) auto
next
  case (head i x r)
  then show ?thesis using apply_head_hdrs by (auto simp: set_head_def)
next
  case (finalize i j r)
  then show ?thesis by (auto simp: finalize_header_def Let_def hdrs_def fun_eq_iff split: option.splits if_splits)
qed (simp_all add: write_aux_def insert_aux_def insert_cht_root_def hdrs_def fun_eq_iff)

text \<open>A chain that grew by one block keeps the forest.\<close>

lemma forest_grows:
  assumes t: "tree_ok s" and f: "forest_ok (view_known (s, None)) (view_desc (s, None)) (view_num (s, None)) rs"
    and g: "genesis_hash s' = genesis_hash s" and x: "fits_head x s" "hd_hash x \<notin> dom (hdrs s)" and h: "hdrs s' = (hdrs s)(hd_hash x \<mapsto> x)"
  shows "forest_ok (view_known (s', None)) (view_desc (s', None)) (view_num (s', None)) rs"
    and "forest_ok (view_known (s, Some x)) (view_desc (s, Some x)) (view_num (s, Some x)) rs"
    and "view_known (s, Some x) = view_known (s', None)" "view_desc (s, Some x) = view_desc (s', None)" "view_num (s, Some x) = view_num (s', None)"
proof -
  show eqs: "view_known (s, Some x) = view_known (s', None)" "view_desc (s, Some x) = view_desc (s', None)"
    "view_num (s, Some x) = view_num (s', None)"
    by (simp_all add: view_known_def view_desc_def view_num_def view_hdrs_def h g fun_eq_iff)
  show "forest_ok (view_known (s', None)) (view_desc (s', None)) (view_num (s', None)) rs"
  proof (rule forest_ok_cong [OF _ _ _ f])
    show "view_known (s, None) \<subseteq> view_known (s', None)" by (auto simp: view_known_def view_hdrs_def h)
    show "view_desc (s', None) a b = view_desc (s, None) a b" if "a \<in> view_known (s, None)" "b \<in> view_known (s, None)" for a b
      using tree_added(4) [OF t x, of b a] that by (simp add: view_desc_def view_known_def view_hdrs_def h g)
    show "view_num (s', None) a = view_num (s, None) a" if "a \<in> view_known (s, None)" for a
      using tree_added(3) [OF t x, of a] that by (simp add: view_num_def view_known_def view_hdrs_def h)
  qed
  then show "forest_ok (view_known (s, Some x)) (view_desc (s, Some x)) (view_num (s, Some x)) rs" unfolding eqs .
qed

abbreviation chain_forest :: "('h, 'x, 'j) chain_view \<Rightarrow> ('h, u32, 'v) node list \<Rightarrow> bool" where
  "chain_forest v \<equiv> forest_ok (view_known v) (view_desc v) (view_num v)"

lemma number_known:
  assumes "number_of h s = Some n"
  shows "h \<in> view_known (s, None)" and "n = view_num (s, None) h"
  using assms by (auto simp: number_of_def view_known_def view_num_def view_hdrs_def hdrs_def num_of_def)

lemma view_none: "tree_ok s \<Longrightarrow> view_ok (s, None)"
  by (simp add: view_ok_def)

text \<open>The block being imported is new to the chain, so nothing in the tree descends from it.\<close>

lemma import_current:
  assumes ok: "in_mem_ok s" and f: "chain_forest (s, None) (roots t)" and x: "fits_head x s" "hd_hash x \<notin> dom (hdrs s)"
    and r: "\<not> reverts (hd_number x) t"
  shows "\<exists>rs. fork_import (client_isd (s, Some x)) (hd_hash x) (hd_number x) d t =
      (Inr (\<forall>e\<in>set (forest_entries (roots t)). \<not> view_desc (s, Some x) (fst e) (hd_hash x)), t\<lparr>roots := rs\<rparr>)
    \<and> chain_forest (s, Some x) rs
    \<and> mset (forest_entries rs) = add_mset (hd_hash x, hd_number x, d) (mset (forest_entries (roots t)))"
proof -
  have t: "tree_ok s" using ok by (simp add: in_mem_ok_def)
  have v: "view_ok (s, Some x)" using t x by (simp add: view_ok_def)
  define s' where "s' = s\<lparr>blocks := (blocks s)(hd_hash x \<mapsto> stored_new x None None)\<rparr>"
  have s': "genesis_hash s' = genesis_hash s" "hdrs s' = (hdrs s)(hd_hash x \<mapsto> x)"
    by (simp_all add: s'_def hdrs_def fun_eq_iff)
  have f2: "chain_forest (s, Some x) (roots t)" by (rule forest_grows(2) [OF t f s'(1) x s'(2)])
  have h: "hd_hash x \<in> view_known (s, Some x)" and n: "view_num (s, Some x) (hd_hash x) = hd_number x"
    by (simp_all add: view_known_def view_num_def view_hdrs_def num_of_def)
  have "fst e \<noteq> hd_hash x \<and> \<not> view_desc (s, Some x) (hd_hash x) (fst e)" if e: "e \<in> set (forest_entries (roots t))" for e
  proof -
    obtain y where y: "y \<in> set (roots t)" "e \<in> set (entries y)" using e unfolding in_forest_entries by blast
    have "fst e \<in> dom (hdrs s)" using node_ok_known [OF forest_ok_mem [OF f y(1)] y(2)] by (simp add: view_known_def view_hdrs_def)
    moreover have "(fst e, hd_hash x) \<notin> (up ((hdrs s)(hd_hash x \<mapsto> x)) (genesis_hash s))\<^sup>+"
      using tree_added(4) [OF t x, of "fst e" "hd_hash x"] up_trancl [OF tree_chain [OF t], of "fst e" "hd_hash x"] x(2) calculation by blast
    ultimately show ?thesis using x(2) by (auto simp: view_desc_def view_hdrs_def)
  qed
  then show ?thesis using chain_client.import_new [OF v f2 _ h, of d] r unfolding n by blast
qed

lemma fork_inv_step:
  assumes inv: "fork_inv c" and step: "fork_step c c'"
  shows "fork_inv c'"
  using step
proof cases
  case (chain s s' t)
  have ok: "in_mem_ok s" "in_mem_ok s'" and f: "chain_forest (s, None) (roots t)"
    using inv chain in_mem_step_ok by (auto simp: fork_inv_def)
  have tr: "tree_ok s" using ok by (simp add: in_mem_ok_def)
  have "chain_forest (s', None) (roots t)"
    using in_mem_step_hdrs [OF chain(3)]
  proof (elim conjE disjE exE)
    assume "genesis_hash s' = genesis_hash s" "hdrs s' = hdrs s"
    then have "view_known (s', None) = view_known (s, None)" "view_desc (s', None) = view_desc (s, None)"
      "view_num (s', None) = view_num (s, None)"
      by (simp_all add: view_known_def view_desc_def [abs_def] view_num_def view_hdrs_def)
    then show ?thesis using f by simp
  next
    fix x assume "genesis_hash s' = genesis_hash s" "fits_head x s" "hd_hash x \<notin> dom (hdrs s)" "hdrs s' = (hdrs s)(hd_hash x \<mapsto> x)"
    then show ?thesis by (rule forest_grows(1) [OF tr f])
  qed
  then show ?thesis using ok(2) by (simp add: fork_inv_def chain)
next
  case (import x s st d t r t' j b q s')
  have ok: "in_mem_ok s" and f: "chain_forest (s, None) (roots t)" using inv import by (auto simp: fork_inv_def)
  have tr: "tree_ok s" using ok by (simp add: in_mem_ok_def)
  obtain u where u: "chain_insert (hd_hash x) x j b st s = Some (Inr (), u)" "in_mem_ok u"
    using chain_insert_ok [OF ok import(3,4), of st j b] import(5) by blast
  then have ok': "in_mem_ok s'" using import(7) by simp
  have hd: "genesis_hash s' = genesis_hash s" "hdrs s' = (hdrs s)(hd_hash x \<mapsto> x)"
    using chain_insert_hdrs [OF u(1) import(3)] u(1) import(7) by simp_all
  note g = forest_grows [OF tr f hd(1) import(3,4) hd(2)]
  have "chain_forest (s, Some x) (roots t')"
  proof (cases "reverts (hd_number x) t")
    case True
    then show ?thesis using import(6) g(2) by (simp add: fork_import_def)
  next
    case False
    then obtain rs where "t' = t\<lparr>roots := rs\<rparr>" "chain_forest (s, Some x) rs"
      using import_current [OF ok f import(3,4), of d] unfolding import(6) prod.inject by blast
    then show ?thesis by simp
  qed
  then show ?thesis using ok' unfolding g(3-5) by (simp add: fork_inv_def import)
next
  case (finalize h s n t r t')
  have ok: "in_mem_ok s" and f: "chain_forest (s, None) (roots t)" using inv finalize by (auto simp: fork_inv_def)
  have v: "view_ok (s, None)" using ok by (simp add: in_mem_ok_def view_none)
  note h = number_known [OF finalize(3)]
  have "chain_forest (s, None) (roots t')"
  proof (cases "reverts n t")
    case True
    then show ?thesis using finalize(4) f by (simp add: fork_finalize_def)
  next
    case False
    note fin = chain_client.fork_finalize_ok [OF v h(1) f False [unfolded h(2)], folded h(2), unfolded finalize(4) prod.inject]
    show ?thesis
    proof (cases "\<exists>x\<in>set (roots t). view_desc (s, None) (nhash x) h")
      case True
      then show ?thesis using fin f by (simp only: if_True)
    next
      case False
      then show ?thesis using fin by (simp only: if_False) blast
    qed
  qed
  then show ?thesis using ok by (simp add: fork_inv_def finalize)
next
  case (finalize_ancestors h s n t q t')
  have ok: "in_mem_ok s" and f: "chain_forest (s, None) (roots t)" using inv finalize_ancestors by (auto simp: fork_inv_def)
  have v: "view_ok (s, None)" using ok by (simp add: in_mem_ok_def view_none)
  note h = number_known [OF finalize_ancestors(3)]
  have "chain_forest (s, None) (roots t')"
  proof (cases "reverts n t")
    case True
    then show ?thesis using finalize_ancestors(4) f by (simp add: finalize_with_ancestors_def)
  next
    case False
    from chain_client.finalize_with_ancestors_ok [OF v h(1) f False [unfolded h(2)], folded h(2), unfolded finalize_ancestors(4)]
    show ?thesis unfolding option.inject prod.inject by blast
  qed
  then show ?thesis using ok by (simp add: fork_inv_def finalize_ancestors)
next
  case (finalize_descendent h s n p t r t')
  then show ?thesis using inv finalize_with_descendent_ok [OF _ finalize_descendent(4)] by (auto simp: fork_inv_def)
next
  case (prune h s n p t u t')
  have ok: "in_mem_ok s" and f: "chain_forest (s, None) (roots t)" using inv prune by (auto simp: fork_inv_def)
  have "view_ok (s, None)" using ok by (simp add: in_mem_ok_def view_none)
  from prune_ok [OF f chain_client.desc_irrefl [OF this] prune(4)] show ?thesis using ok by (simp add: fork_inv_def prune)
qed

lemma fork_inv_init: "fork_init c \<Longrightarrow> fork_inv c"
  using in_mem_init_ok by (auto simp: fork_init_def fork_inv_def fork_tree_new_def)

interpretation fork_states: guarded_system fork_init fork_step fork_inv
  by unfold_locales (use fork_inv_init fork_inv_step in blast)+

section \<open>Properties\<close>

lemma fork_reachable:
  assumes "fork_init c" and "fork_step\<^sup>*\<^sup>* c (s, t)"
  shows "in_mem_ok s" and "tree_ok s" and "chain_forest (s, None) (roots t)"
  using fork_states.inv_reachable [OF assms] by (simp_all add: fork_inv_def in_mem_ok_def)

text \<open>
  C3 (fork_tree_follows_chain): after any history of a chain with a fork tree, every node of the tree is a
  block of the chain with its number, the blocks below a node descend from it, and siblings are
  different and unrelated, so that every block hangs below its closest stored ancestor.
\<close>

theorem fork_tree_follows_chain:
  assumes "fork_init c" and "fork_step\<^sup>*\<^sup>* c (s, t)"
  shows "forest_ok (view_known (s, None)) (view_desc (s, None)) (view_num (s, None)) (roots t)"
  by (rule fork_reachable(3) [OF assms])

text \<open>
  C12 (fork_import_places): a new block enters the tree with its number and data, and all other nodes stay; it
  becomes a root exactly when none of its ancestors is stored.  The import is refused exactly at
  or below the best finalised number, and then changes nothing.
\<close>

theorem fork_import_places:
  assumes "fork_init c" and "fork_step\<^sup>*\<^sup>* c (s, t)" and "fits_head x s" and "hd_hash x \<notin> dom (hdrs s)"
  shows "case fork_import (client_isd (s, Some x)) (hd_hash x) (hd_number x) d t of
      (Inl e, t') \<Rightarrow> reverts (hd_number x) t \<and> e = Revert \<and> t' = t
    | (Inr root, t') \<Rightarrow> \<not> reverts (hd_number x) t
        \<and> (root \<longleftrightarrow> (\<forall>e\<in>set (forest_entries (roots t)). \<not> view_desc (s, Some x) (fst e) (hd_hash x)))
        \<and> forest_ok (view_known (s, Some x)) (view_desc (s, Some x)) (view_num (s, Some x)) (roots t')
        \<and> mset (forest_entries (roots t')) = add_mset (hd_hash x, hd_number x, d) (mset (forest_entries (roots t)))
        \<and> best_finalized_number t' = best_finalized_number t"
proof (cases "reverts (hd_number x) t")
  case True
  then show ?thesis by (simp add: fork_import_def)
next
  case False
  obtain rs where rs: "fork_import (client_isd (s, Some x)) (hd_hash x) (hd_number x) d t =
      (Inr (\<forall>e\<in>set (forest_entries (roots t)). \<not> view_desc (s, Some x) (fst e) (hd_hash x)), t\<lparr>roots := rs\<rparr>)"
    "chain_forest (s, Some x) rs"
    "mset (forest_entries rs) = add_mset (hd_hash x, hd_number x, d) (mset (forest_entries (roots t)))"
    using import_current [OF fork_reachable(1,3) [OF assms(1,2)] assms(3,4) False, of d] by blast
  show ?thesis unfolding rs(1) using rs(2,3) False by simp
qed

text \<open>
  C29 (fork_find_deepest): the search gives the deepest stored ancestor of a block whose data pass the
  predicate, and nothing only when there is none.
\<close>

theorem fork_find_deepest:
  assumes "fork_init c" and "fork_step\<^sup>*\<^sup>* c (s, t)" and "number_of h s = Some n"
  shows "\<exists>r. find_node_where (client_isd (s, None)) h n p t = Inr r
    \<and> (case r of None \<Rightarrow> candidates (view_desc (s, None)) h p (forest_entries (roots t)) = {}
       | Some y \<Rightarrow> deepest (view_desc (s, None)) (candidates (view_desc (s, None)) h p (forest_entries (roots t))) (entry y))"
  using chain_client.find_deepest [OF view_none [OF fork_reachable(2) [OF assms(1,2)]] number_known(1) [OF assms(3)] fork_reachable(3) [OF assms(1,2)]]
  unfolding number_known(2) [OF assms(3)] .

text \<open>
  C30 (finalize_with_ancestors_prunes): finalising a block above the best finalised one ends without a panic;
  exactly the descendants of the block stay in the tree, and the data of the block are returned
  when it was stored.
\<close>

theorem finalize_with_ancestors_prunes:
  assumes "fork_init c" and "fork_step\<^sup>*\<^sup>* c (s, t)" and "number_of h s = Some n" and "\<not> reverts n t"
  shows "\<exists>r t'. finalize_with_ancestors (client_isd (s, None)) h n t = Some (Inr r, t')
    \<and> forest_ok (view_known (s, None)) (view_desc (s, None)) (view_num (s, None)) (roots t')
    \<and> finalized_tree (view_desc (s, None)) h n t t' \<and> finalized_value (view_desc (s, None)) h n t r"
proof -
  note h = number_known [OF assms(3)]
  show ?thesis
    using chain_client.finalize_with_ancestors_ok [OF view_none [OF fork_reachable(2) [OF assms(1,2)]] h(1) fork_reachable(3) [OF assms(1,2)]]
      assms(4) unfolding h(2) by blast
qed

text \<open>
  C31 (finalize_in_order): plain finalisation refuses a block with a stored proper ancestor and changes
  nothing then; otherwise exactly the descendants of the block stay.
\<close>

theorem finalize_in_order:
  assumes "fork_init c" and "fork_step\<^sup>*\<^sup>* c (s, t)" and "number_of h s = Some n" and "\<not> reverts n t"
  shows "if \<exists>x\<in>set (roots t). view_desc (s, None) (nhash x) h
    then fork_finalize (client_isd (s, None)) h n t = (Inl UnfinalizedAncestor, t)
    else \<exists>r t'. fork_finalize (client_isd (s, None)) h n t = (Inr r, t')
      \<and> forest_ok (view_known (s, None)) (view_desc (s, None)) (view_num (s, None)) (roots t')
      \<and> finalized_tree (view_desc (s, None)) h n t t' \<and> finalized_value (view_desc (s, None)) h n t r"
proof -
  note h = number_known [OF assms(3)]
  show ?thesis
    using chain_client.fork_finalize_ok [OF view_none [OF fork_reachable(2) [OF assms(1,2)]] h(1) fork_reachable(3) [OF assms(1,2)]]
      assms(4) unfolding h(2) by blast
qed

section \<open>A sample\<close>

text \<open>Block 2 of the sample chain is in the tree.\<close>

definition sample_tree :: "(nat, u32, nat) fork_tree" where
  "sample_tree = \<lparr>roots = [Node 2 1 20 []], best_finalized_number = None\<rparr>"

lemma sample_fork_init: "fork_init (sample1, fork_tree_new :: (nat, u32, nat) fork_tree)"
  by (simp add: fork_init_def sample_init)

lemma sample_fork3: "fork_step\<^sup>*\<^sup>* (sample1, fork_tree_new) (sample3, sample_tree)"
proof -
  let ?s = "grow (block 2 1 1) BestBlock sample1"
  have "fork_step (sample1, fork_tree_new) (?s, sample_tree)"
  proof (rule fork_step.import [where x = "block 2 1 1" and d = 20 and st = BestBlock and r = "Inr True"])
    show "fits_head (block 2 1 1) sample1" by (simp add: fits_head_def sample1_simps num_of_def)
    show "hd_hash (block 2 1 1) \<notin> dom (hdrs sample1)" by (simp add: sample1_simps)
    show "is_best BestBlock \<longrightarrow> no_shorter_fork (block 2 1 1) sample1" by (simp add: no_shorter_fork_def sample1_simps)
    show "fork_import (client_isd (sample1, Some (block 2 1 1))) (hd_hash (block 2 1 1)) (hd_number (block 2 1 1)) 20 fork_tree_new
        = (Inr True, sample_tree)" by (simp add: fork_import_def fork_tree_new_def reverts_def sample_tree_def)
    show "chain_insert (hd_hash (block 2 1 1)) (block 2 1 1) None None BestBlock sample1 = Some (Inr (), ?s)"
      by (rule grow_best(1)) (simp add: sample1_simps)
  qed
  moreover have "fork_step (?s, sample_tree) (sample3, sample_tree)"
    unfolding sample3_def
    by (rule fork_step.chain, rule grow_step) (simp_all add: grow_best sample1_simps fits_head_def num_of_def)
  ultimately show ?thesis by (meson rtranclp.rtrancl_refl rtranclp.rtrancl_into_rtrancl)
qed

lemma sample_number: "number_of 3 sample3 = Some 2" "number_of 2 sample3 = Some 1"
  using fun_cong [OF sample3_simps(1), of 3] fun_cong [OF sample3_simps(1), of 2] by (auto simp: hdrs_def number_of_def)

lemma sample_desc: "view_desc (sample3, None) 2 3" "\<not> view_desc (sample3, None) 2 2"
proof -
  have "(3, 2) \<in> up (hdrs sample3) (genesis_hash sample3)" by (simp add: up_def sample3_simps)
  then show "view_desc (sample3, None) 2 3" by (auto simp: view_desc_def view_hdrs_def)
  have "tree_ok sample3" by (rule reachable_tree [OF sample_init sample3_reachable])
  then show "\<not> view_desc (sample3, None) 2 2"
    by (rule chain_client.desc_irrefl [OF view_none number_known(1) [OF sample_number(2)]])
qed

theorem fork_tree_follows_chain_witness:
  "fork_init (sample1, fork_tree_new :: (nat, u32, nat) fork_tree)
    \<and> fork_step\<^sup>*\<^sup>* (sample1, fork_tree_new) (sample3, sample_tree) \<and> view_num (sample3, None) 2 = 1"
proof -
  have "node_ok (view_known (sample3, None)) (view_desc (sample3, None)) (view_num (sample3, None)) (Node 2 1 (20 :: nat) [])"
    using fork_tree_follows_chain [OF sample_fork_init sample_fork3] by (simp add: sample_tree_def forest_ok_def)
  then show ?thesis using sample_fork_init sample_fork3 by simp
qed

theorem fork_import_places_witness:
  "fork_init (sample1, fork_tree_new :: (nat, u32, nat) fork_tree)
    \<and> fork_step\<^sup>*\<^sup>* (sample1, fork_tree_new) (sample3, sample_tree)
    \<and> (\<exists>root t'. fork_import (client_isd (sample3, Some (block 4 1 1))) 4 1 40 sample_tree = (Inr root, t')
         \<and> set (forest_entries (roots t')) = {(4, 1, 40), (2, 1, 20)})"
proof -
  have x: "fits_head (block 4 1 1) sample3" "hd_hash (block 4 1 1) \<notin> dom (hdrs sample3)"
    by (simp_all add: fits_head_def sample3_simps num_of_def)
  have nr: "\<not> reverts 1 sample_tree" by (simp add: reverts_def sample_tree_def)
  obtain q t' where q: "fork_import (client_isd (sample3, Some (block 4 1 1))) 4 1 40 sample_tree = (q, t')" by fastforce
  show ?thesis
  proof (cases q)
    case (Inl e)
    then show ?thesis using fork_import_places [OF sample_fork_init sample_fork3 x, of 40] q nr by simp
  next
    case (Inr root)
    then have "mset (forest_entries (roots t')) = add_mset (4, 1, 40) (mset (forest_entries (roots sample_tree)))"
      using fork_import_places [OF sample_fork_init sample_fork3 x, of 40] q by simp
    then have "set (forest_entries (roots t')) = insert (4, 1, 40) (set (forest_entries (roots sample_tree)))"
      by (metis set_mset_add_mset_insert set_mset_mset)
    then show ?thesis using q Inr sample_fork_init sample_fork3 by (auto simp: sample_tree_def forest_entries_def)
  qed
qed

theorem fork_find_deepest_witness:
  "fork_init (sample1, fork_tree_new :: (nat, u32, nat) fork_tree)
    \<and> fork_step\<^sup>*\<^sup>* (sample1, fork_tree_new) (sample3, sample_tree)
    \<and> (\<exists>y. find_node_where (client_isd (sample3, None)) 3 2 (\<lambda>_. True) sample_tree = Inr (Some y) \<and> nhash y = 2)"
proof -
  obtain r where r: "find_node_where (client_isd (sample3, None)) 3 2 (\<lambda>_. True) sample_tree = Inr r"
    "case r of None \<Rightarrow> candidates (view_desc (sample3, None)) 3 (\<lambda>_. True) (forest_entries (roots sample_tree)) = {}
       | Some y \<Rightarrow> deepest (view_desc (sample3, None))
           (candidates (view_desc (sample3, None)) 3 (\<lambda>_. True) (forest_entries (roots sample_tree))) (entry y)"
    using fork_find_deepest [OF sample_fork_init sample_fork3 sample_number(1), of "\<lambda>_. True"] by blast
  have c: "candidates (view_desc (sample3, None)) 3 (\<lambda>_. True) (forest_entries (roots sample_tree)) = {(2, 1, 20)}"
    using sample_desc(1) by (auto simp: candidates_def sample_tree_def forest_entries_def)
  show ?thesis using r sample_fork_init sample_fork3 unfolding c by (auto simp: deepest_def entry_def split: option.splits)
qed

theorem finalize_with_ancestors_prunes_witness:
  "fork_init (sample1, fork_tree_new :: (nat, u32, nat) fork_tree)
    \<and> fork_step\<^sup>*\<^sup>* (sample1, fork_tree_new) (sample3, sample_tree)
    \<and> (\<exists>r t'. finalize_with_ancestors (client_isd (sample3, None)) 3 2 sample_tree = Some (Inr r, t') \<and> best_finalized_number t' = Some 2)"
proof -
  have "\<not> reverts 2 sample_tree" by (simp add: reverts_def sample_tree_def)
  from finalize_with_ancestors_prunes [OF sample_fork_init sample_fork3 sample_number(1) this]
  show ?thesis using sample_fork_init sample_fork3 by (auto simp: finalized_tree_def)
qed

theorem finalize_in_order_witness:
  "fork_init (sample1, fork_tree_new :: (nat, u32, nat) fork_tree)
    \<and> fork_step\<^sup>*\<^sup>* (sample1, fork_tree_new) (sample3, sample_tree)
    \<and> fork_finalize (client_isd (sample3, None)) 3 2 sample_tree = (Inl UnfinalizedAncestor, sample_tree)
    \<and> (\<exists>r t'. fork_finalize (client_isd (sample3, None)) 2 1 sample_tree = (Inr r, t'))"
proof -
  have nr: "\<not> reverts 2 sample_tree" "\<not> reverts 1 sample_tree" by (simp_all add: reverts_def sample_tree_def)
  have "\<exists>x\<in>set (roots sample_tree). view_desc (sample3, None) (nhash x) 3"
    "\<not> (\<exists>x\<in>set (roots sample_tree). view_desc (sample3, None) (nhash x) 2)"
    using sample_desc by (simp_all add: sample_tree_def)
  then show ?thesis
    using finalize_in_order [OF sample_fork_init sample_fork3 sample_number(1) nr(1)]
      finalize_in_order [OF sample_fork_init sample_fork3 sample_number(2) nr(2)] sample_fork_init sample_fork3
    by (simp only: if_True if_False) blast
qed

end
