(* ===== verification/Overlayed_Changes.thy ===== *)
theory Overlayed_Changes
  imports Substrate_Prelude "HOL-Library.RBT" "HOL-Library.List_Lexorder"
begin

text \<open>
  Changes to the state that a runtime call collects over a backend
  (\<open>primitives/state-machine/src/overlayed_changes.rs\<close>), with the child information of
  \<open>primitives/storage/src/lib.rs\<close>.  A \<open>BTreeMap\<close> is a red-black tree of the library: its entries are
  sorted by key, and byte strings compare lexicographically.  A \<open>HashMap\<close> is one too; the
  source iterates over hash maps only where the order does not matter.  \<open>debug_assert\<close> is left out, as
  in a release build, and \<open>dec\<close> is the codec of the extrinsic index.
\<close>

section \<open>Sorted maps\<close>

type_synonym 'v btree = "(bytes, 'v) rbt"

definition starts_with :: "bytes \<Rightarrow> bytes \<Rightarrow> bool" where
  "starts_with prefix key \<longleftrightarrow> take (length prefix) key = prefix"

text \<open>\<open>range((Excluded(key), Unbounded)).next()\<close>.\<close>

definition next_entry :: "bytes \<Rightarrow> 'v btree \<Rightarrow> (bytes \<times> 'v) option" where
  "next_entry key t = find (\<lambda>e. key < fst e) (RBT.entries t)"

section \<open>Child information\<close>

datatype owned_child_info = DefaultChild bytes

definition ascii :: "string \<Rightarrow> bytes" where
  "ascii = map (\<lambda>c. word_of_nat (of_char c))"

definition extrinsic_index_key :: bytes where
  "extrinsic_index_key = ascii '':extrinsic_index''"

definition child_storage_key_prefix :: bytes where
  "child_storage_key_prefix = ascii '':child_storage:''"

definition is_child_storage_key :: "bytes \<Rightarrow> bool" where
  "is_child_storage_key key = starts_with child_storage_key_prefix key"

definition is_child_trie_key_valid :: "bytes \<Rightarrow> bool" where
  "is_child_trie_key_valid key = starts_with (ascii '':child_storage:default:'') key"

section \<open>Data\<close>

record overlayed_value =
  ov_value :: "bytes option"
  ov_extrinsics :: "u32 set option"

definition overlayed_value_default :: overlayed_value where
  "overlayed_value_default = \<lparr>ov_value = None, ov_extrinsics = None\<rparr>"

record overlayed_change_set =
  ocs_top :: "overlayed_value btree"
  ocs_children :: "(overlayed_value btree \<times> owned_child_info) btree"

record 'c overlayed_changes =
  prospective :: overlayed_change_set
  committed :: overlayed_change_set
  changes_trie_config :: "'c option"

definition change_set_empty :: overlayed_change_set where
  "change_set_empty = \<lparr>ocs_top = RBT.empty, ocs_children = RBT.empty\<rparr>"

definition change_set_is_empty :: "overlayed_change_set \<Rightarrow> bool" where
  "change_set_is_empty c \<longleftrightarrow> RBT.is_empty (ocs_top c) \<and> RBT.is_empty (ocs_children c)"

definition change_set_clear :: "overlayed_change_set \<Rightarrow> overlayed_change_set" where
  "change_set_clear c = c\<lparr>ocs_top := RBT.empty, ocs_children := RBT.empty\<rparr>"

definition overlay_is_empty :: "'c overlayed_changes \<Rightarrow> bool" where
  "overlay_is_empty o' \<longleftrightarrow> change_set_is_empty (prospective o') \<and> change_set_is_empty (committed o')"

definition set_changes_trie_config :: "'c \<Rightarrow> 'c overlayed_changes \<Rightarrow> bool \<times> 'c overlayed_changes" where
  "set_changes_trie_config config ov =
     (case changes_trie_config ov of
        Some old_config \<Rightarrow> if old_config \<noteq> config then (False, ov) else (True, ov\<lparr>changes_trie_config := Some config\<rparr>)
      | None \<Rightarrow> (True, ov\<lparr>changes_trie_config := Some config\<rparr>))"

section \<open>Reading\<close>

definition overlay_storage :: "'c overlayed_changes \<Rightarrow> bytes \<Rightarrow> bytes option option" where
  "overlay_storage ov key =
     map_option ov_value (case RBT.lookup (ocs_top (prospective ov)) key of
        Some x \<Rightarrow> Some x
      | None \<Rightarrow> RBT.lookup (ocs_top (committed ov)) key)"

definition child_value :: "overlayed_change_set \<Rightarrow> bytes \<Rightarrow> bytes \<Rightarrow> overlayed_value option" where
  "child_value c storage_key key =
     (case RBT.lookup (ocs_children c) storage_key of
        None \<Rightarrow> None
      | Some (m, _) \<Rightarrow> RBT.lookup m key)"

definition overlay_child_storage :: "'c overlayed_changes \<Rightarrow> bytes \<Rightarrow> bytes \<Rightarrow> bytes option option" where
  "overlay_child_storage ov storage_key key =
     (case child_value (prospective ov) storage_key key of
        Some val \<Rightarrow> Some (ov_value val)
      | None \<Rightarrow>
          (case child_value (committed ov) storage_key key of
             Some val \<Rightarrow> Some (ov_value val)
           | None \<Rightarrow> None))"

definition no_extrinsic_index :: u32 where
  "no_extrinsic_index = 0xffffffff"

definition extrinsic_index :: "(bytes \<Rightarrow> u32 option) \<Rightarrow> 'c overlayed_changes \<Rightarrow> u32 option" where
  "extrinsic_index dec ov =
     (if changes_trie_config ov \<noteq> None
      then Some (case overlay_storage ov extrinsic_index_key of
                   Some (Some idx) \<Rightarrow> (case dec idx of Some i \<Rightarrow> i | None \<Rightarrow> no_extrinsic_index)
                 | _ \<Rightarrow> no_extrinsic_index)
      else None)"

definition overlay_child_info :: "'c overlayed_changes \<Rightarrow> bytes \<Rightarrow> owned_child_info option" where
  "overlay_child_info ov storage_key =
     (case RBT.lookup (ocs_children (prospective ov)) storage_key of
        Some (_, ci) \<Rightarrow> Some ci
      | None \<Rightarrow>
          (case RBT.lookup (ocs_children (committed ov)) storage_key of
             Some (_, ci) \<Rightarrow> Some ci
           | None \<Rightarrow> None))"

text \<open>The merge of the two next keys, the same for the top level and for a child.\<close>

definition next_change ::
  "(bytes \<times> overlayed_value) option \<Rightarrow> (bytes \<times> overlayed_value) option \<Rightarrow> (bytes \<times> overlayed_value) option" where
  "next_change next_committed_key next_prospective_key =
     (case (next_committed_key, next_prospective_key) of
        (Some c, Some p) \<Rightarrow> if fst c < fst p then Some c else Some p
      | (c, None) \<Rightarrow> c
      | (_, p) \<Rightarrow> p)"

definition next_storage_key_change :: "'c overlayed_changes \<Rightarrow> bytes \<Rightarrow> (bytes \<times> overlayed_value) option" where
  "next_storage_key_change ov key =
     next_change (next_entry key (ocs_top (committed ov))) (next_entry key (ocs_top (prospective ov)))"

definition next_child_entry :: "overlayed_change_set \<Rightarrow> bytes \<Rightarrow> bytes \<Rightarrow> (bytes \<times> overlayed_value) option" where
  "next_child_entry c storage_key key =
     (case RBT.lookup (ocs_children c) storage_key of
        None \<Rightarrow> None
      | Some (m, _) \<Rightarrow> next_entry key m)"

definition next_child_storage_key_change ::
  "'c overlayed_changes \<Rightarrow> bytes \<Rightarrow> bytes \<Rightarrow> (bytes \<times> overlayed_value) option" where
  "next_child_storage_key_change ov storage_key key =
     next_change (next_child_entry (committed ov) storage_key key) (next_child_entry (prospective ov) storage_key key)"

section \<open>Writing\<close>

definition mark_extrinsic :: "u32 option \<Rightarrow> overlayed_value \<Rightarrow> overlayed_value" where
  "mark_extrinsic idx e =
     (case idx of
        None \<Rightarrow> e
      | Some i \<Rightarrow> e\<lparr>ov_extrinsics := Some (insert i (case ov_extrinsics e of None \<Rightarrow> {} | Some s \<Rightarrow> s))\<rparr>)"

text \<open>\<open>entry(key).or_default()\<close>, then the new value and the mark.\<close>

definition set_entry :: "u32 option \<Rightarrow> bytes \<Rightarrow> bytes option \<Rightarrow> overlayed_value btree \<Rightarrow> overlayed_value btree" where
  "set_entry idx key val t =
     (let e = (case RBT.lookup t key of Some e \<Rightarrow> e | None \<Rightarrow> overlayed_value_default)
      in RBT.insert key (mark_extrinsic idx (e\<lparr>ov_value := val\<rparr>)) t)"

definition overlay_put ::
  "(bytes \<Rightarrow> u32 option) \<Rightarrow> bytes \<Rightarrow> bytes option \<Rightarrow> 'c overlayed_changes \<Rightarrow> 'c overlayed_changes" where
  "overlay_put dec key val ov =
     (let idx = extrinsic_index dec ov; p = prospective ov
      in ov\<lparr>prospective := p\<lparr>ocs_top := set_entry idx key val (ocs_top p)\<rparr>\<rparr>)"

text \<open>The prospective map of a child, created with the given information when it is new.\<close>

definition child_entry :: "bytes \<Rightarrow> owned_child_info \<Rightarrow> overlayed_change_set \<Rightarrow> overlayed_value btree \<times> owned_child_info" where
  "child_entry storage_key ci c =
     (case RBT.lookup (ocs_children c) storage_key of Some e \<Rightarrow> e | None \<Rightarrow> (RBT.empty, ci))"

definition set_child_storage ::
  "(bytes \<Rightarrow> u32 option) \<Rightarrow> bytes \<Rightarrow> owned_child_info \<Rightarrow> bytes \<Rightarrow> bytes option \<Rightarrow> 'c overlayed_changes
    \<Rightarrow> 'c overlayed_changes" where
  "set_child_storage dec storage_key ci key val ov =
     (let idx = extrinsic_index dec ov; p = prospective ov;
          (m, info) = child_entry storage_key ci p
      in ov\<lparr>prospective := p\<lparr>ocs_children := RBT.insert storage_key (set_entry idx key val m, info) (ocs_children p)\<rparr>\<rparr>)"

definition clear_child_storage ::
  "(bytes \<Rightarrow> u32 option) \<Rightarrow> bytes \<Rightarrow> owned_child_info \<Rightarrow> 'c overlayed_changes \<Rightarrow> 'c overlayed_changes" where
  "clear_child_storage dec storage_key ci ov =
     (let idx = extrinsic_index dec ov; p = prospective ov;
          (m, info) = child_entry storage_key ci p;
          m1 = RBT.map (\<lambda>_ e. (mark_extrinsic idx e)\<lparr>ov_value := None\<rparr>) m;
          m2 = (case RBT.lookup (ocs_children (committed ov)) storage_key of
                  None \<Rightarrow> m1
                | Some (committed_map, _) \<Rightarrow>
                    fold (\<lambda>(key, val) m.
                        if RBT.lookup m key = None
                        then RBT.insert key \<lparr>ov_value = None, ov_extrinsics =
                               map_option (\<lambda>i. insert i (case ov_extrinsics val of None \<Rightarrow> {} | Some s \<Rightarrow> s)) idx\<rparr> m
                        else m) (RBT.entries committed_map) m1)
      in ov\<lparr>prospective := p\<lparr>ocs_children := RBT.insert storage_key (m2, info) (ocs_children p)\<rparr>\<rparr>)"

text \<open>
  Both loops of the prefix operations: over the prospective entries, then over the committed keys.
\<close>

definition clear_prefix_in ::
  "u32 option \<Rightarrow> bytes \<Rightarrow> overlayed_value btree \<Rightarrow> overlayed_value btree \<Rightarrow> overlayed_value btree" where
  "clear_prefix_in idx prefix committed_map m =
     fold (\<lambda>key m. if starts_with prefix key then set_entry idx key None m else m) (RBT.keys committed_map)
       (RBT.map (\<lambda>key e. if starts_with prefix key then mark_extrinsic idx (e\<lparr>ov_value := None\<rparr>) else e) m)"

definition overlay_clear_prefix ::
  "(bytes \<Rightarrow> u32 option) \<Rightarrow> bytes \<Rightarrow> 'c overlayed_changes \<Rightarrow> 'c overlayed_changes" where
  "overlay_clear_prefix dec prefix ov =
     (let idx = extrinsic_index dec ov; p = prospective ov
      in ov\<lparr>prospective := p\<lparr>ocs_top := clear_prefix_in idx prefix (ocs_top (committed ov)) (ocs_top p)\<rparr>\<rparr>)"

definition overlay_clear_child_prefix ::
  "(bytes \<Rightarrow> u32 option) \<Rightarrow> bytes \<Rightarrow> owned_child_info \<Rightarrow> bytes \<Rightarrow> 'c overlayed_changes \<Rightarrow> 'c overlayed_changes" where
  "overlay_clear_child_prefix dec storage_key ci prefix ov =
     (let idx = extrinsic_index dec ov; p = prospective ov;
          (m, info) = child_entry storage_key ci p;
          child_committed = (case RBT.lookup (ocs_children (committed ov)) storage_key of
                               None \<Rightarrow> RBT.empty | Some (c, _) \<Rightarrow> c)
      in ov\<lparr>prospective := p\<lparr>ocs_children :=
            RBT.insert storage_key (clear_prefix_in idx prefix child_committed m, info) (ocs_children p)\<rparr>\<rparr>)"

section \<open>Transactions\<close>

definition discard_prospective :: "'c overlayed_changes \<Rightarrow> 'c overlayed_changes" where
  "discard_prospective ov = ov\<lparr>prospective := change_set_clear (prospective ov)\<rparr>"

definition commit_value :: "overlayed_value \<Rightarrow> overlayed_value \<Rightarrow> overlayed_value" where
  "commit_value val e =
     (case ov_extrinsics val of
        None \<Rightarrow> e\<lparr>ov_value := ov_value val\<rparr>
      | Some s \<Rightarrow> e\<lparr>ov_value := ov_value val,
                     ov_extrinsics := Some ((case ov_extrinsics e of None \<Rightarrow> {} | Some s' \<Rightarrow> s') \<union> s)\<rparr>)"

definition commit_map :: "overlayed_value btree \<Rightarrow> overlayed_value btree \<Rightarrow> overlayed_value btree" where
  "commit_map from into =
     fold (\<lambda>(key, val) m.
         RBT.insert key (commit_value val (case RBT.lookup m key of Some e \<Rightarrow> e | None \<Rightarrow> overlayed_value_default)) m)
       (RBT.entries from) into"

definition commit_prospective :: "'c overlayed_changes \<Rightarrow> 'c overlayed_changes" where
  "commit_prospective ov =
     (if change_set_is_empty (committed ov)
      then ov\<lparr>prospective := committed ov, committed := prospective ov\<rparr>
      else let p = prospective ov; c = committed ov;
               top' = commit_map (ocs_top p) (ocs_top c);
               children' = fold (\<lambda>(storage_key, m, child_info) cs.
                   let (cm, info) = (case RBT.lookup cs storage_key of Some e \<Rightarrow> e | None \<Rightarrow> (RBT.empty, child_info))
                   in RBT.insert storage_key (commit_map m cm, info) cs) (RBT.entries (ocs_children p)) (ocs_children c)
           in ov\<lparr>prospective := change_set_empty, committed := c\<lparr>ocs_top := top', ocs_children := children'\<rparr>\<rparr>)"

text \<open>\<open>None\<close> is the failed assertion that nothing is prospective.\<close>

definition into_committed ::
  "'c overlayed_changes \<Rightarrow> ((bytes \<times> bytes option) list \<times> (bytes \<times> (bytes \<times> bytes option) list \<times> owned_child_info) list) option" where
  "into_committed ov =
     (if change_set_is_empty (prospective ov)
      then Some (map (\<lambda>(k, v). (k, ov_value v)) (RBT.entries (ocs_top (committed ov))),
                 map (\<lambda>(sk, m, ci). (sk, map (\<lambda>(k, v). (k, ov_value v)) (RBT.entries m), ci))
                   (RBT.entries (ocs_children (committed ov))))
      else None)"

end
