(* ===== verification/State_Backend.thy ===== *)
theory State_Backend
  imports Overlayed_Changes Raw_Storage
begin

text \<open>
  The in-memory backend of the state (\<open>primitives/state-machine/src/backend.rs\<close>).  Building tries and
  hashing is the work of other packages: it is a record of functions, and the root of a trie is a
  function of its contents.  The conversion to a trie backend is left out.
\<close>

record 'h hashing =
  hash_value :: "bytes \<Rightarrow> 'h"
  trie_root :: "raw_storage \<Rightarrow> 'h"
  child_trie_root :: "bytes \<Rightarrow> raw_storage \<Rightarrow> 'h"
  default_child_trie_root :: "bytes \<Rightarrow> 'h"
  enc_hash :: "'h \<Rightarrow> bytes"
  dec_hash :: "bytes \<Rightarrow> 'h option"
  dec_index :: "bytes \<Rightarrow> u32 option"

section \<open>The in-memory backend\<close>

type_synonym child_id = "(bytes \<times> owned_child_info) option"
type_synonym in_memory = "child_id \<rightharpoonup> bytes btree"
type_synonym delta = "(bytes \<times> bytes option) list"
type_synonym transaction = "(child_id \<times> delta) list"

definition backend_map :: "in_memory \<Rightarrow> child_id \<Rightarrow> bytes btree" where
  "backend_map b i = (case b i of None \<Rightarrow> RBT.empty | Some m \<Rightarrow> m)"

definition apply_change :: "bytes \<times> bytes option \<Rightarrow> bytes btree \<Rightarrow> bytes btree" where
  "apply_change kv m = (case snd kv of Some v \<Rightarrow> RBT.insert (fst kv) v m | None \<Rightarrow> RBT.delete (fst kv) m)"

definition in_memory_update :: "transaction \<Rightarrow> in_memory \<Rightarrow> in_memory" where
  "in_memory_update changes b =
     fold (\<lambda>(child_info, key_values) inner. inner(child_info \<mapsto> fold apply_change key_values (backend_map inner child_info)))
       changes b"

definition backend_storage :: "in_memory \<Rightarrow> bytes \<Rightarrow> bytes option" where
  "backend_storage b key = (case b None of None \<Rightarrow> None | Some m \<Rightarrow> RBT.lookup m key)"

definition backend_storage_hash :: "'h hashing \<Rightarrow> in_memory \<Rightarrow> bytes \<Rightarrow> 'h option" where
  "backend_storage_hash H b key = map_option (hash_value H) (backend_storage b key)"

definition backend_child_storage :: "in_memory \<Rightarrow> bytes \<Rightarrow> owned_child_info \<Rightarrow> bytes \<Rightarrow> bytes option" where
  "backend_child_storage b storage_key ci key =
     (case b (Some (storage_key, ci)) of None \<Rightarrow> None | Some m \<Rightarrow> RBT.lookup m key)"

definition backend_child_storage_hash :: "'h hashing \<Rightarrow> in_memory \<Rightarrow> bytes \<Rightarrow> owned_child_info \<Rightarrow> bytes \<Rightarrow> 'h option" where
  "backend_child_storage_hash H b storage_key ci key =
     map_option (hash_value H) (backend_child_storage b storage_key ci key)"

definition backend_exists_storage :: "in_memory \<Rightarrow> bytes \<Rightarrow> bool" where
  "backend_exists_storage b key = (case b None of None \<Rightarrow> False | Some m \<Rightarrow> RBT.lookup m key \<noteq> None)"

definition backend_exists_child_storage :: "in_memory \<Rightarrow> bytes \<Rightarrow> owned_child_info \<Rightarrow> bytes \<Rightarrow> bool" where
  "backend_exists_child_storage b storage_key ci key \<longleftrightarrow> backend_child_storage b storage_key ci key \<noteq> None"

definition backend_next_storage_key :: "in_memory \<Rightarrow> bytes \<Rightarrow> bytes option" where
  "backend_next_storage_key b key = (case b None of None \<Rightarrow> None | Some m \<Rightarrow> map_option fst (next_entry key m))"

definition backend_next_child_storage_key :: "in_memory \<Rightarrow> bytes \<Rightarrow> owned_child_info \<Rightarrow> bytes \<Rightarrow> bytes option" where
  "backend_next_child_storage_key b storage_key ci key =
     (case b (Some (storage_key, ci)) of None \<Rightarrow> None | Some m \<Rightarrow> map_option fst (next_entry key m))"

text \<open>The keys for which the iterators of the backend call their argument, in order.\<close>

definition backend_keys_with_prefix :: "in_memory \<Rightarrow> bytes \<Rightarrow> bytes list" where
  "backend_keys_with_prefix b prefix = filter (starts_with prefix) (RBT.keys (backend_map b None))"

definition backend_keys_in_child :: "in_memory \<Rightarrow> bytes \<Rightarrow> owned_child_info \<Rightarrow> bytes list" where
  "backend_keys_in_child b storage_key ci = RBT.keys (backend_map b (Some (storage_key, ci)))"

definition backend_child_keys_with_prefix :: "in_memory \<Rightarrow> bytes \<Rightarrow> owned_child_info \<Rightarrow> bytes \<Rightarrow> bytes list" where
  "backend_child_keys_with_prefix b storage_key ci prefix =
     filter (starts_with prefix) (RBT.keys (backend_map b (Some (storage_key, ci))))"

definition backend_pairs :: "in_memory \<Rightarrow> (bytes \<times> bytes) list" where
  "backend_pairs b = RBT.entries (backend_map b None)"

definition backend_key_values_with_prefix :: "in_memory \<Rightarrow> bytes \<Rightarrow> (bytes \<times> bytes) list" where
  "backend_key_values_with_prefix b prefix = filter (\<lambda>e. starts_with prefix (fst e)) (RBT.entries (backend_map b None))"

section \<open>Roots\<close>

text \<open>The stored pairs followed by the delta, collected in a hash map, without the removed keys.\<close>

definition apply_delta :: "delta \<Rightarrow> raw_storage \<Rightarrow> raw_storage" where
  "apply_delta = fold (\<lambda>(k, v) m. m(k := v))"

definition backend_storage_root :: "'h hashing \<Rightarrow> in_memory \<Rightarrow> delta \<Rightarrow> 'h \<times> transaction" where
  "backend_storage_root H b delta =
     (trie_root H (apply_delta delta (RBT.lookup (backend_map b None))), [(None, delta)])"

definition backend_child_storage_root ::
  "'h hashing \<Rightarrow> in_memory \<Rightarrow> bytes \<Rightarrow> owned_child_info \<Rightarrow> delta \<Rightarrow> 'h \<times> bool \<times> transaction" where
  "backend_child_storage_root H b storage_key ci delta =
     (let child_info = Some (storage_key, ci);
          root = child_trie_root H storage_key (apply_delta delta (RBT.lookup (backend_map b child_info)))
      in (root, root = default_child_trie_root H storage_key, [(child_info, delta)]))"

fun child_roots_loop ::
  "'h hashing \<Rightarrow> in_memory \<Rightarrow> (bytes \<times> delta \<times> owned_child_info) list \<Rightarrow> transaction \<Rightarrow> delta \<Rightarrow> transaction \<times> delta" where
  "child_roots_loop H b [] txs child_roots = (txs, child_roots)"
| "child_roots_loop H b ((storage_key, child_delta, ci) # rest) txs child_roots =
     (let (child_root, empty, child_txs) = backend_child_storage_root H b storage_key ci child_delta
      in child_roots_loop H b rest (txs @ child_txs)
           (child_roots @ [(storage_key, if empty then None else Some (enc_hash H child_root))]))"

definition full_storage_root ::
  "'h hashing \<Rightarrow> in_memory \<Rightarrow> delta \<Rightarrow> (bytes \<times> delta \<times> owned_child_info) list \<Rightarrow> 'h \<times> transaction" where
  "full_storage_root H b delta child_deltas =
     (let (txs, child_roots) = child_roots_loop H b child_deltas [] [];
          (root, parent_txs) = backend_storage_root H b (delta @ child_roots)
      in (root, txs @ parent_txs))"

section \<open>Conversions\<close>

record storage_child =
  sc_data :: "bytes btree"
  sc_child_info :: owned_child_info

record storage =
  st_top :: "bytes btree"
  st_children :: "storage_child btree"

definition storage_default :: storage where
  "storage_default = \<lparr>st_top = RBT.empty, st_children = RBT.empty\<rparr>"

definition in_memory_of_storage :: "storage \<Rightarrow> in_memory" where
  "in_memory_of_storage inners =
     (fold (\<lambda>(k, c) inner. inner(Some (k, sc_child_info c) \<mapsto> sc_data c)) (RBT.entries (st_children inners)) Map.empty)
       (None \<mapsto> st_top inners)"

definition in_memory_of_map :: "bytes btree \<Rightarrow> in_memory" where
  "in_memory_of_map inner = [None \<mapsto> inner]"

definition in_memory_of_transaction :: "transaction \<Rightarrow> in_memory" where
  "in_memory_of_transaction inner =
     fold (\<lambda>(child_info, key_values) expanded.
         expanded(child_info \<mapsto>
           fold (\<lambda>(key, val) entry. case val of Some v \<Rightarrow> RBT.insert key v entry | None \<Rightarrow> entry) key_values
             (backend_map expanded child_info)))
       inner Map.empty"

end
