(* ===== verification/Overlay_Laws.thy ===== *)
theory Overlay_Laws
  imports Overlayed_Changes
begin

text \<open>
  What each operation of the overlay does to the values it answers with, at the top level
  (\<open>overlay_storage\<close>) and in a child (\<open>overlay_child_storage\<close>): writes, removal by prefix, removal of a
  child, and the two ends of a transaction.
\<close>

section \<open>One map of changes\<close>

text \<open>The first of two optional values.\<close>

definition or_else :: "'a option \<Rightarrow> 'a option \<Rightarrow> 'a option" where
  "or_else x y = (case x of Some v \<Rightarrow> Some v | None \<Rightarrow> y)"

lemma or_else_simps [simp]:
  "or_else None y = y" "or_else (Some v) y = Some v" "or_else x None = x"
  "or_else x y = None \<longleftrightarrow> x = None \<and> y = None"
  by (simp_all add: or_else_def split: option.split)

lemma or_else_assoc [simp]: "or_else (or_else x y) z = or_else x (or_else y z)"
  by (cases x) simp_all

text \<open>The change a map holds for a key: no change, a removal or a value.\<close>

definition vals :: "overlayed_value btree \<Rightarrow> bytes \<Rightarrow> bytes option option" where
  "vals t k = map_option ov_value (RBT.lookup t k)"

lemma lookup_None_keys: "RBT.lookup t k = None \<longleftrightarrow> k \<notin> set (RBT.keys t)"
  unfolding lookup_keys [symmetric] by (simp add: domIff)

lemma distinct_fst_entries [simp]: "distinct (map fst (RBT.entries t))"
  using distinct_keys [of t] by (simp add: RBT.keys_def_alt del: distinct_keys)

lemma vals_None: "vals t k = None \<longleftrightarrow> RBT.lookup t k = None"
  by (simp add: vals_def)

lemma vals_empty [simp]: "vals RBT.empty k = None"
  by (simp add: vals_def)

lemma ov_value_mark [simp]: "ov_value (mark_extrinsic idx e) = ov_value e"
  by (simp add: mark_extrinsic_def split: option.split)

lemma ov_value_commit [simp]: "ov_value (commit_value v e) = ov_value v"
  by (simp add: commit_value_def split: option.split)

lemma vals_insert [simp]: "vals (RBT.insert key v t) = (vals t)(key \<mapsto> ov_value v)"
  by (simp add: vals_def fun_eq_iff)

lemma vals_set_entry [simp]: "vals (set_entry idx key v t) = (vals t)(key \<mapsto> v)"
  by (simp add: set_entry_def Let_def)

lemma vals_map: "vals (RBT.map f t) k = map_option (\<lambda>e. ov_value (f k e)) (RBT.lookup t k)"
  by (simp add: vals_def option.map_comp o_def)

lemma vals_map_removed:
  "vals (RBT.map (\<lambda>_ e. (f e)\<lparr>ov_value := None\<rparr>) t) k = (if vals t k = None then None else Some None)"
  by (auto simp: vals_map vals_None)

lemma vals_entries: "k \<in> fst ` set (RBT.entries t) \<longleftrightarrow> vals t k \<noteq> None"
  using lookup_None_keys [of t k] by (simp add: RBT.keys_def_alt vals_None)

lemma vals_fold_set_entry:
  "vals (fold (\<lambda>key m. if P key then set_entry idx key None m else m) ks m) k =
     (if k \<in> set ks \<and> P k then Some None else vals m k)"
proof (induction ks arbitrary: m)
  case (Cons a ks)
  show ?case by (simp add: Cons.IH)
qed simp

lemma vals_clear_prefix_in:
  "vals (clear_prefix_in idx prefix cm m) k =
     (if starts_with prefix k \<and> (vals cm k \<noteq> None \<or> vals m k \<noteq> None) then Some None else vals m k)"
  unfolding clear_prefix_in_def vals_fold_set_entry vals_map
  using lookup_None_keys [of cm k] by (cases "RBT.lookup m k") (auto simp: vals_None vals_def)

lemma vals_commit_fold:
  assumes "distinct (map fst es)"
  shows "vals (fold (\<lambda>(key, val) m.
           RBT.insert key (commit_value val (case RBT.lookup m key of Some e \<Rightarrow> e | None \<Rightarrow> overlayed_value_default)) m) es m) k =
         (case map_of es k of Some v \<Rightarrow> Some (ov_value v) | None \<Rightarrow> vals m k)"
  using assms
proof (induction es arbitrary: m)
  case (Cons a es)
  obtain key v where a: "a = (key, v)" by (cases a)
  have d: "distinct (map fst es)" and n: "map_of es key = None"
    using Cons.prems a by (auto simp: map_of_eq_None_iff)
  show ?case using n by (simp add: a Cons.IH [OF d] split: option.split)
qed simp

lemma vals_commit_map [simp]:
  "vals (commit_map src into) k = or_else (vals src k) (vals into k)"
  unfolding commit_map_def vals_commit_fold [OF distinct_fst_entries]
  by (simp add: or_else_def vals_def [of src] split: option.split)

text \<open>The loop over the committed entries of a child that is killed.\<close>

lemma vals_Some: "RBT.lookup t k = Some e \<Longrightarrow> vals t k = Some (ov_value e)"
  by (simp add: vals_def)

lemma vals_kill_fold:
  "vals (fold (\<lambda>(key, val) m. if RBT.lookup m key = None
           then RBT.insert key \<lparr>ov_value = None, ov_extrinsics = g val\<rparr> m else m) es m) k =
     (if k \<in> fst ` set es \<and> vals m k = None then Some None else vals m k)"
proof (induction es arbitrary: m)
  case (Cons a es)
  show ?case by (cases a) (auto simp: Cons.IH vals_None)
qed simp

section \<open>The overlay\<close>

definition child_map :: "overlayed_change_set \<Rightarrow> bytes \<Rightarrow> overlayed_value btree" where
  "child_map c storage_key = (case RBT.lookup (ocs_children c) storage_key of None \<Rightarrow> RBT.empty | Some (m, _) \<Rightarrow> m)"

lemma overlay_storage_vals:
  "overlay_storage ov k = or_else (vals (ocs_top (prospective ov)) k) (vals (ocs_top (committed ov)) k)"
  by (simp add: or_else_def overlay_storage_def vals_def split: option.split)

lemma child_value_map: "map_option ov_value (child_value c sk k) = vals (child_map c sk) k"
  by (auto simp: child_value_def child_map_def vals_def split: option.split)

lemma overlay_child_storage_vals:
  "overlay_child_storage ov sk k =
     or_else (vals (child_map (prospective ov) sk) k) (vals (child_map (committed ov) sk) k)"
  unfolding overlay_child_storage_def child_value_map [symmetric] by (auto simp: or_else_def split: option.split)

lemmas overlay_vals = overlay_storage_vals overlay_child_storage_vals

lemma fst_child_entry [simp]: "fst (child_entry sk ci c) = child_map c sk"
  by (simp add: child_entry_def child_map_def split: option.split)

lemma child_map_insert [simp]:
  "child_map (c\<lparr>ocs_children := RBT.insert sk (m, ci) t\<rparr>) s = (if s = sk then m else child_map (c\<lparr>ocs_children := t\<rparr>) s)"
  by (simp add: child_map_def)

lemma child_map_same [simp]:
  "child_map (c\<lparr>ocs_children := ocs_children c\<rparr>) s = child_map c s" "child_map (c\<lparr>ocs_top := t\<rparr>) s = child_map c s"
  by (simp_all add: child_map_def)

lemma child_map_empty [simp]: "child_map change_set_empty s = RBT.empty" "child_map (change_set_clear c) s = RBT.empty"
  by (simp_all add: child_map_def change_set_empty_def change_set_clear_def)

lemma child_map_put [simp]:
  "child_map (c\<lparr>ocs_children := RBT.insert sk (m, ci) (ocs_children c)\<rparr>) = (child_map c)(sk := m)"
  by (simp add: fun_eq_iff)

section \<open>Writes\<close>

lemma committed_write [simp]:
  "committed (overlay_put dec k v ov) = committed ov"
  "committed (set_child_storage dec sk ci k v ov) = committed ov"
  "committed (clear_child_storage dec sk ci ov) = committed ov"
  "committed (overlay_clear_prefix dec p ov) = committed ov"
  "committed (overlay_clear_child_prefix dec sk ci p ov) = committed ov"
  by (simp_all add: overlay_put_def set_child_storage_def clear_child_storage_def overlay_clear_prefix_def
        overlay_clear_child_prefix_def Let_def case_prod_beta)

lemma top_write [simp]:
  "ocs_top (prospective (set_child_storage dec sk ci k v ov)) = ocs_top (prospective ov)"
  "ocs_top (prospective (clear_child_storage dec sk ci ov)) = ocs_top (prospective ov)"
  "ocs_top (prospective (overlay_clear_child_prefix dec sk ci p ov)) = ocs_top (prospective ov)"
  by (simp_all add: set_child_storage_def clear_child_storage_def overlay_clear_child_prefix_def Let_def case_prod_beta)

lemma child_write [simp]:
  "child_map (prospective (overlay_put dec k v ov)) = child_map (prospective ov)"
  "child_map (prospective (overlay_clear_prefix dec p ov)) = child_map (prospective ov)"
  by (simp_all add: overlay_put_def overlay_clear_prefix_def Let_def fun_eq_iff)

lemma overlay_set_values:
  "overlay_storage (overlay_put dec k v ov) = (overlay_storage ov)(k \<mapsto> v)"
  by (simp add: fun_eq_iff overlay_vals) (simp add: overlay_put_def Let_def)

lemma overlay_set_child_storage:
  "overlay_child_storage (set_child_storage dec sk ci k v ov) s =
     (if s = sk then (overlay_child_storage ov sk)(k \<mapsto> v) else overlay_child_storage ov s)"
  by (simp add: fun_eq_iff overlay_vals) (simp add: set_child_storage_def Let_def case_prod_beta)

lemma overlay_clear_prefix_values:
  "overlay_storage (overlay_clear_prefix dec p ov) k =
     (if starts_with p k \<and> overlay_storage ov k \<noteq> None then Some None else overlay_storage ov k)"
  by (simp add: overlay_vals)
     (auto simp: overlay_clear_prefix_def Let_def vals_clear_prefix_in split: option.split)

lemma overlay_clear_child_prefix_values:
  "overlay_child_storage (overlay_clear_child_prefix dec sk ci p ov) s k =
     (if s = sk \<and> starts_with p k \<and> overlay_child_storage ov sk k \<noteq> None then Some None
      else overlay_child_storage ov s k)"
  by (simp add: overlay_vals)
     (auto simp: overlay_clear_child_prefix_def Let_def case_prod_beta vals_clear_prefix_in
        simp flip: child_map_def split: option.split)

lemma overlay_clear_child_values:
  "overlay_child_storage (clear_child_storage dec sk ci ov) s k =
     (if s = sk \<and> overlay_child_storage ov sk k \<noteq> None then Some None else overlay_child_storage ov s k)"
proof (cases "RBT.lookup (ocs_children (committed ov)) sk")
  case None
  then have "child_map (committed ov) sk = RBT.empty" by (simp add: child_map_def)
  with None show ?thesis
    by (simp add: overlay_vals)
       (auto simp: clear_child_storage_def Let_def case_prod_beta vals_map_removed)
next
  case (Some mc)
  obtain m info where mc: "mc = (m, info)" by (cases mc)
  have cm: "child_map (committed ov) sk = m" using Some mc by (simp add: child_map_def)
  show ?thesis
    using Some mc cm
    by (simp add: overlay_vals)
       (auto simp: clear_child_storage_def Let_def case_prod_beta vals_kill_fold vals_map_removed vals_entries)
qed

lemmas overlay_writes = overlay_set_values overlay_set_child_storage overlay_clear_prefix_values
  overlay_clear_child_prefix_values overlay_clear_child_values

lemma overlay_other_level [simp]:
  "overlay_child_storage (overlay_put dec k v ov) s = overlay_child_storage ov s"
  "overlay_child_storage (overlay_clear_prefix dec p ov) s = overlay_child_storage ov s"
  "overlay_storage (set_child_storage dec sk ci k v ov) = overlay_storage ov"
  "overlay_storage (clear_child_storage dec sk ci ov) = overlay_storage ov"
  "overlay_storage (overlay_clear_child_prefix dec sk ci p ov) = overlay_storage ov"
  by (simp_all add: fun_eq_iff overlay_vals)

text \<open>The loops that remove the keys of the backend.\<close>

lemma overlay_fold_set:
  "overlay_storage (fold (\<lambda>key. overlay_put dec key None) ks ov) k =
     (if k \<in> set ks then Some None else overlay_storage ov k)"
  by (induction ks arbitrary: ov) (auto simp: overlay_set_values)

lemma overlay_fold_set_other [simp]:
  "overlay_child_storage (fold (\<lambda>key. overlay_put dec key None) ks ov) s = overlay_child_storage ov s"
  by (induction ks arbitrary: ov) auto

lemma overlay_fold_set_child:
  "overlay_child_storage (fold (\<lambda>key. set_child_storage dec sk ci key None) ks ov) s k =
     (if s = sk \<and> k \<in> set ks then Some None else overlay_child_storage ov s k)"
  by (induction ks arbitrary: ov) (auto simp: overlay_set_child_storage)

lemma overlay_fold_set_child_other [simp]:
  "overlay_storage (fold (\<lambda>key. set_child_storage dec sk ci key None) ks ov) = overlay_storage ov"
  by (induction ks arbitrary: ov) auto

lemma committed_folds [simp]:
  "committed (fold (\<lambda>key. overlay_put dec key None) ks ov) = committed ov"
  "committed (fold (\<lambda>key. set_child_storage dec sk ci key None) ks ov) = committed ov"
  by (induction ks arbitrary: ov) auto

section \<open>The ends of a transaction\<close>

lemma change_set_is_emptyD:
  assumes "change_set_is_empty c"
  shows "ocs_top c = RBT.empty" and "child_map c s = RBT.empty"
  using assms by (simp_all add: change_set_is_empty_def child_map_def)

lemma overlay_discard:
  "overlay_storage (discard_prospective ov) k = vals (ocs_top (committed ov)) k"
  "overlay_child_storage (discard_prospective ov) s k = vals (child_map (committed ov) s) k"
  by (simp_all add: overlay_vals discard_prospective_def) (simp add: change_set_clear_def)

text \<open>The loop over the children of a commit.\<close>

definition commit_children ::
  "(bytes \<times> overlayed_value btree \<times> owned_child_info) list \<Rightarrow> (overlayed_value btree \<times> owned_child_info) btree
    \<Rightarrow> (overlayed_value btree \<times> owned_child_info) btree" where
  "commit_children = fold (\<lambda>(storage_key, m, child_info) cs.
     let (cm, info) = (case RBT.lookup cs storage_key of Some e \<Rightarrow> e | None \<Rightarrow> (RBT.empty, child_info))
     in RBT.insert storage_key (commit_map m cm, info) cs)"

lemma commit_children_lookup:
  assumes "distinct (map fst es)"
  shows "RBT.lookup (commit_children es cs) s =
    (case map_of es s of
       None \<Rightarrow> RBT.lookup cs s
     | Some (m, ci) \<Rightarrow>
         (case RBT.lookup cs s of
            Some (cm, info) \<Rightarrow> Some (commit_map m cm, info)
          | None \<Rightarrow> Some (commit_map m RBT.empty, ci)))"
  using assms
proof (induction es arbitrary: cs)
  case (Cons a es)
  obtain sk m ci where a: "a = (sk, m, ci)" by (cases a)
  have d: "distinct (map fst es)" and n: "map_of es sk = None"
    using Cons.prems a by (auto simp: map_of_eq_None_iff)
  have step: "commit_children (a # es) cs = commit_children es
      (let (cm, info) = (case RBT.lookup cs sk of Some e \<Rightarrow> e | None \<Rightarrow> (RBT.empty, ci))
       in RBT.insert sk (commit_map m cm, info) cs)"
    by (simp add: commit_children_def a)
  show ?case
    unfolding step Cons.IH [OF d] using n
    by (auto simp: a Let_def split: option.splits prod.splits)
qed (simp add: commit_children_def)

lemma commit_prospective_unfold:
  "commit_prospective ov =
     (if change_set_is_empty (committed ov) then ov\<lparr>prospective := committed ov, committed := prospective ov\<rparr>
      else ov\<lparr>prospective := change_set_empty,
              committed := (committed ov)\<lparr>ocs_top := commit_map (ocs_top (prospective ov)) (ocs_top (committed ov)),
                ocs_children := commit_children (RBT.entries (ocs_children (prospective ov))) (ocs_children (committed ov))\<rparr>\<rparr>)"
  by (simp add: commit_prospective_def commit_children_def Let_def)

lemma vals_committed_commit:
  "vals (ocs_top (committed (commit_prospective ov))) k = overlay_storage ov k"
  "vals (child_map (committed (commit_prospective ov)) s) k = overlay_child_storage ov s k"
proof -
  have e: "commit_prospective ov = ov\<lparr>prospective := committed ov, committed := prospective ov\<rparr>"
      "vals (ocs_top (committed ov)) k = None" "vals (child_map (committed ov) s) k = None"
    if "change_set_is_empty (committed ov)"
    using that change_set_is_emptyD [OF that] by (simp_all add: commit_prospective_unfold)
  have c: "vals (child_map ((committed ov)\<lparr>ocs_top := t, ocs_children := commit_children (RBT.entries cs) (ocs_children (committed ov))\<rparr>) s) k =
      or_else (vals (child_map ((prospective ov)\<lparr>ocs_children := cs\<rparr>) s) k) (vals (child_map (committed ov) s) k)" for cs t
    by (auto simp: child_map_def commit_children_lookup split: option.splits)
  show "vals (ocs_top (committed (commit_prospective ov))) k = overlay_storage ov k"
    by (cases "change_set_is_empty (committed ov)")
       (simp_all add: e overlay_vals commit_prospective_unfold split: option.split)
  show "vals (child_map (committed (commit_prospective ov)) s) k = overlay_child_storage ov s k"
    using c [of "ocs_children (prospective ov)"]
    by (cases "change_set_is_empty (committed ov)")
       (simp_all add: e overlay_vals commit_prospective_unfold split: option.split)
qed

lemma prospective_commit:
  "vals (ocs_top (prospective (commit_prospective ov))) k = None"
  "vals (child_map (prospective (commit_prospective ov)) s) k = None"
  using change_set_is_emptyD [of "committed ov"]
  by (simp_all add: commit_prospective_unfold) (simp add: change_set_empty_def)

lemma overlay_commit [simp]:
  "overlay_storage (commit_prospective ov) k = overlay_storage ov k"
  "overlay_child_storage (commit_prospective ov) s k = overlay_child_storage ov s k"
  by (simp_all add: overlay_vals [of "commit_prospective ov"] prospective_commit vals_committed_commit)

end
