(* ===== verification/Externalities.thy ===== *)
theory Externalities
  imports State_Backend Overlay_Laws
begin

text \<open>
  The state a runtime call sees: changes over a backend (\<open>primitives/state-machine/src/ext.rs\<close>).
  Reads and writes cannot fail, as the in-memory backend has no error.  Changes tries, extensions and
  tracing are left out.
\<close>

section \<open>Externalities over a backend\<close>

record ('c, 'h) ext =
  overlay :: "'c overlayed_changes"
  storage_transaction :: "(transaction \<times> 'h) option"

definition ext_new :: "'c overlayed_changes \<Rightarrow> ('c, 'h) ext" where
  "ext_new ov = \<lparr>overlay = ov, storage_transaction = None\<rparr>"

definition mark_dirty :: "('c, 'h) ext \<Rightarrow> ('c, 'h) ext" where
  "mark_dirty e = e\<lparr>storage_transaction := None\<rparr>"

definition ext_storage :: "in_memory \<Rightarrow> ('c, 'h) ext \<Rightarrow> bytes \<Rightarrow> bytes option" where
  "ext_storage b e key = (case overlay_storage (overlay e) key of Some x \<Rightarrow> x | None \<Rightarrow> backend_storage b key)"

definition ext_storage_hash :: "'h hashing \<Rightarrow> in_memory \<Rightarrow> ('c, 'h) ext \<Rightarrow> bytes \<Rightarrow> bytes option" where
  "ext_storage_hash H b e key =
     map_option (enc_hash H) (case overlay_storage (overlay e) key of
        Some x \<Rightarrow> map_option (hash_value H) x
      | None \<Rightarrow> backend_storage_hash H b key)"

definition ext_original_storage :: "in_memory \<Rightarrow> bytes \<Rightarrow> bytes option" where
  "ext_original_storage b key = backend_storage b key"

definition ext_original_storage_hash :: "'h hashing \<Rightarrow> in_memory \<Rightarrow> bytes \<Rightarrow> bytes option" where
  "ext_original_storage_hash H b key = map_option (enc_hash H) (backend_storage_hash H b key)"

definition ext_child_storage :: "in_memory \<Rightarrow> ('c, 'h) ext \<Rightarrow> bytes \<Rightarrow> owned_child_info \<Rightarrow> bytes \<Rightarrow> bytes option" where
  "ext_child_storage b e storage_key ci key =
     (case overlay_child_storage (overlay e) storage_key key of
        Some x \<Rightarrow> x
      | None \<Rightarrow> backend_child_storage b storage_key ci key)"

definition ext_child_storage_hash ::
  "'h hashing \<Rightarrow> in_memory \<Rightarrow> ('c, 'h) ext \<Rightarrow> bytes \<Rightarrow> owned_child_info \<Rightarrow> bytes \<Rightarrow> bytes option" where
  "ext_child_storage_hash H b e storage_key ci key =
     map_option (enc_hash H) (case overlay_child_storage (overlay e) storage_key key of
        Some x \<Rightarrow> map_option (hash_value H) x
      | None \<Rightarrow> backend_storage_hash H b key)"

definition ext_original_child_storage :: "in_memory \<Rightarrow> bytes \<Rightarrow> owned_child_info \<Rightarrow> bytes \<Rightarrow> bytes option" where
  "ext_original_child_storage b storage_key ci key = backend_child_storage b storage_key ci key"

definition ext_original_child_storage_hash ::
  "'h hashing \<Rightarrow> in_memory \<Rightarrow> bytes \<Rightarrow> owned_child_info \<Rightarrow> bytes \<Rightarrow> bytes option" where
  "ext_original_child_storage_hash H b storage_key ci key =
     map_option (enc_hash H) (backend_child_storage_hash H b storage_key ci key)"

definition ext_exists_storage :: "in_memory \<Rightarrow> ('c, 'h) ext \<Rightarrow> bytes \<Rightarrow> bool" where
  "ext_exists_storage b e key =
     (case overlay_storage (overlay e) key of Some x \<Rightarrow> x \<noteq> None | None \<Rightarrow> backend_exists_storage b key)"

definition ext_exists_child_storage :: "in_memory \<Rightarrow> ('c, 'h) ext \<Rightarrow> bytes \<Rightarrow> owned_child_info \<Rightarrow> bytes \<Rightarrow> bool" where
  "ext_exists_child_storage b e storage_key ci key =
     (case overlay_child_storage (overlay e) storage_key key of
        Some x \<Rightarrow> x \<noteq> None
      | None \<Rightarrow> backend_exists_child_storage b storage_key ci key)"

definition ext_place_storage ::
  "'h hashing \<Rightarrow> bytes \<Rightarrow> bytes option \<Rightarrow> ('c, 'h) ext \<Rightarrow> ('c, 'h) ext" where
  "ext_place_storage H key val e =
     (if is_child_storage_key key then e
      else let e1 = mark_dirty e in e1\<lparr>overlay := overlay_put (dec_index H) key val (overlay e1)\<rparr>)"

definition ext_place_child_storage ::
  "'h hashing \<Rightarrow> bytes \<Rightarrow> owned_child_info \<Rightarrow> bytes \<Rightarrow> bytes option \<Rightarrow> ('c, 'h) ext \<Rightarrow> ('c, 'h) ext" where
  "ext_place_child_storage H storage_key ci key val e =
     (let e1 = mark_dirty e
      in e1\<lparr>overlay := set_child_storage (dec_index H) storage_key ci key val (overlay e1)\<rparr>)"

definition ext_kill_child_storage ::
  "'h hashing \<Rightarrow> in_memory \<Rightarrow> bytes \<Rightarrow> owned_child_info \<Rightarrow> ('c, 'h) ext \<Rightarrow> ('c, 'h) ext" where
  "ext_kill_child_storage H b storage_key ci e =
     (let e1 = mark_dirty e;
          ov = clear_child_storage (dec_index H) storage_key ci (overlay e1)
      in e1\<lparr>overlay := fold (\<lambda>key. set_child_storage (dec_index H) storage_key ci key None)
                             (backend_keys_in_child b storage_key ci) ov\<rparr>)"

definition ext_clear_prefix :: "'h hashing \<Rightarrow> in_memory \<Rightarrow> bytes \<Rightarrow> ('c, 'h) ext \<Rightarrow> ('c, 'h) ext" where
  "ext_clear_prefix H b prefix e =
     (if is_child_storage_key prefix then e
      else let e1 = mark_dirty e;
               ov = overlay_clear_prefix (dec_index H) prefix (overlay e1)
           in e1\<lparr>overlay := fold (\<lambda>key. overlay_put (dec_index H) key None) (backend_keys_with_prefix b prefix) ov\<rparr>)"

definition ext_clear_child_prefix ::
  "'h hashing \<Rightarrow> in_memory \<Rightarrow> bytes \<Rightarrow> owned_child_info \<Rightarrow> bytes \<Rightarrow> ('c, 'h) ext \<Rightarrow> ('c, 'h) ext" where
  "ext_clear_child_prefix H b storage_key ci prefix e =
     (let e1 = mark_dirty e;
          ov = overlay_clear_child_prefix (dec_index H) storage_key ci prefix (overlay e1)
      in e1\<lparr>overlay := fold (\<lambda>key. set_child_storage (dec_index H) storage_key ci key None)
                             (backend_child_keys_with_prefix b storage_key ci prefix) ov\<rparr>)"

text \<open>The values of a map of changes, as the deltas of the roots use them.\<close>

definition change_values :: "overlayed_value btree \<Rightarrow> delta" where
  "change_values m = map (\<lambda>(k, v). (k, ov_value v)) (RBT.entries m)"

definition child_changes :: "overlayed_change_set \<Rightarrow> bytes \<Rightarrow> delta" where
  "child_changes c storage_key =
     (case RBT.lookup (ocs_children c) storage_key of None \<Rightarrow> [] | Some (m, _) \<Rightarrow> change_values m)"

text \<open>
  \<open>None\<close> is a failed \<open>expect\<close>: a child without information.
\<close>

definition child_deltas :: "'c overlayed_changes \<Rightarrow> (bytes \<times> delta \<times> owned_child_info) list option" where
  "child_deltas ov =
     those (map (\<lambda>storage_key.
         map_option (\<lambda>ci. (storage_key, child_changes (committed ov) storage_key @ child_changes (prospective ov) storage_key, ci))
           (overlay_child_info ov storage_key))
       (RBT.keys (ocs_children (prospective ov)) @ RBT.keys (ocs_children (committed ov))))"

definition ext_storage_root :: "'h hashing \<Rightarrow> in_memory \<Rightarrow> ('c, 'h) ext \<Rightarrow> (bytes \<times> ('c, 'h) ext) option" where
  "ext_storage_root H b e =
     (case storage_transaction e of
        Some (_, root) \<Rightarrow> Some (enc_hash H root, e)
      | None \<Rightarrow>
          (case child_deltas (overlay e) of
             None \<Rightarrow> None
           | Some cds \<Rightarrow>
               let delta = change_values (ocs_top (committed (overlay e))) @ change_values (ocs_top (prospective (overlay e)));
                   (root, tx) = full_storage_root H b delta cds
               in Some (enc_hash H root, e\<lparr>storage_transaction := Some (tx, root)\<rparr>)))"

definition ext_transaction :: "'h hashing \<Rightarrow> in_memory \<Rightarrow> ('c, 'h) ext \<Rightarrow> ((transaction \<times> 'h) \<times> ('c, 'h) ext) option" where
  "ext_transaction H b e =
     (case ext_storage_root H b e of
        None \<Rightarrow> None
      | Some (_, e1) \<Rightarrow>
          (case storage_transaction e1 of
             None \<Rightarrow> None
           | Some t \<Rightarrow> Some (t, e1\<lparr>storage_transaction := None\<rparr>)))"

definition stored_child_root :: "'h hashing \<Rightarrow> in_memory \<Rightarrow> ('c, 'h) ext \<Rightarrow> bytes \<Rightarrow> bytes" where
  "stored_child_root H b e storage_key =
     enc_hash H (case ext_storage b e storage_key of
        None \<Rightarrow> default_child_trie_root H storage_key
      | Some k \<Rightarrow> (case dec_hash H k of Some r \<Rightarrow> r | None \<Rightarrow> default_child_trie_root H storage_key))"

definition ext_child_storage_root :: "'h hashing \<Rightarrow> in_memory \<Rightarrow> bytes \<Rightarrow> ('c, 'h) ext \<Rightarrow> bytes \<times> ('c, 'h) ext" where
  "ext_child_storage_root H b storage_key e =
     (if storage_transaction e \<noteq> None then (stored_child_root H b e storage_key, e)
      else case overlay_child_info (overlay e) storage_key of
        Some ci \<Rightarrow>
          let delta = child_changes (committed (overlay e)) storage_key @ child_changes (prospective (overlay e)) storage_key;
              (root, is_empty, _) = backend_child_storage_root H b storage_key ci delta;
              r = enc_hash H root
          in (r, e\<lparr>overlay := overlay_put (dec_index H) storage_key (if is_empty then None else Some r) (overlay e)\<rparr>)
      | None \<Rightarrow> (stored_child_root H b e storage_key, e))"

section \<open>The next key\<close>

lemma next_entry_empty [simp]: "next_entry key RBT.empty = None"
  by (auto simp: next_entry_def find_None_iff simp flip: lookup_in_tree)

lemma next_entry_SomeD:
  assumes "next_entry key t = Some (k, v)"
  shows "key < k" and "RBT.lookup t k = Some v"
proof -
  obtain i where "i < length (RBT.entries t)" "key < fst (RBT.entries t ! i)" "RBT.entries t ! i = (k, v)"
    using assms unfolding next_entry_def find_Some_iff by metis
  then show "key < k" and "RBT.lookup t k = Some v"
    by (auto simp: lookup_in_tree in_set_conv_nth)
qed

lemma next_change_SomeD:
  assumes "next_change c p = Some x"
  shows "c = Some x \<or> p = Some x"
  using assms unfolding next_change_def by (auto split: option.splits if_splits)

text \<open>The keys a set of changes can offer after a key: a removed key is skipped and is never met again.\<close>

definition keys_after :: "bytes \<Rightarrow> overlayed_value btree \<Rightarrow> bytes set" where
  "keys_after key t = {k. RBT.lookup t k \<noteq> None \<and> key < k}"

lemma finite_keys_after [simp]: "finite (keys_after key t)"
  unfolding keys_after_def by (rule finite_subset [OF _ finite_dom_lookup [of t]]) (auto simp: dom_def)

lemma keys_after_decreases:
  assumes "next_change (next_entry key c) (next_entry key p) = Some (k, v)"
  shows "card (keys_after k c \<union> keys_after k p) < card (keys_after key c \<union> keys_after key p)"
proof (rule psubset_card_mono)
  have "next_entry key c = Some (k, v) \<or> next_entry key p = Some (k, v)"
    using next_change_SomeD [OF assms] .
  then have k: "key < k" "k \<in> keys_after key c \<union> keys_after key p"
    by (auto simp: keys_after_def dest: next_entry_SomeD)
  have "k \<notin> keys_after k c \<union> keys_after k p" by (simp add: keys_after_def)
  moreover have "keys_after k c \<union> keys_after k p \<subseteq> keys_after key c \<union> keys_after key p"
    using k(1) by (auto simp: keys_after_def)
  ultimately show "keys_after k c \<union> keys_after k p \<subset> keys_after key c \<union> keys_after key p"
    using k(2) by blast
qed simp

lemma next_child_entry_map: "next_child_entry c storage_key key = next_entry key (child_map c storage_key)"
  by (auto simp: next_child_entry_def child_map_def split: option.split)

function ext_next_storage_key :: "in_memory \<Rightarrow> ('c, 'h) ext \<Rightarrow> bytes \<Rightarrow> bytes option" where
  "ext_next_storage_key b e key =
     (case (backend_next_storage_key b key, next_storage_key_change (overlay e) key) of
        (backend_key, None) \<Rightarrow> backend_key
      | (backend_key, Some (overlay_key, change)) \<Rightarrow>
          (case backend_key of
             Some k \<Rightarrow>
               if k < overlay_key then Some k
               else if ov_value change \<noteq> None then Some overlay_key
               else ext_next_storage_key b e overlay_key
           | None \<Rightarrow>
               if ov_value change \<noteq> None then Some overlay_key
               else ext_next_storage_key b e overlay_key))"
  by pat_completeness auto
termination
  by (relation "measure (\<lambda>(b, e, key). card (keys_after key (ocs_top (committed (overlay e)))
                                           \<union> keys_after key (ocs_top (prospective (overlay e)))))")
     (auto simp: next_storage_key_change_def intro!: keys_after_decreases [OF sym])

function ext_next_child_storage_key ::
  "in_memory \<Rightarrow> ('c, 'h) ext \<Rightarrow> bytes \<Rightarrow> owned_child_info \<Rightarrow> bytes \<Rightarrow> bytes option" where
  "ext_next_child_storage_key b e storage_key ci key =
     (case (backend_next_child_storage_key b storage_key ci key, next_child_storage_key_change (overlay e) storage_key key) of
        (backend_key, None) \<Rightarrow> backend_key
      | (backend_key, Some (overlay_key, change)) \<Rightarrow>
          (case backend_key of
             Some k \<Rightarrow>
               if k < overlay_key then Some k
               else if ov_value change \<noteq> None then Some overlay_key
               else ext_next_child_storage_key b e storage_key ci overlay_key
           | None \<Rightarrow>
               if ov_value change \<noteq> None then Some overlay_key
               else ext_next_child_storage_key b e storage_key ci overlay_key))"
  by pat_completeness auto
termination
  by (relation "measure (\<lambda>(b, e, sk, ci, key). card (keys_after key (child_map (committed (overlay e)) sk)
                                           \<union> keys_after key (child_map (prospective (overlay e)) sk)))")
     (auto simp: next_child_storage_key_change_def next_child_entry_map intro!: keys_after_decreases [OF sym])

declare ext_next_storage_key.simps [simp del] ext_next_child_storage_key.simps [simp del]

end
