(* ===== verification/Basic_Externalities.thy ===== *)
theory Basic_Externalities
  imports State_Backend
begin

text \<open>
  The plain map of storage entries that stands in for the state in genesis building and in tests
  (\<open>primitives/state-machine/src/basic.rs\<close>).
\<close>

type_synonym basic = storage

definition basic_insert :: "bytes \<Rightarrow> bytes \<Rightarrow> basic \<Rightarrow> bytes option \<times> basic" where
  "basic_insert k v s = (RBT.lookup (st_top s) k, s\<lparr>st_top := RBT.insert k v (st_top s)\<rparr>)"

definition basic_of_map :: "bytes btree \<Rightarrow> basic" where
  "basic_of_map m = \<lparr>st_top = m, st_children = RBT.empty\<rparr>"

definition basic_from_iter :: "(bytes \<times> bytes) list \<Rightarrow> basic" where
  "basic_from_iter kvs =
     (let t = storage_default in t\<lparr>st_top := fold (\<lambda>(k, v). RBT.insert k v) kvs (st_top t)\<rparr>)"

definition basic_storage :: "basic \<Rightarrow> bytes \<Rightarrow> bytes option" where
  "basic_storage s key = RBT.lookup (st_top s) key"

definition basic_storage_hash :: "'h hashing \<Rightarrow> basic \<Rightarrow> bytes \<Rightarrow> bytes option" where
  "basic_storage_hash H s key = map_option (\<lambda>v. enc_hash H (hash_value H v)) (basic_storage s key)"

definition basic_child_storage :: "basic \<Rightarrow> bytes \<Rightarrow> owned_child_info \<Rightarrow> bytes \<Rightarrow> bytes option" where
  "basic_child_storage s storage_key ci key =
     (case RBT.lookup (st_children s) storage_key of None \<Rightarrow> None | Some c \<Rightarrow> RBT.lookup (sc_data c) key)"

definition basic_child_storage_hash :: "'h hashing \<Rightarrow> basic \<Rightarrow> bytes \<Rightarrow> owned_child_info \<Rightarrow> bytes \<Rightarrow> bytes option" where
  "basic_child_storage_hash H s storage_key ci key =
     map_option (\<lambda>v. enc_hash H (hash_value H v)) (basic_child_storage s storage_key ci key)"

definition basic_next_storage_key :: "basic \<Rightarrow> bytes \<Rightarrow> bytes option" where
  "basic_next_storage_key s key = map_option fst (next_entry key (st_top s))"

definition basic_next_child_storage_key :: "basic \<Rightarrow> bytes \<Rightarrow> owned_child_info \<Rightarrow> bytes \<Rightarrow> bytes option" where
  "basic_next_child_storage_key s storage_key ci key =
     (case RBT.lookup (st_children s) storage_key of
        None \<Rightarrow> None
      | Some c \<Rightarrow> map_option fst (next_entry key (sc_data c)))"

definition basic_place_storage :: "bytes \<Rightarrow> bytes option \<Rightarrow> basic \<Rightarrow> basic" where
  "basic_place_storage key maybe_value s =
     (if is_child_storage_key key then s
      else case maybe_value of
        Some v \<Rightarrow> s\<lparr>st_top := RBT.insert key v (st_top s)\<rparr>
      | None \<Rightarrow> s\<lparr>st_top := RBT.delete key (st_top s)\<rparr>)"

definition basic_place_child_storage ::
  "bytes \<Rightarrow> owned_child_info \<Rightarrow> bytes \<Rightarrow> bytes option \<Rightarrow> basic \<Rightarrow> basic" where
  "basic_place_child_storage storage_key ci key val s =
     (let child_map = (case RBT.lookup (st_children s) storage_key of
                         Some c \<Rightarrow> c
                       | None \<Rightarrow> \<lparr>sc_data = RBT.empty, sc_child_info = ci\<rparr>);
          data = (case val of
                    Some v \<Rightarrow> RBT.insert key v (sc_data child_map)
                  | None \<Rightarrow> RBT.delete key (sc_data child_map))
      in s\<lparr>st_children := RBT.insert storage_key (child_map\<lparr>sc_data := data\<rparr>) (st_children s)\<rparr>)"

definition basic_kill_child_storage :: "bytes \<Rightarrow> owned_child_info \<Rightarrow> basic \<Rightarrow> basic" where
  "basic_kill_child_storage storage_key ci s = s\<lparr>st_children := RBT.delete storage_key (st_children s)\<rparr>"

text \<open>The keys from the prefix on, as long as they start with it.\<close>

definition prefix_keys :: "bytes \<Rightarrow> bytes btree \<Rightarrow> bytes list" where
  "prefix_keys prefix t = takeWhile (starts_with prefix) (filter (\<lambda>k. prefix \<le> k) (RBT.keys t))"

definition basic_clear_prefix :: "bytes \<Rightarrow> basic \<Rightarrow> basic" where
  "basic_clear_prefix prefix s =
     (if is_child_storage_key prefix then s
      else s\<lparr>st_top := fold RBT.delete (prefix_keys prefix (st_top s)) (st_top s)\<rparr>)"

definition basic_clear_child_prefix :: "bytes \<Rightarrow> owned_child_info \<Rightarrow> bytes \<Rightarrow> basic \<Rightarrow> basic" where
  "basic_clear_child_prefix storage_key ci prefix s =
     (case RBT.lookup (st_children s) storage_key of
        None \<Rightarrow> s
      | Some c \<Rightarrow> s\<lparr>st_children := RBT.insert storage_key
           (c\<lparr>sc_data := fold RBT.delete (prefix_keys prefix (sc_data c)) (sc_data c)\<rparr>) (st_children s)\<rparr>)"

definition basic_child_storage_root :: "'h hashing \<Rightarrow> bytes \<Rightarrow> basic \<Rightarrow> bytes" where
  "basic_child_storage_root H storage_key s =
     enc_hash H (case RBT.lookup (st_children s) storage_key of
        Some c \<Rightarrow> fst (backend_child_storage_root H Map.empty storage_key (sc_child_info c)
                        (map (\<lambda>(k, v). (k, Some v)) (RBT.entries (sc_data c))))
      | None \<Rightarrow> default_child_trie_root H storage_key)"

text \<open>
  The root: the loop works out the top level with the roots of the children in it; the hash is then
  taken of the top level as it was stored.  \<open>None\<close> is the failed \<open>expect\<close> on a child key that is not valid.
  The comparison with the empty root is on the raw bytes of the hash, which the codec keeps.
\<close>

fun basic_top_with_roots :: "'h hashing \<Rightarrow> basic \<Rightarrow> bytes list \<Rightarrow> bytes btree \<Rightarrow> bytes btree option" where
  "basic_top_with_roots H s [] tops = Some tops"
| "basic_top_with_roots H s (storage_key # keys) tops =
     (if is_child_trie_key_valid storage_key
      then let child_root = basic_child_storage_root H storage_key s
           in basic_top_with_roots H s keys
                (if enc_hash H (default_child_trie_root H []) = child_root
                 then RBT.delete storage_key tops
                 else RBT.insert storage_key child_root tops)
      else None)"

definition basic_storage_root :: "'h hashing \<Rightarrow> basic \<Rightarrow> bytes option" where
  "basic_storage_root H s =
     (case basic_top_with_roots H s (RBT.keys (st_children s)) (st_top s) of
        None \<Rightarrow> None
      | Some tops \<Rightarrow> Some (enc_hash H (trie_root H (RBT.lookup (st_top s)))))"

end
