(* ===== verification/Externalities_Laws.thy ===== *)
theory Externalities_Laws
  imports Externalities Basic_Externalities
begin

text \<open>
  The contract of the \<open>Externalities\<close> trait: what reads answer after writes, and what the next key is.
  It is a locale over the operations of an implementation, proved for the changes over a backend and for
  the plain map.  The information of a child is fixed by a function \<open>ci_of\<close> of its storage key, as the runtime
  derives it from the key.
\<close>

section \<open>The backend through its maps\<close>

lemma backend_storage_map: "backend_storage b k = RBT.lookup (backend_map b None) k"
  by (simp add: backend_storage_def backend_map_def split: option.split)

lemma backend_child_storage_map: "backend_child_storage b sk ci k = RBT.lookup (backend_map b (Some (sk, ci))) k"
  by (simp add: backend_child_storage_def backend_map_def split: option.split)

lemma backend_next_map:
  "backend_next_storage_key b k = map_option fst (next_entry k (backend_map b None))"
  "backend_next_child_storage_key b sk ci k = map_option fst (next_entry k (backend_map b (Some (sk, ci))))"
  by (simp_all add: backend_next_storage_key_def backend_next_child_storage_key_def backend_map_def split: option.split)

lemma backend_keys:
  "k \<in> set (backend_keys_with_prefix b p) \<longleftrightarrow> starts_with p k \<and> backend_storage b k \<noteq> None"
  "k \<in> set (backend_keys_in_child b sk ci) \<longleftrightarrow> backend_child_storage b sk ci k \<noteq> None"
  "k \<in> set (backend_child_keys_with_prefix b sk ci p) \<longleftrightarrow> starts_with p k \<and> backend_child_storage b sk ci k \<noteq> None"
  by (auto simp: backend_keys_with_prefix_def backend_keys_in_child_def backend_child_keys_with_prefix_def
        backend_storage_map backend_child_storage_map lookup_None_keys)

section \<open>Reads after writes\<close>

lemma ext_storage_overlay:
  "ext_storage b e k = (case overlay_storage (overlay e) k of Some x \<Rightarrow> x | None \<Rightarrow> backend_storage b k)"
  by (simp add: ext_storage_def)

lemma overlay_mark_dirty [simp]: "overlay (mark_dirty e) = overlay e"
  by (simp add: mark_dirty_def)

lemma ext_place_top:
  "ext_storage b (ext_place_storage H k v e) = (if is_child_storage_key k then ext_storage b e else (ext_storage b e)(k := v))"
  by (simp add: fun_eq_iff ext_storage_def ext_place_storage_def Let_def overlay_set_values)

lemma ext_place_other:
  "ext_child_storage b (ext_place_storage H k v e) = ext_child_storage b e"
  "ext_storage b (ext_place_child_storage H sk ci k v e) = ext_storage b e"
  "ext_storage b (ext_kill_child_storage H b sk ci e) = ext_storage b e"
  "ext_storage b (ext_clear_child_prefix H b sk ci p e) = ext_storage b e"
  "ext_child_storage b (ext_clear_prefix H b p e) = ext_child_storage b e"
  by (simp_all add: fun_eq_iff ext_storage_def ext_child_storage_def ext_place_storage_def ext_place_child_storage_def
        ext_kill_child_storage_def ext_clear_child_prefix_def ext_clear_prefix_def Let_def)

lemma ext_place_child:
  "ext_child_storage b (ext_place_child_storage H sk ci k v e) s ci' =
     (if s = sk then (ext_child_storage b e sk ci')(k := v) else ext_child_storage b e s ci')"
  by (auto simp: fun_eq_iff ext_child_storage_def ext_place_child_storage_def Let_def overlay_set_child_storage)

lemma ext_kill_child:
  "ext_child_storage b (ext_kill_child_storage H b sk ci e) s ci =
     (if s = sk then Map.empty else ext_child_storage b e s ci)"
  by (auto simp: fun_eq_iff ext_child_storage_def ext_kill_child_storage_def Let_def overlay_fold_set_child
        overlay_clear_child_values backend_keys split: option.split)

lemma ext_clear_top:
  "ext_storage b (ext_clear_prefix H b p e) =
     (if is_child_storage_key p then ext_storage b e else unhashed_kill_prefix p (ext_storage b e))"
  by (auto simp: fun_eq_iff ext_storage_def ext_clear_prefix_def Let_def overlay_fold_set
        overlay_clear_prefix_values backend_keys unhashed_kill_prefix_def starts_with_def split: option.split)

lemma ext_clear_child:
  "ext_child_storage b (ext_clear_child_prefix H b sk ci p e) s ci =
     (if s = sk then unhashed_kill_prefix p (ext_child_storage b e sk ci) else ext_child_storage b e s ci)"
  by (auto simp: fun_eq_iff ext_child_storage_def ext_clear_child_prefix_def Let_def overlay_fold_set_child
        overlay_clear_child_prefix_values backend_keys unhashed_kill_prefix_def starts_with_def split: option.split)

lemma ext_child_elsewhere:
  assumes "s \<noteq> sk"
  shows "ext_child_storage b (ext_kill_child_storage H b sk ci e) s ci' = ext_child_storage b e s ci'"
    and "ext_child_storage b (ext_clear_child_prefix H b sk ci p e) s ci' = ext_child_storage b e s ci'"
  using assms
  by (simp_all add: fun_eq_iff ext_child_storage_def ext_kill_child_storage_def ext_clear_child_prefix_def Let_def
        overlay_fold_set_child overlay_clear_child_values overlay_clear_child_prefix_values)

section \<open>The least key above another\<close>

definition next_key_ok :: "raw_storage \<Rightarrow> bytes \<Rightarrow> bytes option \<Rightarrow> bool" where
  "next_key_ok m key r \<longleftrightarrow>
     (case r of
        None \<Rightarrow> \<forall>k. key < k \<longrightarrow> m k = None
      | Some k \<Rightarrow> key < k \<and> m k \<noteq> None \<and> (\<forall>k'. key < k' \<and> k' < k \<longrightarrow> m k' = None))"

lemma next_key_ok_unique:
  assumes "next_key_ok m key r" and "next_key_ok m key r'"
  shows "r = r'"
proof (cases r; cases r')
  fix k k' assume r: "r = Some k" "r' = Some k'"
  have "\<not> k < k'" "\<not> k' < k" using assms r by (auto simp: next_key_ok_def)
  then show ?thesis using r by simp
qed (use assms in \<open>auto simp: next_key_ok_def\<close>)

lemma find_sorted:
  assumes "sorted (map fst es)"
  shows "find (\<lambda>e. key < fst e) es = None \<Longrightarrow> key < k \<Longrightarrow> map_of es k = None"
    and "find (\<lambda>e. key < fst e) es = Some (k', v) \<Longrightarrow> key < k \<Longrightarrow> k < k' \<Longrightarrow> map_of es k = None"
  using assms
proof (induction es)
  case (Cons a es)
  { case 1 then show ?case using Cons.IH(1) by (auto split: if_splits) }
  { case 2
    show ?case
    proof (cases "key < fst a")
      case True
      then have a: "a = (k', v)" using 2(1) by simp
      have "k \<notin> fst ` set (a # es)" using 2(3,4) a by (auto simp: not_le [symmetric])
      then show ?thesis by (simp add: map_of_eq_None_iff)
    next
      case False
      then show ?thesis using 2 Cons.IH(2) by auto
    qed }
qed simp_all

lemma sorted_entries: "sorted (map fst (RBT.entries t))"
  using sorted_keys [of t] by (simp add: RBT.keys_def_alt)

lemma next_entry_least:
  shows "next_entry key t = None \<Longrightarrow> key < k \<Longrightarrow> RBT.lookup t k = None"
    and "next_entry key t = Some (k', v) \<Longrightarrow> key < k \<Longrightarrow> k < k' \<Longrightarrow> RBT.lookup t k = None"
  using find_sorted [OF sorted_entries] by (auto simp: next_entry_def)

lemma next_entry_ok: "next_key_ok (RBT.lookup t) key (map_option fst (next_entry key t))"
proof (cases "next_entry key t")
  case None
  then show ?thesis by (simp add: next_key_ok_def next_entry_least)
next
  case (Some e)
  obtain k v where e: "e = (k, v)" by (cases e)
  note s = Some [unfolded e]
  show ?thesis using s next_entry_SomeD [OF s] next_entry_least(2) [OF s] by (simp add: next_key_ok_def)
qed

lemma next_change_least:
  assumes n: "next_change (next_entry key c) (next_entry key p) = r"
  shows "case r of
      None \<Rightarrow> \<forall>k. key < k \<longrightarrow> or_else (vals p k) (vals c k) = None
    | Some (k, v) \<Rightarrow> key < k \<and> or_else (vals p k) (vals c k) = Some (ov_value v)
        \<and> (\<forall>k'. key < k' \<and> k' < k \<longrightarrow> or_else (vals p k') (vals c k') = None)"
proof (cases "next_entry key c")
  case None
  have r: "r = next_entry key p" using n None by (auto simp: next_change_def split: option.splits)
  have c: "key < k \<Longrightarrow> vals c k = None" for k using next_entry_least(1) [OF None] by (simp add: vals_None)
  show ?thesis
    unfolding r using c
    by (auto simp: vals_None vals_Some dest: next_entry_least next_entry_SomeD split: option.split)
next
  case c: (Some ce)
  obtain kc vc where ce: "ce = (kc, vc)" by (cases ce)
  note cs = next_entry_SomeD [OF c [unfolded ce]]
  have cl: "key < k' \<Longrightarrow> k' < kc \<Longrightarrow> vals c k' = None" for k'
    using next_entry_least(2) [OF c [unfolded ce]] by (simp add: vals_None)
  show ?thesis
  proof (cases "next_entry key p")
    case None
    have r: "r = Some (kc, vc)" using n c ce None by (simp add: next_change_def)
    have pl: "key < k \<Longrightarrow> vals p k = None" for k using next_entry_least(1) [OF None] by (simp add: vals_None)
    show ?thesis using r cs cl pl by (simp add: vals_Some)
  next
    case p: (Some pe)
    obtain kp vp where pe: "pe = (kp, vp)" by (cases pe)
    note ps = next_entry_SomeD [OF p [unfolded pe]]
    have pl: "key < k' \<Longrightarrow> k' < kp \<Longrightarrow> vals p k' = None" for k'
      using next_entry_least(2) [OF p [unfolded pe]] by (simp add: vals_None)
    have r: "r = (if kc < kp then Some (kc, vc) else Some (kp, vp))"
      using n c ce p pe by (simp add: next_change_def)
    show ?thesis
    proof (cases "kc < kp")
      case True
      then have "vals p k' = None" if "key < k'" "k' < kc \<or> k' = kc" for k' using that pl [of k'] by auto
      then show ?thesis using r True cs cl by (simp add: vals_Some)
    next
      case False
      then have "vals c k' = None" if "key < k'" "k' < kp" for k' using that cl [of k'] by simp
      then show ?thesis using r False ps pl by (simp add: vals_Some)
    qed
  qed
qed

text \<open>Changes \<open>ch\<close> over a map: the changed keys answer first.\<close>

definition over :: "(bytes \<Rightarrow> bytes option option) \<Rightarrow> raw_storage \<Rightarrow> raw_storage" where
  "over ch m k = (case ch k of Some x \<Rightarrow> x | None \<Rightarrow> m k)"

text \<open>The four outcomes of one round of the search.\<close>

lemma next_merged:
  assumes nb: "next_key_ok m key nb"
    and none: "\<forall>k. key < k \<longrightarrow> ch k = None"
  shows "next_key_ok (over ch m) key nb"
  using assms by (cases nb) (auto simp: next_key_ok_def over_def)

lemma next_merged_change:
  assumes nb: "next_key_ok m key nb"
    and ch: "key < k" "ch k = Some w" "\<forall>k'. key < k' \<and> k' < k \<longrightarrow> ch k' = None"
  shows "nb = Some j \<Longrightarrow> j < k \<Longrightarrow> next_key_ok (over ch m) key (Some j)"
    and "nb = None \<or> nb = Some j \<and> \<not> j < k \<Longrightarrow> w \<noteq> None \<Longrightarrow> next_key_ok (over ch m) key (Some k)"
    and "nb = None \<or> nb = Some j \<and> \<not> j < k \<Longrightarrow> w = None \<Longrightarrow> next_key_ok (over ch m) k r
      \<Longrightarrow> next_key_ok (over ch m) key r"
proof -
  show "next_key_ok (over ch m) key (Some j)" if "nb = Some j" "j < k"
    using that nb ch by (auto simp: next_key_ok_def over_def)
  assume q: "nb = None \<or> nb = Some j \<and> \<not> j < k"
  then have m: "m k' = None" if "key < k'" "k' < k" for k'
    using that nb by (auto simp: next_key_ok_def)
  show "next_key_ok (over ch m) key (Some k)" if "w \<noteq> None"
    using that ch m by (auto simp: next_key_ok_def over_def)
  show "next_key_ok (over ch m) key r" if w: "w = None" and r: "next_key_ok (over ch m) k r"
  proof -
    have low: "over ch m k' = None" if "key < k'" "\<not> k < k'" for k'
      using that ch m w by (cases "k' = k") (auto simp: over_def)
    show ?thesis
    proof (cases r)
      case None
      then have "over ch m k' = None" if "key < k'" for k'
        using r low [OF that] by (cases "k < k'") (simp_all add: next_key_ok_def)
      then show ?thesis by (simp add: next_key_ok_def None)
    next
      case (Some l)
      then have l: "k < l" "over ch m l \<noteq> None" using r by (simp_all add: next_key_ok_def)
      have "over ch m k' = None" if "key < k'" "k' < l" for k'
        using r Some low [OF that(1)] that(2) by (cases "k < k'") (simp_all add: next_key_ok_def)
      then show ?thesis using l less_trans [OF ch(1) l(1)] by (simp add: next_key_ok_def Some)
    qed
  qed
qed

lemma ext_storage_over: "ext_storage b e = over (overlay_storage (overlay e)) (RBT.lookup (backend_map b None))"
  by (rule ext) (simp only: ext_storage_def over_def backend_storage_map)

lemma ext_child_storage_over:
  "ext_child_storage b e sk ci = over (overlay_child_storage (overlay e) sk) (RBT.lookup (backend_map b (Some (sk, ci))))"
  by (rule ext) (simp only: ext_child_storage_def over_def backend_child_storage_map)

lemma ext_next_storage_key_ok: "next_key_ok (ext_storage b e) key (ext_next_storage_key b e key)"
proof (induction b e key rule: ext_next_storage_key.induct)
  case (1 b e key)
  let ?nb = "backend_next_storage_key b key" and ?ch = "overlay_storage (overlay e)"
  have nb: "next_key_ok (RBT.lookup (backend_map b None)) key ?nb"
    by (simp add: backend_next_map next_entry_ok)
  note least = next_change_least [OF next_storage_key_change_def [symmetric], of key "overlay e",
      folded overlay_storage_vals]
  show ?case
  proof (cases "next_storage_key_change (overlay e) key")
    case None
    then have "\<forall>k. key < k \<longrightarrow> ?ch k = None" using least by simp
    then show ?thesis
      unfolding ext_next_storage_key.simps [of b e key] ext_storage_over using None next_merged [OF nb] by simp
  next
    case (Some c)
    obtain k v where c: "c = (k, v)" by (cases c)
    have ch: "key < k" "?ch k = Some (ov_value v)" "\<forall>k'. key < k' \<and> k' < k \<longrightarrow> ?ch k' = None"
      using least Some c by simp_all
    have rec: "next_key_ok (over ?ch (RBT.lookup (backend_map b None))) k (ext_next_storage_key b e k)"
      if "ov_value v = None" "?nb = None \<or> ?nb = Some j \<and> \<not> j < k" for j
      using "1.IH" [OF refl Some [unfolded c] refl] that by (auto simp: ext_storage_over)
    show ?thesis
      unfolding ext_next_storage_key.simps [of b e key] ext_storage_over
      using Some c next_merged_change [OF nb ch] rec by (cases ?nb) auto
  qed
qed

lemma ext_next_child_storage_key_ok:
  "next_key_ok (ext_child_storage b e sk ci) key (ext_next_child_storage_key b e sk ci key)"
proof (induction b e sk ci key rule: ext_next_child_storage_key.induct)
  case (1 b e sk ci key)
  let ?m = "RBT.lookup (backend_map b (Some (sk, ci)))"
  let ?nb = "backend_next_child_storage_key b sk ci key" and ?ch = "overlay_child_storage (overlay e) sk"
  have nb: "next_key_ok ?m key ?nb"
    by (simp add: backend_next_map next_entry_ok)
  note least = next_change_least [OF next_child_storage_key_change_def [unfolded next_child_entry_map, symmetric],
      of key "overlay e" sk, folded overlay_child_storage_vals]
  show ?case
  proof (cases "next_child_storage_key_change (overlay e) sk key")
    case None
    then have "\<forall>k. key < k \<longrightarrow> ?ch k = None" using least by simp
    then show ?thesis
      unfolding ext_next_child_storage_key.simps [of b e sk ci key] ext_child_storage_over
      using None next_merged [OF nb] by simp
  next
    case (Some c)
    obtain k v where c: "c = (k, v)" by (cases c)
    have ch: "key < k" "?ch k = Some (ov_value v)" "\<forall>k'. key < k' \<and> k' < k \<longrightarrow> ?ch k' = None"
      using least Some c by simp_all
    have rec: "next_key_ok (over ?ch ?m) k (ext_next_child_storage_key b e sk ci k)"
      if "ov_value v = None" "?nb = None \<or> ?nb = Some j \<and> \<not> j < k" for j
      using "1.IH" [OF refl Some [unfolded c] refl] that by (auto simp: ext_child_storage_over)
    show ?thesis
      unfolding ext_next_child_storage_key.simps [of b e sk ci key] ext_child_storage_over
      using Some c next_merged_change [OF nb ch] rec by (cases ?nb) auto
  qed
qed

section \<open>The plain map\<close>

lemma starts_with_simps [simp]:
  "starts_with [] k" "\<not> starts_with (a # p) []" "starts_with (a # p) (c # k) \<longleftrightarrow> a = c \<and> starts_with p k"
  by (auto simp: starts_with_def)

lemma starts_with_le: "starts_with p k \<Longrightarrow> p \<le> k"
proof (induction p arbitrary: k)
  case (Cons a p)
  then show ?case by (cases k) auto
qed simp

lemma starts_with_between: "starts_with p k' \<Longrightarrow> p \<le> k \<Longrightarrow> k \<le> k' \<Longrightarrow> starts_with p k"
proof (induction p arbitrary: k k')
  case (Cons a p)
  obtain c k1 where k: "k' = c # k1" using Cons.prems(1) by (cases k') auto
  obtain d k2 where k2: "k = d # k2" using Cons.prems(2) by (cases k) auto
  show ?case using Cons.prems Cons.IH [of k1 k2] by (auto simp: k k2)
qed simp

lemma takeWhile_sorted:
  assumes "sorted ks" and "\<And>k k'. P k' \<Longrightarrow> k \<in> set ks \<Longrightarrow> k \<le> k' \<Longrightarrow> P k"
  shows "set (takeWhile P ks) = {k \<in> set ks. P k}"
  using assms
proof (induction ks)
  case (Cons a ks)
  show ?case
  proof (cases "P a")
    case True
    have "set (takeWhile P ks) = {k \<in> set ks. P k}"
    proof (rule Cons.IH)
      show "sorted ks" using Cons.prems(1) by simp
      show "P k" if "P k'" "k \<in> set ks" "k \<le> k'" for k k'
        using Cons.prems(2) [OF that(1) _ that(3)] that(2) by simp
    qed
    then show ?thesis using True by auto
  next
    case False
    have "\<not> P k" if k: "k \<in> set ks" for k
    proof
      assume "P k"
      moreover have "a \<le> k" using Cons.prems(1) k by simp
      ultimately show False using Cons.prems(2) [of k a] False by simp
    qed
    then show ?thesis using False by auto
  qed
qed simp

lemma set_prefix_keys: "set (prefix_keys p t) = {k. RBT.lookup t k \<noteq> None \<and> starts_with p k}"
proof -
  have "set (takeWhile (starts_with p) (filter (\<lambda>k. p \<le> k) (RBT.keys t))) =
      {k \<in> set (filter (\<lambda>k. p \<le> k) (RBT.keys t)). starts_with p k}"
  proof (rule takeWhile_sorted)
    show "sorted (filter (\<lambda>k. p \<le> k) (RBT.keys t))" by (rule sorted_wrt_filter) (rule sorted_keys)
    show "starts_with p k" if "starts_with p k'" "k \<in> set (filter (\<lambda>k. p \<le> k) (RBT.keys t))" "k \<le> k'" for k k'
      using starts_with_between [OF that(1) _ that(3)] that(2) by simp
  qed
  then show ?thesis
    using starts_with_le [of p] lookup_None_keys [of t] by (auto simp: prefix_keys_def)
qed

lemma lookup_fold_delete: "RBT.lookup (fold RBT.delete ks t) k = (if k \<in> set ks then None else RBT.lookup t k)"
  by (induction ks arbitrary: t) auto

lemma lookup_remove_prefix: "RBT.lookup (fold RBT.delete (prefix_keys p t) t) = unhashed_kill_prefix p (RBT.lookup t)"
  by (auto simp: fun_eq_iff lookup_fold_delete set_prefix_keys unhashed_kill_prefix_def starts_with_def)

lemma basic_place_top:
  "basic_storage (basic_place_storage k v s) = (if is_child_storage_key k then basic_storage s else (basic_storage s)(k := v))"
  by (auto simp: fun_eq_iff basic_storage_def basic_place_storage_def split: option.split)

lemma basic_place_other:
  "basic_child_storage (basic_place_storage k v s) = basic_child_storage s"
  "basic_storage (basic_place_child_storage sk ci k v s) = basic_storage s"
  "basic_storage (basic_kill_child_storage sk ci s) = basic_storage s"
  "basic_storage (basic_clear_child_prefix sk ci p s) = basic_storage s"
  "basic_child_storage (basic_clear_prefix p s) = basic_child_storage s"
  by (auto simp: fun_eq_iff basic_storage_def basic_child_storage_def basic_place_storage_def basic_place_child_storage_def
        basic_kill_child_storage_def basic_clear_child_prefix_def basic_clear_prefix_def Let_def split: option.split)

lemma basic_place_child:
  "basic_child_storage (basic_place_child_storage sk ci k v s) s' ci' =
     (if s' = sk then (basic_child_storage s sk ci')(k := v) else basic_child_storage s s' ci')"
  by (auto simp: fun_eq_iff basic_child_storage_def basic_place_child_storage_def Let_def split: option.split)

lemma basic_kill_child:
  "basic_child_storage (basic_kill_child_storage sk ci s) s' ci' = (if s' = sk then Map.empty else basic_child_storage s s' ci')"
  by (auto simp: fun_eq_iff basic_child_storage_def basic_kill_child_storage_def split: option.split)

lemma basic_clear_top:
  "basic_storage (basic_clear_prefix p s) =
     (if is_child_storage_key p then basic_storage s else unhashed_kill_prefix p (basic_storage s))"
  by (simp add: basic_storage_def [abs_def] basic_clear_prefix_def lookup_remove_prefix)

lemma basic_clear_child:
  "basic_child_storage (basic_clear_child_prefix sk ci p s) s' ci' =
     (if s' = sk then unhashed_kill_prefix p (basic_child_storage s sk ci') else basic_child_storage s s' ci')"
  by (auto simp: fun_eq_iff basic_child_storage_def basic_clear_child_prefix_def lookup_remove_prefix
        unhashed_kill_prefix_def split: option.split)

lemma basic_next_ok:
  "next_key_ok (basic_storage s) key (basic_next_storage_key s key)"
  "next_key_ok (basic_child_storage s sk ci) key (basic_next_child_storage_key s sk ci key)"
proof -
  show "next_key_ok (basic_storage s) key (basic_next_storage_key s key)"
    using next_entry_ok [of "st_top s"] by (simp add: basic_storage_def [abs_def] basic_next_storage_key_def)
  show "next_key_ok (basic_child_storage s sk ci) key (basic_next_child_storage_key s sk ci key)"
    by (cases "RBT.lookup (st_children s) sk")
       (simp_all add: basic_child_storage_def [abs_def] basic_next_child_storage_key_def next_entry_ok,
        simp add: next_key_ok_def)
qed

end
