(* ===== verification/Externalities_Contract.thy ===== *)
theory Externalities_Contract
  imports Externalities_Laws
begin

text \<open>
  The contract of the \<open>Externalities\<close> trait as a locale, its client lemmas over sequences of operations, and
  its two implementations.  The specification works on the raw storage of \<open>frame/support\<close>, so it is
  what the storage generators of the runtime assume of the state below them.
\<close>

section \<open>Operations and their specification\<close>

datatype ext_op =
    Place bytes "bytes option"
  | PlaceChild bytes bytes "bytes option"
  | KillChild bytes
  | ClearPrefix bytes
  | ClearChildPrefix bytes bytes

text \<open>What the state contains: the top level, and the contents of each child.\<close>

type_synonym contents = "raw_storage \<times> (bytes \<Rightarrow> raw_storage)"

definition write_raw :: "bytes \<Rightarrow> bytes option \<Rightarrow> raw_storage \<Rightarrow> raw_storage" where
  "write_raw k v st = (case v of Some x \<Rightarrow> unhashed_put_raw k x st | None \<Rightarrow> unhashed_kill k st)"

lemma write_raw_update: "write_raw k v st = st(k := v)"
  by (simp add: write_raw_def unhashed_put_raw_def unhashed_kill_def split: option.split)

fun spec_op :: "ext_op \<Rightarrow> contents \<Rightarrow> contents" where
  "spec_op (Place k v) (t, c) = (if is_child_storage_key k then t else write_raw k v t, c)"
| "spec_op (PlaceChild sk k v) (t, c) = (t, c(sk := write_raw k v (c sk)))"
| "spec_op (KillChild sk) (t, c) = (t, c(sk := Map.empty))"
| "spec_op (ClearPrefix p) (t, c) = (if is_child_storage_key p then t else unhashed_kill_prefix p t, c)"
| "spec_op (ClearChildPrefix sk p) (t, c) = (t, c(sk := unhashed_kill_prefix p (c sk)))"

text \<open>The operation of an implementation.\<close>

fun op_with ::
  "(bytes \<Rightarrow> bytes option \<Rightarrow> 's \<Rightarrow> 's) \<Rightarrow> (bytes \<Rightarrow> bytes \<Rightarrow> bytes option \<Rightarrow> 's \<Rightarrow> 's) \<Rightarrow> (bytes \<Rightarrow> 's \<Rightarrow> 's)
    \<Rightarrow> (bytes \<Rightarrow> 's \<Rightarrow> 's) \<Rightarrow> (bytes \<Rightarrow> bytes \<Rightarrow> 's \<Rightarrow> 's) \<Rightarrow> ext_op \<Rightarrow> 's \<Rightarrow> 's" where
  "op_with place place_child kill clear clear_child (Place k v) s = place k v s"
| "op_with place place_child kill clear clear_child (PlaceChild sk k v) s = place_child sk k v s"
| "op_with place place_child kill clear clear_child (KillChild sk) s = kill sk s"
| "op_with place place_child kill clear clear_child (ClearPrefix p) s = clear p s"
| "op_with place place_child kill clear clear_child (ClearChildPrefix sk p) s = clear_child sk p s"

section \<open>The contract\<close>

locale externalities_impl =
  fixes top_of :: "'s \<Rightarrow> raw_storage"
    and child_of :: "'s \<Rightarrow> bytes \<Rightarrow> raw_storage"
    and place :: "bytes \<Rightarrow> bytes option \<Rightarrow> 's \<Rightarrow> 's"
    and place_child :: "bytes \<Rightarrow> bytes \<Rightarrow> bytes option \<Rightarrow> 's \<Rightarrow> 's"
    and kill_child :: "bytes \<Rightarrow> 's \<Rightarrow> 's"
    and clear :: "bytes \<Rightarrow> 's \<Rightarrow> 's"
    and clear_child :: "bytes \<Rightarrow> bytes \<Rightarrow> 's \<Rightarrow> 's"
    and next_key :: "'s \<Rightarrow> bytes \<Rightarrow> bytes option"
    and next_child_key :: "'s \<Rightarrow> bytes \<Rightarrow> bytes \<Rightarrow> bytes option"
  assumes place_top: "top_of (place k v s) = (if is_child_storage_key k then top_of s else (top_of s)(k := v))"
    and place_children: "child_of (place k v s) = child_of s"
    and place_child_top: "top_of (place_child sk k v s) = top_of s"
    and place_child_children: "child_of (place_child sk k v s) = (child_of s)(sk := (child_of s sk)(k := v))"
    and kill_child_top: "top_of (kill_child sk s) = top_of s"
    and kill_child_children: "child_of (kill_child sk s) = (child_of s)(sk := Map.empty)"
    and clear_top: "top_of (clear p s) = (if is_child_storage_key p then top_of s else unhashed_kill_prefix p (top_of s))"
    and clear_children: "child_of (clear p s) = child_of s"
    and clear_child_top: "top_of (clear_child sk p s) = top_of s"
    and clear_child_children: "child_of (clear_child sk p s) = (child_of s)(sk := unhashed_kill_prefix p (child_of s sk))"
    and next_key_least: "next_key_ok (top_of s) k (next_key s k)"
    and next_child_key_least: "next_key_ok (child_of s sk) k (next_child_key s sk k)"
begin

lemma op_refines:
  "(top_of (op_with place place_child kill_child clear clear_child x s),
    child_of (op_with place place_child kill_child clear clear_child x s)) = spec_op x (top_of s, child_of s)"
  by (cases x)
     (simp_all add: write_raw_update place_top place_children place_child_top place_child_children kill_child_top
        kill_child_children clear_top clear_children clear_child_top clear_child_children)

lemma run_refines:
  "(top_of (fold (op_with place place_child kill_child clear clear_child) xs s),
    child_of (fold (op_with place place_child kill_child clear clear_child) xs s)) = fold spec_op xs (top_of s, child_of s)"
proof (induction xs arbitrary: s)
  case (Cons x xs)
  show ?case by (simp add: Cons.IH op_refines)
qed simp

lemma next_key_determined:
  "top_of s = t \<Longrightarrow> next_key_ok t k r \<Longrightarrow> next_key s k = r"
  "child_of s sk = t \<Longrightarrow> next_key_ok t k r \<Longrightarrow> next_child_key s sk k = r"
  using next_key_ok_unique [OF next_key_least] next_key_ok_unique [OF next_child_key_least] by blast+

end

section \<open>Its implementations\<close>

definition ext_apply ::
  "'h hashing \<Rightarrow> in_memory \<Rightarrow> (bytes \<Rightarrow> owned_child_info) \<Rightarrow> ext_op \<Rightarrow> ('c, 'h) ext \<Rightarrow> ('c, 'h) ext" where
  "ext_apply H b ci_of =
     op_with (ext_place_storage H) (\<lambda>sk. ext_place_child_storage H sk (ci_of sk))
       (\<lambda>sk. ext_kill_child_storage H b sk (ci_of sk)) (ext_clear_prefix H b)
       (\<lambda>sk. ext_clear_child_prefix H b sk (ci_of sk))"

definition basic_apply :: "(bytes \<Rightarrow> owned_child_info) \<Rightarrow> ext_op \<Rightarrow> basic \<Rightarrow> basic" where
  "basic_apply ci_of =
     op_with basic_place_storage (\<lambda>sk. basic_place_child_storage sk (ci_of sk))
       (\<lambda>sk. basic_kill_child_storage sk (ci_of sk)) basic_clear_prefix
       (\<lambda>sk. basic_clear_child_prefix sk (ci_of sk))"

definition ext_child_view :: "in_memory \<Rightarrow> (bytes \<Rightarrow> owned_child_info) \<Rightarrow> ('c, 'h) ext \<Rightarrow> bytes \<Rightarrow> raw_storage" where
  "ext_child_view b ci_of e sk = ext_child_storage b e sk (ci_of sk)"

definition basic_child_view :: "(bytes \<Rightarrow> owned_child_info) \<Rightarrow> basic \<Rightarrow> bytes \<Rightarrow> raw_storage" where
  "basic_child_view ci_of s sk = basic_child_storage s sk (ci_of sk)"

interpretation ext_states: externalities_impl "ext_storage b" "ext_child_view b ci_of" "ext_place_storage H"
  "\<lambda>sk. ext_place_child_storage H sk (ci_of sk)" "\<lambda>sk. ext_kill_child_storage H b sk (ci_of sk)" "ext_clear_prefix H b"
  "\<lambda>sk. ext_clear_child_prefix H b sk (ci_of sk)" "ext_next_storage_key b"
  "\<lambda>e sk. ext_next_child_storage_key b e sk (ci_of sk)"
  for b :: in_memory and ci_of :: "bytes \<Rightarrow> owned_child_info" and H :: "'h hashing"
  by unfold_locales
     (auto simp: fun_eq_iff ext_child_view_def ext_place_top ext_place_other ext_place_child ext_kill_child ext_clear_top
        ext_clear_child ext_child_elsewhere ext_next_storage_key_ok ext_next_child_storage_key_ok ext_child_view_def [abs_def])

interpretation basic_states: externalities_impl basic_storage "basic_child_view ci_of" basic_place_storage
  "\<lambda>sk. basic_place_child_storage sk (ci_of sk)" "\<lambda>sk. basic_kill_child_storage sk (ci_of sk)" basic_clear_prefix
  "\<lambda>sk. basic_clear_child_prefix sk (ci_of sk)" basic_next_storage_key
  "\<lambda>s sk. basic_next_child_storage_key s sk (ci_of sk)"
  for ci_of :: "bytes \<Rightarrow> owned_child_info"
  by unfold_locales
     (auto simp: fun_eq_iff basic_child_view_def basic_place_top basic_place_other basic_place_child basic_kill_child
        basic_clear_top basic_clear_child basic_next_ok basic_child_view_def [abs_def])

end
