(* ===== verification/Externalities_Roots.thy ===== *)
theory Externalities_Roots
  imports Externalities_Contract
begin

text \<open>
  Roots and transactions of the changes over a backend: what the deltas amount to, what the transaction
  does to the backend, and that the cached transaction is always the one of the current changes.
\<close>

section \<open>Deltas\<close>

lemma apply_delta_append [simp]: "apply_delta (d @ d') m = apply_delta d' (apply_delta d m)"
  by (simp add: apply_delta_def)

lemma apply_delta_notin: "k \<notin> fst ` set d \<Longrightarrow> apply_delta d m k = m k"
  by (induction d arbitrary: m) (auto simp: apply_delta_def)

lemma apply_delta_map_of:
  assumes "distinct (map fst d)"
  shows "apply_delta d m k = (case map_of d k of Some x \<Rightarrow> x | None \<Rightarrow> m k)"
  using assms
proof (induction d arbitrary: m)
  case (Cons a d)
  obtain key v where a: "a = (key, v)" by (cases a)
  have step: "apply_delta (a # d) m = apply_delta d (m(key := v))" by (simp add: apply_delta_def a)
  have n: "map_of d key = None" using Cons.prems a by (simp add: map_of_eq_None_iff)
  show ?case unfolding step using Cons n a by (auto split: option.split)
qed (simp add: apply_delta_def)

lemma apply_change_values: "apply_delta (change_values t) m = over (vals t) m"
proof
  fix k
  have m: "map_of (map (\<lambda>(k, v). (k, ov_value v)) es) k = map_option ov_value (map_of es k)"
    for es :: "(bytes \<times> overlayed_value) list"
    by (induction es) auto
  have "distinct (map fst (change_values t))"
    by (simp add: change_values_def o_def case_prod_beta)
  then show "apply_delta (change_values t) m k = over (vals t) m k"
    by (simp add: apply_delta_map_of over_def change_values_def m vals_def)
qed

lemma over_over: "over c1 (over c2 m) = over (\<lambda>k. or_else (c1 k) (c2 k)) m"
  by (auto simp: fun_eq_iff over_def or_else_def split: option.split)

lemma over_idem [simp]: "over c (over c m) = over c m"
  by (auto simp: fun_eq_iff over_def split: option.split)

lemma entries_empty [simp]: "RBT.entries RBT.empty = []"
proof (rule ccontr)
  assume "RBT.entries RBT.empty \<noteq> ([] :: ('a \<times> 'b) list)"
  then obtain k v where "(k, v) \<in> set (RBT.entries (RBT.empty :: ('a, 'b) rbt))"
    by (cases "RBT.entries (RBT.empty :: ('a, 'b) rbt)") auto
  then show False by (simp flip: lookup_in_tree)
qed

lemma child_changes_map: "child_changes c sk = change_values (child_map c sk)"
  by (auto simp: child_changes_def child_map_def change_values_def split: option.split)

definition top_delta :: "'c overlayed_changes \<Rightarrow> delta" where
  "top_delta ov = change_values (ocs_top (committed ov)) @ change_values (ocs_top (prospective ov))"

definition child_delta :: "'c overlayed_changes \<Rightarrow> bytes \<Rightarrow> delta" where
  "child_delta ov sk = child_changes (committed ov) sk @ child_changes (prospective ov) sk"

lemma apply_top_delta: "apply_delta (top_delta ov) m = over (overlay_storage ov) m"
  unfolding top_delta_def apply_delta_append apply_change_values over_over overlay_storage_vals [abs_def] ..

lemma apply_child_delta: "apply_delta (child_delta ov sk) m = over (overlay_child_storage ov sk) m"
  unfolding child_delta_def child_changes_map apply_delta_append apply_change_values over_over
    overlay_child_storage_vals [abs_def] ..

section \<open>Updating the backend\<close>

lemma lookup_apply_changes: "RBT.lookup (fold apply_change d t) = apply_delta d (RBT.lookup t)"
proof (induction d arbitrary: t)
  case (Cons a d)
  have a: "RBT.lookup (apply_change a t) = (RBT.lookup t)(fst a := snd a)"
    by (simp add: apply_change_def split: option.split)
  have "apply_delta (a # d) (RBT.lookup t) = apply_delta d ((RBT.lookup t)(fst a := snd a))"
    by (simp only: apply_delta_def fold_Cons o_apply case_prod_beta)
  then show ?case by (simp only: fold_Cons o_apply Cons.IH a)
qed (simp add: apply_delta_def)

lemma in_memory_update_Cons:
  "in_memory_update ((i, d) # tx) b = in_memory_update tx (b(i \<mapsto> fold apply_change d (backend_map b i)))"
  by (simp add: in_memory_update_def)

lemma backend_map_upd: "backend_map (b(i \<mapsto> t)) j = (if j = i then t else backend_map b j)"
  by (simp add: backend_map_def)

text \<open>A part of the state is changed by the deltas the transaction has for it, in order.\<close>

lemma in_memory_update_part:
  "RBT.lookup (backend_map (in_memory_update tx b) i) =
     fold apply_delta (map snd (filter (\<lambda>x. fst x = i) tx)) (RBT.lookup (backend_map b i))"
proof (induction tx arbitrary: b)
  case (Cons a tx)
  obtain j d where a: "a = (j, d)" by (cases a)
  show ?case
    unfolding a in_memory_update_Cons Cons.IH backend_map_upd by (simp add: lookup_apply_changes)
qed (simp add: in_memory_update_def)

lemma fold_same_delta:
  assumes "set ds \<subseteq> {d}" and "ds \<noteq> []" and "\<And>m. apply_delta d (apply_delta d m) = apply_delta d m"
  shows "fold apply_delta ds m = apply_delta d m"
  using assms(1,2)
proof (induction ds arbitrary: m)
  case (Cons a ds)
  then show ?case using assms(3) by (cases "ds = []") auto
qed simp

section \<open>The transaction\<close>

definition child_infos_ok :: "(bytes \<Rightarrow> owned_child_info) \<Rightarrow> overlayed_change_set \<Rightarrow> bool" where
  "child_infos_ok ci_of c \<longleftrightarrow>
     (\<forall>sk e. RBT.lookup (ocs_children c) sk = Some e \<longrightarrow> snd e = ci_of sk \<and> is_child_trie_key_valid sk)"

definition overlay_ok :: "(bytes \<Rightarrow> owned_child_info) \<Rightarrow> 'c overlayed_changes \<Rightarrow> bool" where
  "overlay_ok ci_of ov \<longleftrightarrow> child_infos_ok ci_of (prospective ov) \<and> child_infos_ok ci_of (committed ov)"

definition touched :: "'c overlayed_changes \<Rightarrow> bytes list" where
  "touched ov = RBT.keys (ocs_children (prospective ov)) @ RBT.keys (ocs_children (committed ov))"

lemma touched_info:
  assumes "overlay_ok ci_of ov" and "sk \<in> set (touched ov)"
  shows "overlay_child_info ov sk = Some (ci_of sk)"
  using assms lookup_None_keys [of "ocs_children (prospective ov)" sk] lookup_None_keys [of "ocs_children (committed ov)" sk]
  by (fastforce simp: touched_def overlay_ok_def child_infos_ok_def overlay_child_info_def split: option.split)

lemma touched_valid:
  assumes "overlay_ok ci_of ov" and "sk \<in> set (touched ov)"
  shows "is_child_trie_key_valid sk"
  using assms lookup_None_keys [of "ocs_children (prospective ov)" sk] lookup_None_keys [of "ocs_children (committed ov)" sk]
  by (fastforce simp: touched_def overlay_ok_def child_infos_ok_def)

lemma untouched:
  assumes "sk \<notin> set (touched ov)"
  shows "overlay_child_storage ov sk k = None" and "overlay_child_info ov sk = None"
  using assms lookup_None_keys [of "ocs_children (prospective ov)" sk] lookup_None_keys [of "ocs_children (committed ov)" sk]
  by (auto simp: touched_def overlay_child_storage_vals child_map_def overlay_child_info_def)

lemma those_map_Some: "those (map (\<lambda>x. Some (f x)) xs) = Some (map f xs)"
  by (induction xs) auto

lemma child_deltas_ok:
  assumes "overlay_ok ci_of ov"
  shows "child_deltas ov = Some (map (\<lambda>sk. (sk, child_delta ov sk, ci_of sk)) (touched ov))"
proof -
  have "map (\<lambda>sk. map_option (\<lambda>ci. (sk, child_delta ov sk, ci)) (overlay_child_info ov sk)) (touched ov) =
      map (\<lambda>sk. Some (sk, child_delta ov sk, ci_of sk)) (touched ov)"
    using touched_info [OF assms] by simp
  then show ?thesis
    unfolding child_deltas_def child_delta_def [symmetric] touched_def [symmetric] by (simp only: those_map_Some)
qed

text \<open>The entry of a child at the top level, from its contents.\<close>

definition root_entry :: "'h hashing \<Rightarrow> bytes \<Rightarrow> raw_storage \<Rightarrow> bytes option" where
  "root_entry H sk m =
     (if child_trie_root H sk m = default_child_trie_root H sk then None else Some (enc_hash H (child_trie_root H sk m)))"

lemma child_roots_loop_result:
  "child_roots_loop H b cds txs roots =
     (txs @ map (\<lambda>(sk, d, ci). (Some (sk, ci), d)) cds,
      roots @ map (\<lambda>(sk, d, ci). (sk, root_entry H sk (apply_delta d (RBT.lookup (backend_map b (Some (sk, ci))))))) cds)"
proof (induction cds arbitrary: txs roots)
  case (Cons a cds)
  show ?case
    by (cases a) (simp add: Cons.IH backend_child_storage_root_def root_entry_def Let_def)
qed simp

text \<open>The transaction and the root of the current changes.\<close>

definition overlay_transaction ::
  "'h hashing \<Rightarrow> in_memory \<Rightarrow> (bytes \<Rightarrow> owned_child_info) \<Rightarrow> 'c overlayed_changes \<Rightarrow> transaction \<times> 'h" where
  "overlay_transaction H b ci_of ov =
     (let roots = map (\<lambda>sk. (sk, root_entry H sk (over (overlay_child_storage ov sk)
                   (RBT.lookup (backend_map b (Some (sk, ci_of sk))))))) (touched ov);
          d = top_delta ov @ roots
      in (map (\<lambda>sk. (Some (sk, ci_of sk), child_delta ov sk)) (touched ov) @ [(None, d)],
          trie_root H (apply_delta d (RBT.lookup (backend_map b None)))))"

lemma full_storage_root_result:
  "full_storage_root H b (top_delta ov) (map (\<lambda>sk. (sk, child_delta ov sk, ci_of sk)) (touched ov)) =
     (snd (overlay_transaction H b ci_of ov), fst (overlay_transaction H b ci_of ov))"
  by (simp add: full_storage_root_def child_roots_loop_result backend_storage_root_def overlay_transaction_def
        apply_child_delta Let_def o_def del: apply_delta_append)

lemma ext_storage_root_compute:
  assumes "overlay_ok ci_of (overlay e)" and "storage_transaction e = None"
  shows "ext_storage_root H b e =
    Some (enc_hash H (snd (overlay_transaction H b ci_of (overlay e))),
          e\<lparr>storage_transaction := Some (overlay_transaction H b ci_of (overlay e))\<rparr>)"
  by (simp add: ext_storage_root_def assms(2) child_deltas_ok [OF assms(1)]
        top_delta_def [symmetric] full_storage_root_result Let_def)

text \<open>What the transaction makes of the backend.\<close>

lemma filter_child_part:
  "map snd (filter (\<lambda>x. fst x = Some (sk, ci_of sk)) (map (\<lambda>sk. (Some (sk, ci_of sk), f sk)) ks @ [(None, d)])) =
     map f (filter (\<lambda>s. s = sk) ks)"
  by (induction ks) auto

lemma filter_top_part:
  "map snd (filter (\<lambda>x. fst x = None) (map (\<lambda>sk. (Some (sk, ci_of sk), f sk)) ks @ [(None, d)])) = [d]"
  by (induction ks) auto

lemma overlay_transaction_child:
  "backend_child_storage (in_memory_update (fst (overlay_transaction H b ci_of (overlay e))) b) sk (ci_of sk) =
     ext_child_view b ci_of e sk"
proof -
  let ?ov = "overlay e" and ?m = "RBT.lookup (backend_map b (Some (sk, ci_of sk)))"
  let ?ds = "map (child_delta ?ov) (filter (\<lambda>s. s = sk) (touched ?ov))"
  have "backend_child_storage (in_memory_update (fst (overlay_transaction H b ci_of ?ov)) b) sk (ci_of sk) =
      fold apply_delta ?ds ?m"
    by (simp only: backend_child_storage_map [abs_def] in_memory_update_part overlay_transaction_def Let_def fst_conv
          filter_child_part)
  also have "\<dots> = over (overlay_child_storage ?ov sk) ?m"
  proof (cases "sk \<in> set (touched ?ov)")
    case True
    then have "fold apply_delta ?ds ?m = apply_delta (child_delta ?ov sk) ?m"
      by (intro fold_same_delta) (auto simp: filter_empty_conv apply_child_delta)
    then show ?thesis by (simp only: apply_child_delta)
  next
    case False
    then have "filter (\<lambda>s. s = sk) (touched ?ov) = []" by (auto simp: filter_empty_conv)
    then show ?thesis using untouched(1) [OF False] by (simp add: over_def fun_eq_iff)
  qed
  also have "\<dots> = ext_child_view b ci_of e sk"
    by (simp only: ext_child_view_def [abs_def] ext_child_storage_over)
  finally show ?thesis .
qed

lemma apply_roots:
  "apply_delta (map (\<lambda>sk. (sk, f sk)) ks) m k = (if k \<in> set ks then f k else m k)"
proof (induction ks arbitrary: m)
  case (Cons a ks)
  have "apply_delta (map (\<lambda>sk. (sk, f sk)) (a # ks)) m = apply_delta (map (\<lambda>sk. (sk, f sk)) ks) (m(a := f a))"
    by (simp only: apply_delta_def list.map fold_Cons o_apply case_prod_beta fst_conv snd_conv)
  then show ?case by (simp only: Cons.IH) auto
qed (simp add: apply_delta_def)

lemma overlay_transaction_top:
  "backend_storage (in_memory_update (fst (overlay_transaction H b ci_of (overlay e))) b) k =
     (if k \<in> set (touched (overlay e)) then root_entry H k (ext_child_view b ci_of e k) else ext_storage b e k)"
  by (simp only: backend_storage_map in_memory_update_part overlay_transaction_def Let_def fst_conv filter_top_part
        fold.simps o_apply id_apply apply_delta_append apply_roots apply_top_delta ext_storage_over ext_child_view_def [abs_def]
        ext_child_storage_over)

lemma overlay_transaction_root:
  "snd (overlay_transaction H b ci_of ov) =
     trie_root H (backend_storage (in_memory_update (fst (overlay_transaction H b ci_of ov)) b))"
  by (simp only: backend_storage_map [abs_def] in_memory_update_part overlay_transaction_def Let_def fst_conv snd_conv
        filter_top_part fold.simps o_apply id_apply)

section \<open>The cache\<close>

text \<open>The cached transaction is the transaction of the current changes, and the children are known.\<close>

definition ext_ok :: "'h hashing \<Rightarrow> in_memory \<Rightarrow> (bytes \<Rightarrow> owned_child_info) \<Rightarrow> ('c, 'h) ext \<Rightarrow> bool" where
  "ext_ok H b ci_of e \<longleftrightarrow> overlay_ok ci_of (overlay e)
     \<and> (storage_transaction e = None \<or> storage_transaction e = Some (overlay_transaction H b ci_of (overlay e)))"

lemma child_infos_insert:
  "child_infos_ok ci_of c \<Longrightarrow> snd e = ci_of sk \<Longrightarrow> is_child_trie_key_valid sk
    \<Longrightarrow> child_infos_ok ci_of (c\<lparr>ocs_children := RBT.insert sk e (ocs_children c)\<rparr>)"
  by (auto simp: child_infos_ok_def)

lemma child_infos_top [simp]: "child_infos_ok ci_of (c\<lparr>ocs_top := t\<rparr>) = child_infos_ok ci_of c"
  by (simp add: child_infos_ok_def)

lemma snd_child_entry: "child_infos_ok ci_of c \<Longrightarrow> snd (child_entry sk (ci_of sk) c) = ci_of sk"
  by (simp add: child_entry_def child_infos_ok_def split: option.split)

lemma overlay_ok_write:
  assumes "overlay_ok ci_of ov"
  shows "overlay_ok ci_of (overlay_put dec k v ov)" and "overlay_ok ci_of (overlay_clear_prefix dec p ov)"
    and "is_child_trie_key_valid sk \<Longrightarrow> overlay_ok ci_of (set_child_storage dec sk (ci_of sk) k v ov)"
    and "is_child_trie_key_valid sk \<Longrightarrow> overlay_ok ci_of (clear_child_storage dec sk (ci_of sk) ov)"
    and "is_child_trie_key_valid sk \<Longrightarrow> overlay_ok ci_of (overlay_clear_child_prefix dec sk (ci_of sk) p ov)"
  using assms unfolding overlay_ok_def committed_write
  by (auto simp: overlay_put_def overlay_clear_prefix_def set_child_storage_def clear_child_storage_def
        overlay_clear_child_prefix_def Let_def case_prod_beta snd_child_entry intro!: child_infos_insert)

lemma overlay_ok_folds:
  assumes "overlay_ok ci_of ov"
  shows "overlay_ok ci_of (fold (\<lambda>key. overlay_put dec key None) ks ov)"
    and "is_child_trie_key_valid sk \<Longrightarrow> overlay_ok ci_of (fold (\<lambda>key. set_child_storage dec sk (ci_of sk) key None) ks ov)"
  using assms by (induction ks arbitrary: ov) (auto simp: overlay_ok_write)

text \<open>The storage key of a child is a value of the type \<open>ChildStorageKey\<close>, which only valid keys have.\<close>

fun op_valid :: "ext_op \<Rightarrow> bool" where
  "op_valid (Place k v) \<longleftrightarrow> True"
| "op_valid (PlaceChild sk k v) \<longleftrightarrow> is_child_trie_key_valid sk"
| "op_valid (KillChild sk) \<longleftrightarrow> is_child_trie_key_valid sk"
| "op_valid (ClearPrefix p) \<longleftrightarrow> True"
| "op_valid (ClearChildPrefix sk p) \<longleftrightarrow> is_child_trie_key_valid sk"

lemma ext_apply_ok:
  assumes "ext_ok H b ci_of e" and "op_valid x"
  shows "ext_ok H b ci_of (ext_apply H b ci_of x e)"
  using assms
  by (cases x)
     (auto simp: ext_ok_def ext_apply_def ext_place_storage_def ext_place_child_storage_def ext_kill_child_storage_def
        ext_clear_prefix_def ext_clear_child_prefix_def mark_dirty_def Let_def intro!: overlay_ok_write overlay_ok_folds)

datatype ext_request = Write ext_op | AskRoot | AskChildRoot bytes

fun call_valid :: "ext_request \<Rightarrow> bool" where
  "call_valid (Write x) = op_valid x"
| "call_valid AskRoot = True"
| "call_valid (AskChildRoot sk) = is_child_trie_key_valid sk"

fun ext_call :: "'h hashing \<Rightarrow> in_memory \<Rightarrow> (bytes \<Rightarrow> owned_child_info) \<Rightarrow> ext_request \<Rightarrow> ('c, 'h) ext \<Rightarrow> ('c, 'h) ext option" where
  "ext_call H b ci_of (Write x) e = Some (ext_apply H b ci_of x e)"
| "ext_call H b ci_of AskRoot e = map_option snd (ext_storage_root H b e)"
| "ext_call H b ci_of (AskChildRoot sk) e = Some (snd (ext_child_storage_root H b sk e))"

fun ext_calls ::
  "'h hashing \<Rightarrow> in_memory \<Rightarrow> (bytes \<Rightarrow> owned_child_info) \<Rightarrow> ext_request list \<Rightarrow> ('c, 'h) ext \<Rightarrow> ('c, 'h) ext option" where
  "ext_calls H b ci_of [] e = Some e"
| "ext_calls H b ci_of (x # xs) e =
     (case ext_call H b ci_of x e of None \<Rightarrow> None | Some e1 \<Rightarrow> ext_calls H b ci_of xs e1)"

lemma ext_storage_root_ok:
  assumes "ext_ok H b ci_of e"
  shows "ext_storage_root H b e =
    Some (enc_hash H (snd (overlay_transaction H b ci_of (overlay e))),
          e\<lparr>storage_transaction := Some (overlay_transaction H b ci_of (overlay e))\<rparr>)"
proof (cases "storage_transaction e")
  case None
  then show ?thesis using assms ext_storage_root_compute by (simp add: ext_ok_def)
next
  case (Some t)
  then have "storage_transaction e = Some (overlay_transaction H b ci_of (overlay e))"
    using assms by (simp add: ext_ok_def)
  then show ?thesis by (cases e) (simp add: ext_storage_root_def case_prod_beta)
qed

text \<open>A root query changes the view at most at the entry of a child.\<close>

lemma ext_child_storage_root_ok:
  assumes "ext_ok H b ci_of e"
  shows "ext_ok H b ci_of (snd (ext_child_storage_root H b sk e))"
    and "ext_child_view b ci_of (snd (ext_child_storage_root H b sk e)) = ext_child_view b ci_of e"
    and "k \<noteq> sk \<Longrightarrow> ext_storage b (snd (ext_child_storage_root H b sk e)) k = ext_storage b e k"
  using assms
  by (cases "storage_transaction e";
      auto simp: ext_child_storage_root_def ext_ok_def overlay_ok_write ext_child_view_def [abs_def]
        ext_child_storage_def [abs_def] ext_storage_def overlay_set_values Let_def case_prod_beta split: option.split)+

section \<open>Sequences of requests\<close>

fun writes :: "ext_request list \<Rightarrow> ext_op list" where
  "writes [] = []"
| "writes (Write x # xs) = x # writes xs"
| "writes (AskRoot # xs) = writes xs"
| "writes (AskChildRoot sk # xs) = writes xs"

lemma valid_is_child: "is_child_trie_key_valid sk \<Longrightarrow> is_child_storage_key sk"
proof -
  have "starts_with (p @ q) k \<Longrightarrow> starts_with p k" for p q k :: bytes
    by (induction p arbitrary: k) (simp, case_tac k, auto)
  moreover have "ascii '':child_storage:default:'' = ascii '':child_storage:'' @ ascii ''default:''"
    by (simp add: ascii_def)
  ultimately show "is_child_trie_key_valid sk \<Longrightarrow> is_child_storage_key sk"
    unfolding is_child_trie_key_valid_def is_child_storage_key_def child_storage_key_prefix_def by metis
qed

text \<open>Agreement on ordinary keys and on children: the entries of children hold roots.\<close>

definition agree :: "contents \<Rightarrow> contents \<Rightarrow> bool" where
  "agree v w \<longleftrightarrow> (\<forall>k. \<not> is_child_storage_key k \<longrightarrow> fst v k = fst w k) \<and> snd v = snd w"

lemma spec_op_agree: "agree v w \<Longrightarrow> agree (spec_op x v) (spec_op x w)"
  by (cases v; cases w; cases x) (auto simp: agree_def write_raw_update unhashed_kill_prefix_def)

lemma agree_refl: "agree v v"
  by (simp add: agree_def)

lemma agree_trans: "agree u v \<Longrightarrow> agree v w \<Longrightarrow> agree u w"
  by (simp add: agree_def)

definition view :: "in_memory \<Rightarrow> (bytes \<Rightarrow> owned_child_info) \<Rightarrow> ('c, 'h) ext \<Rightarrow> contents" where
  "view b ci_of e = (ext_storage b e, ext_child_view b ci_of e)"

lemma view_apply: "view b ci_of (ext_apply H b ci_of x e) = spec_op x (view b ci_of e)"
  unfolding view_def ext_apply_def by (rule ext_states.op_refines)

lemma view_same_overlay [simp]: "view b ci_of (e\<lparr>storage_transaction := t\<rparr>) = view b ci_of e"
  by (simp add: view_def ext_storage_def [abs_def] ext_child_view_def [abs_def] ext_child_storage_def [abs_def])

lemma ext_calls_ok:
  assumes "ext_ok H b ci_of e" and "list_all call_valid xs" and "agree (view b ci_of e) w"
  shows "\<exists>e'. ext_calls H b ci_of xs e = Some e' \<and> ext_ok H b ci_of e'
           \<and> agree (view b ci_of e') (fold spec_op (writes xs) w)"
  using assms
proof (induction xs arbitrary: e w)
  case (Cons x xs)
  have xs: "list_all call_valid xs" and x: "call_valid x" using Cons.prems(2) by simp_all
  show ?case
  proof (cases x)
    case (Write y)
    show ?thesis
      using Cons.IH [OF ext_apply_ok [OF Cons.prems(1)] xs] x spec_op_agree [OF Cons.prems(3)]
      by (simp add: Write view_apply)
  next
    case AskRoot
    have "ext_ok H b ci_of (e\<lparr>storage_transaction := Some (overlay_transaction H b ci_of (overlay e))\<rparr>)"
      using Cons.prems(1) by (simp add: ext_ok_def)
    then show ?thesis
      using Cons.IH [OF _ xs] Cons.prems(3) by (simp add: AskRoot ext_storage_root_ok [OF Cons.prems(1)])
  next
    case (AskChildRoot sk)
    let ?e = "snd (ext_child_storage_root H b sk e)"
    have "is_child_storage_key sk" using x AskChildRoot valid_is_child by simp
    then have "k \<noteq> sk" if "\<not> is_child_storage_key k" for k using that by auto
    then have "agree (view b ci_of ?e) (view b ci_of e)"
      using ext_child_storage_root_ok(2,3) [OF Cons.prems(1), where sk = sk] by (simp add: agree_def view_def)
    then have "agree (view b ci_of ?e) w" using Cons.prems(3) by (rule agree_trans)
    then show ?thesis
      using Cons.IH [OF ext_child_storage_root_ok(1) [OF Cons.prems(1)] xs] by (simp add: AskChildRoot)
  qed
qed simp

lemma ext_transaction_ok:
  assumes "ext_ok H b ci_of e"
  shows "ext_transaction H b e = Some (overlay_transaction H b ci_of (overlay e), e\<lparr>storage_transaction := None\<rparr>)"
  by (simp add: ext_transaction_def ext_storage_root_ok [OF assms])

lemma ext_new_ok: "overlay_ok ci_of ov \<Longrightarrow> ext_ok H b ci_of (ext_new ov)"
  by (simp add: ext_ok_def ext_new_def)

section \<open>The ends of a transaction\<close>

lemma committed_apply [simp]: "committed (overlay (ext_apply H b ci_of x e)) = committed (overlay e)"
  by (cases x)
     (simp_all add: ext_apply_def ext_place_storage_def ext_place_child_storage_def ext_kill_child_storage_def
        ext_clear_prefix_def ext_clear_child_prefix_def Let_def)

lemma committed_run [simp]: "committed (overlay (fold (ext_apply H b ci_of) xs e)) = committed (overlay e)"
  by (induction xs arbitrary: e) simp_all

lemma view_discard:
  "view b ci_of (e\<lparr>overlay := discard_prospective ov\<rparr>) =
     (over (vals (ocs_top (committed ov))) (RBT.lookup (backend_map b None)),
      \<lambda>sk. over (vals (child_map (committed ov) sk)) (RBT.lookup (backend_map b (Some (sk, ci_of sk)))))"
  by (simp add: view_def ext_storage_over ext_child_view_def [abs_def] ext_child_storage_over overlay_discard [abs_def])

lemma view_commit: "view b ci_of (e\<lparr>overlay := commit_prospective (overlay e)\<rparr>) = view b ci_of e"
  by (simp add: view_def ext_storage_def [abs_def] ext_child_view_def [abs_def] ext_child_storage_def [abs_def])

end
