(* ===== verification/State_Machine.thy ===== *)
theory State_Machine
  imports Externalities_Roots
begin

text \<open>
  Execution of a runtime call over the changes (\<open>primitives/state-machine/src/lib.rs\<close>): the execution
  strategies, the fallback from native code to Wasm, and the check of the changes-trie configuration.  The
  executor is the type parameter \<open>Exec\<close> of the state machine, here a function on the externalities that
  answers with a result and with whether native code ran.  A result is a native value or an encoded one
  (\<open>primitives/core/src/lib.rs\<close>), and the codec of its type is a parameter.  Changes-trie transactions and
  proofs are left out, and so is the abort guard, which only sets what a panic inside native code does.
\<close>

section \<open>Results\<close>

datatype 'r native_or_encoded = Native 'r | Encoded bytes

text \<open>Equality decodes an encoded value before it compares it with a native one.\<close>

fun native_or_encoded_eq :: "(bytes \<Rightarrow> 'r option) \<Rightarrow> 'r native_or_encoded \<Rightarrow> 'r native_or_encoded \<Rightarrow> bool" where
  "native_or_encoded_eq dec (Native l) (Native r) = (l = r)"
| "native_or_encoded_eq dec (Native n) (Encoded e) = (Some n = dec e)"
| "native_or_encoded_eq dec (Encoded e) (Native n) = (Some n = dec e)"
| "native_or_encoded_eq dec (Encoded l) (Encoded r) = (l = r)"

text \<open>\<open>into_encoded\<close> at the type \<open>NeverNativeValue\<close>, whose \<open>encode\<close> is \<open>unreachable!\<close>.\<close>

fun into_encoded_never :: "'r native_or_encoded \<Rightarrow> bytes option" where
  "into_encoded_never (Encoded e) = Some e"
| "into_encoded_never (Native n) = None"

section \<open>Strategies\<close>

datatype execution_strategy = NativeWhenPossible | AlwaysWasm | Both | NativeElseWasm

datatype backend_trust_level = Trusted | Untrusted

datatype 'f execution_manager =
    Manager_NativeWhenPossible
  | Manager_AlwaysWasm backend_trust_level
  | Manager_Both 'f
  | Manager_NativeElseWasm

type_synonym ('e, 'r) call_result = "'e + 'r native_or_encoded"
type_synonym ('e, 'r) failure_handler = "('e, 'r) call_result \<Rightarrow> ('e, 'r) call_result \<Rightarrow> ('e, 'r) call_result"

fun strategy_of :: "'f execution_manager \<Rightarrow> execution_strategy" where
  "strategy_of Manager_NativeWhenPossible = NativeWhenPossible"
| "strategy_of (Manager_AlwaysWasm _) = AlwaysWasm"
| "strategy_of Manager_NativeElseWasm = NativeElseWasm"
| "strategy_of (Manager_Both _) = Both"

fun get_manager :: "execution_strategy \<Rightarrow> ('e, 'r) failure_handler execution_manager" where
  "get_manager AlwaysWasm = Manager_AlwaysWasm Trusted"
| "get_manager NativeWhenPossible = Manager_NativeWhenPossible"
| "get_manager NativeElseWasm = Manager_NativeElseWasm"
| "get_manager Both = Manager_Both (\<lambda>wasm_result native_result. wasm_result)"

definition native_else_wasm :: "('e, 'r) failure_handler execution_manager" where
  "native_else_wasm = Manager_NativeElseWasm"

definition always_wasm :: "('e, 'r) failure_handler execution_manager" where
  "always_wasm = Manager_AlwaysWasm Trusted"

definition always_untrusted_wasm :: "('e, 'r) failure_handler execution_manager" where
  "always_untrusted_wasm = Manager_AlwaysWasm Untrusted"

section \<open>The configuration of changes tries\<close>

datatype config_error = Decode_failed | Change_unsupported

datatype 'e machine_error = Config_error config_error | Executor_error 'e

definition changes_trie_config_key :: bytes where
  "changes_trie_config_key = ascii '':changes_trie''"

definition try_read_overlay_value :: "'c overlayed_changes \<Rightarrow> in_memory \<Rightarrow> bytes \<Rightarrow> bytes option" where
  "try_read_overlay_value ov b key =
     (case overlay_storage ov key of Some v \<Rightarrow> v | None \<Rightarrow> backend_storage b key)"

definition overlay_set_config ::
  "(bytes \<Rightarrow> 'c option) \<Rightarrow> bytes option \<Rightarrow> bool \<Rightarrow> 'c overlayed_changes \<Rightarrow> (config_error + unit) \<times> 'c overlayed_changes" where
  "overlay_set_config dec_config config final_check ov =
     (case (case config of
              Some v \<Rightarrow> (case dec_config v of None \<Rightarrow> Inl Decode_failed | Some c \<Rightarrow> Inr (Some c))
            | None \<Rightarrow> Inr None) of
        Inl e \<Rightarrow> (Inl e, ov)
      | Inr config \<Rightarrow>
          if final_check \<and> (changes_trie_config ov \<noteq> None) \<noteq> (config \<noteq> None)
          then (Inl Change_unsupported, ov)
          else (case config of
                  None \<Rightarrow> (Inr (), ov)
                | Some c \<Rightarrow>
                    (case set_changes_trie_config c ov of
                       (False, ov1) \<Rightarrow> (Inl Change_unsupported, ov1)
                     | (True, ov1) \<Rightarrow> (Inr (), ov1))))"

definition init_overlay ::
  "(bytes \<Rightarrow> 'c option) \<Rightarrow> in_memory \<Rightarrow> bool \<Rightarrow> 'c overlayed_changes \<Rightarrow> (config_error + unit) \<times> 'c overlayed_changes" where
  "init_overlay dec_config b final_check ov =
     overlay_set_config dec_config (try_read_overlay_value ov b changes_trie_config_key) final_check ov"

section \<open>Execution\<close>

text \<open>Its first argument asks for native code, its second is the native call.\<close>

type_synonym ('c, 'h, 'n, 'e, 'r) executor =
  "bool \<Rightarrow> 'n option \<Rightarrow> ('c, 'h) ext \<Rightarrow> (('e, 'r) call_result \<times> bool) \<times> ('c, 'h) ext"

text \<open>\<open>None\<close> is a panic, that of a failed \<open>expect\<close> when the transaction is built.\<close>

definition execute_aux ::
  "'h hashing \<Rightarrow> in_memory \<Rightarrow> ('c, 'h, 'n, 'e, 'r) executor \<Rightarrow> bool \<Rightarrow> bool \<Rightarrow> 'n option \<Rightarrow> 'c overlayed_changes
    \<Rightarrow> ((('e, 'r) call_result \<times> bool \<times> (transaction \<times> 'h) option) \<times> 'c overlayed_changes) option" where
  "execute_aux H b exec compute_tx use_native native_call ov =
     (let ((result, was_native), e) = exec use_native native_call (ext_new ov)
      in if compute_tx
         then (case ext_transaction H b e of
                 None \<Rightarrow> None
               | Some (storage_delta, e1) \<Rightarrow> Some ((result, was_native, Some storage_delta), overlay e1))
         else Some ((result, was_native, None), overlay e))"

definition is_ok :: "'e + 'r \<Rightarrow> bool" where
  "is_ok r = (case r of Inl _ \<Rightarrow> False | Inr _ \<Rightarrow> True)"

definition execute_call_with_both_strategy ::
  "(bytes \<Rightarrow> 'r option) \<Rightarrow> 'h hashing \<Rightarrow> in_memory \<Rightarrow> ('c, 'h, 'n, 'e, 'r) executor \<Rightarrow> bool \<Rightarrow> 'n option \<Rightarrow> overlayed_change_set
    \<Rightarrow> ('e, 'r) failure_handler \<Rightarrow> 'c overlayed_changes
    \<Rightarrow> ((('e, 'r) call_result \<times> (transaction \<times> 'h) option) \<times> 'c overlayed_changes) option" where
  "execute_call_with_both_strategy dec_result H b exec compute_tx native_call orig_prospective on_consensus_failure ov =
     (case execute_aux H b exec compute_tx True native_call ov of
        None \<Rightarrow> None
      | Some ((result, was_native, storage_delta), ov1) \<Rightarrow>
          if was_native
          then (case execute_aux H b exec compute_tx False None (ov1\<lparr>prospective := orig_prospective\<rparr>) of
                  None \<Rightarrow> None
                | Some ((wasm_result, _, wasm_storage_delta), ov2) \<Rightarrow>
                    if is_ok result \<and> is_ok wasm_result \<and> native_or_encoded_eq dec_result (projr result) (projr wasm_result)
                       \<or> \<not> is_ok result \<and> \<not> is_ok wasm_result
                    then Some ((result, storage_delta), ov2)
                    else Some ((on_consensus_failure wasm_result result, wasm_storage_delta), ov2))
          else Some ((result, storage_delta), ov1))"

definition execute_call_with_native_else_wasm_strategy ::
  "'h hashing \<Rightarrow> in_memory \<Rightarrow> ('c, 'h, 'n, 'e, 'r) executor \<Rightarrow> bool \<Rightarrow> 'n option \<Rightarrow> overlayed_change_set
    \<Rightarrow> 'c overlayed_changes \<Rightarrow> ((('e, 'r) call_result \<times> (transaction \<times> 'h) option) \<times> 'c overlayed_changes) option" where
  "execute_call_with_native_else_wasm_strategy H b exec compute_tx native_call orig_prospective ov =
     (case execute_aux H b exec compute_tx True native_call ov of
        None \<Rightarrow> None
      | Some ((result, was_native, storage_delta), ov1) \<Rightarrow>
          if \<not> was_native \<or> is_ok result then Some ((result, storage_delta), ov1)
          else (case execute_aux H b exec compute_tx False None (ov1\<lparr>prospective := orig_prospective\<rparr>) of
                  None \<Rightarrow> None
                | Some ((wasm_result, _, wasm_storage_delta), ov2) \<Rightarrow> Some ((wasm_result, wasm_storage_delta), ov2)))"

definition execute_with_manager ::
  "(bytes \<Rightarrow> 'r option) \<Rightarrow> 'h hashing \<Rightarrow> in_memory \<Rightarrow> ('c, 'h, 'n, 'e, 'r) executor \<Rightarrow> ('e, 'r) failure_handler execution_manager \<Rightarrow> bool
    \<Rightarrow> 'n option \<Rightarrow> 'c overlayed_changes
    \<Rightarrow> ((('e, 'r) call_result \<times> (transaction \<times> 'h) option) \<times> 'c overlayed_changes) option" where
  "execute_with_manager dec_result H b exec manager compute_tx native_call ov =
     (let orig_prospective = prospective ov
      in case manager of
           Manager_Both on_consensus_failure \<Rightarrow>
             execute_call_with_both_strategy dec_result H b exec compute_tx native_call orig_prospective on_consensus_failure ov
         | Manager_NativeElseWasm \<Rightarrow>
             execute_call_with_native_else_wasm_strategy H b exec compute_tx native_call orig_prospective ov
         | Manager_AlwaysWasm trust_level \<Rightarrow>
             map_option (\<lambda>((result, _, storage_delta), ov1). ((result, storage_delta), ov1))
               (execute_aux H b exec compute_tx False native_call ov)
         | Manager_NativeWhenPossible \<Rightarrow>
             map_option (\<lambda>((result, _, storage_delta), ov1). ((result, storage_delta), ov1))
               (execute_aux H b exec compute_tx True native_call ov))"

definition execute_using_consensus_failure_handler ::
  "(bytes \<Rightarrow> 'c option) \<Rightarrow> (bytes \<Rightarrow> 'r option) \<Rightarrow> 'h hashing \<Rightarrow> in_memory \<Rightarrow> ('c, 'h, 'n, 'e, 'r) executor
    \<Rightarrow> ('e, 'r) failure_handler execution_manager \<Rightarrow> bool \<Rightarrow> 'n option \<Rightarrow> 'c overlayed_changes
    \<Rightarrow> (('e machine_error + 'r native_or_encoded \<times> (transaction \<times> 'h) option) \<times> 'c overlayed_changes) option" where
  "execute_using_consensus_failure_handler dec_config dec_result H b exec manager compute_tx native_call ov =
     (case init_overlay dec_config b False ov of
        (Inl e, ov1) \<Rightarrow> Some (Inl (Config_error e), ov1)
      | (Inr _, ov1) \<Rightarrow>
          (case execute_with_manager dec_result H b exec manager compute_tx native_call ov1 of
             None \<Rightarrow> None
           | Some ((Inl e, _), ov2) \<Rightarrow> Some (Inl (Executor_error e), ov2)
           | Some ((Inr out, storage_delta), ov2) \<Rightarrow>
               (case init_overlay dec_config b True ov2 of
                  (Inl e, ov3) \<Rightarrow> Some (Inl (Config_error e), ov3)
                | (Inr _, ov3) \<Rightarrow> Some (Inr (out, storage_delta), ov3))))"

definition execute ::
  "(bytes \<Rightarrow> 'c option) \<Rightarrow> (bytes \<Rightarrow> 'r option) \<Rightarrow> 'h hashing \<Rightarrow> in_memory \<Rightarrow> ('c, 'h, 'n, 'e, 'r) executor
    \<Rightarrow> execution_strategy \<Rightarrow> 'c overlayed_changes
    \<Rightarrow> (('e machine_error + bytes \<times> transaction \<times> 'h) \<times> 'c overlayed_changes) option" where
  "execute dec_config dec_result H b exec strategy ov =
     (case execute_using_consensus_failure_handler dec_config dec_result H b exec (get_manager strategy) True None ov of
        None \<Rightarrow> None
      | Some (Inl e, ov1) \<Rightarrow> Some (Inl e, ov1)
      | Some (Inr (result, storage_tx), ov1) \<Rightarrow>
          (case into_encoded_never result of
             None \<Rightarrow> None
           | Some out \<Rightarrow> (case storage_tx of None \<Rightarrow> None | Some tx \<Rightarrow> Some (Inr (out, tx), ov1))))"

end
