(* ===== verification/Externalities_Properties.thy ===== *)
theory Externalities_Properties
  imports Externalities_Roots
begin

text \<open>
  Properties of the state a runtime call sees: it refines the raw storage, its two implementations agree,
  transactions roll back and commit, and three places where a root or a hash is not that of the contents.
\<close>

section \<open>Concrete data for the witnesses\<close>

definition demo_hashing :: "bytes hashing" where
  "demo_hashing = \<lparr>hash_value = \<lambda>v. 7 # v, trie_root = \<lambda>m. (case m [1] of Some v \<Rightarrow> v | None \<Rightarrow> []),
     child_trie_root = \<lambda>sk m. (case m [1] of Some v \<Rightarrow> 9 # v | None \<Rightarrow> []), default_child_trie_root = \<lambda>sk. [],
     enc_hash = id, dec_hash = Some, dec_index = \<lambda>_. None\<rparr>"

definition demo_child :: bytes where
  "demo_child = ascii '':child_storage:default:1''"

definition demo_info :: "bytes \<Rightarrow> owned_child_info" where
  "demo_info sk = DefaultChild sk"

definition demo_storage :: storage where
  "demo_storage = \<lparr>st_top = RBT.insert [1] [10] RBT.empty,
     st_children = RBT.insert demo_child \<lparr>sc_data = RBT.insert [2] [20] RBT.empty, sc_child_info = demo_info demo_child\<rparr> RBT.empty\<rparr>"

definition overlay_empty :: "unit overlayed_changes" where
  "overlay_empty = \<lparr>prospective = change_set_empty, committed = change_set_empty, changes_trie_config = None\<rparr>"

lemma demo_child_valid: "is_child_trie_key_valid demo_child"
  by (simp add: is_child_trie_key_valid_def starts_with_def demo_child_def ascii_def)

lemma overlay_empty_ok: "overlay_ok ci_of overlay_empty"
  by (simp add: overlay_ok_def child_infos_ok_def overlay_empty_def change_set_empty_def)

section \<open>Reads and writes\<close>

lemma children_of_storage:
  assumes "distinct (map fst es)"
  shows "fold (\<lambda>(k, c) inner. inner(Some (k, sc_child_info c) \<mapsto> sc_data c)) es m (Some (sk, ci)) =
    (case map_of es sk of
       Some c \<Rightarrow> if sc_child_info c = ci then Some (sc_data c) else m (Some (sk, ci))
     | None \<Rightarrow> m (Some (sk, ci)))"
  using assms
proof (induction es arbitrary: m)
  case (Cons a es)
  obtain k c where a: "a = (k, c)" by (cases a)
  have d: "distinct (map fst es)" and n: "map_of es k = None"
    using Cons.prems a by (auto simp: map_of_eq_None_iff)
  show ?case
    unfolding a fold_Cons o_apply prod.case Cons.IH [OF d] using n by (auto split: option.split)
qed simp

lemma view_of_storage:
  assumes "\<forall>sk c. RBT.lookup (st_children s) sk = Some c \<longrightarrow> sc_child_info c = ci_of sk" and "overlay_is_empty ov"
  shows "view (in_memory_of_storage s) ci_of (ext_new ov) = (basic_storage s, basic_child_view ci_of s)"
proof -
  have ov: "overlay_storage ov k = None" "overlay_child_storage ov sk k = None" for sk k
    using assms(2) change_set_is_emptyD [of "prospective ov"] change_set_is_emptyD [of "committed ov"]
    by (simp_all add: overlay_is_empty_def overlay_vals)
  have "backend_child_storage (in_memory_of_storage s) sk (ci_of sk) k = basic_child_storage s sk (ci_of sk) k" for sk k
    using assms(1)
    by (simp add: backend_child_storage_def in_memory_of_storage_def children_of_storage basic_child_storage_def
          split: option.split)
  then show ?thesis
    by (simp add: view_def ext_storage_def [abs_def] ext_child_view_def [abs_def] ext_child_storage_def [abs_def]
          ext_new_def ov backend_storage_def in_memory_of_storage_def basic_storage_def [abs_def] basic_child_view_def [abs_def])
qed

lemma ext_exists_iff: "ext_exists_storage b e k \<longleftrightarrow> ext_storage b e k \<noteq> None"
  by (simp add: ext_exists_storage_def ext_storage_def backend_exists_storage_def backend_storage_def split: option.split)

text \<open>
  C8 (ext_refines_raw_storage): whatever writes follow each other, the changes over a backend answer every
  read, at the top level and in the children, as the raw storage with the same puts, removals and removals by
  prefix; the only writes they refuse are those to keys of child storages at the top level.
\<close>

theorem ext_refines_raw_storage:
  "(ext_storage b (fold (ext_apply H b ci_of) xs e), ext_child_view b ci_of (fold (ext_apply H b ci_of) xs e)) =
     fold spec_op xs (ext_storage b e, ext_child_view b ci_of e)"
  unfolding ext_apply_def by (rule ext_states.run_refines)

text \<open>
  C35 (ext_next_key_least): the search for the next key ends and gives the least present key above the given one,
  over the backend, the committed and the prospective changes, removed keys skipped; it gives nothing
  exactly when no larger key is present.
\<close>

theorem ext_next_key_least:
  "next_key_ok (ext_storage b e) key (ext_next_storage_key b e key)
   \<and> next_key_ok (ext_child_storage b e sk ci) key (ext_next_child_storage_key b e sk ci key)"
  using ext_next_storage_key_ok ext_next_child_storage_key_ok by blast

text \<open>
  C34 (ext_agrees_with_basic): started on the same contents, the changes over an in-memory backend and the plain map
  answer alike after any sequence of writes: values, values of children, existence, and the next keys.
\<close>

theorem ext_agrees_with_basic:
  fixes e :: "('c, 'h) ext"
  assumes "\<forall>sk c. RBT.lookup (st_children s) sk = Some c \<longrightarrow> sc_child_info c = ci_of sk"
    and "overlay_is_empty ov"
    and "e = fold (ext_apply H b ci_of) xs (ext_new ov)" and "b = in_memory_of_storage s"
    and "m = fold (basic_apply ci_of) xs s"
  shows "ext_storage b e k = basic_storage m k
    \<and> ext_child_storage b e sk (ci_of sk) k = basic_child_storage m sk (ci_of sk) k
    \<and> ext_exists_storage b e k = (basic_storage m k \<noteq> None)
    \<and> ext_next_storage_key b e k = basic_next_storage_key m k
    \<and> ext_next_child_storage_key b e sk (ci_of sk) k = basic_next_child_storage_key m sk (ci_of sk) k"
proof -
  have "view b ci_of e = fold spec_op xs (view b ci_of (ext_new ov :: ('c, 'h) ext))"
    unfolding view_def assms(3) ext_apply_def by (rule ext_states.run_refines)
  also have "\<dots> = fold spec_op xs (basic_storage s, basic_child_view ci_of s)"
    by (simp add: view_of_storage [OF assms(1,2)] assms(4))
  also have "\<dots> = (basic_storage m, basic_child_view ci_of m)"
    unfolding assms(5) basic_apply_def by (rule basic_states.run_refines [symmetric])
  finally have top: "ext_storage b e = basic_storage m" and child: "ext_child_view b ci_of e = basic_child_view ci_of m"
    by (simp_all add: view_def)
  have ch: "ext_child_storage b e sk (ci_of sk) = basic_child_storage m sk (ci_of sk)"
    using fun_cong [OF child, of sk] by (simp add: ext_child_view_def basic_child_view_def)
  have "ext_next_storage_key b e k = basic_next_storage_key m k"
    by (rule ext_states.next_key_determined(1) [OF top]) (rule basic_next_ok)
  moreover have "ext_next_child_storage_key b e sk (ci_of sk) k = basic_next_child_storage_key m sk (ci_of sk) k"
    by (rule next_key_ok_unique [OF ext_next_child_storage_key_ok]) (simp add: ch basic_next_ok)
  ultimately show ?thesis using top ch by (simp add: ext_exists_iff)
qed

theorem ext_agrees_with_basic_witness:
  "ext_next_storage_key (in_memory_of_storage demo_storage)
     (fold (ext_apply demo_hashing (in_memory_of_storage demo_storage) demo_info)
        [Place [3] (Some [30]), ClearPrefix [1], KillChild demo_child] (ext_new overlay_empty)) [] = Some [3]"
proof -
  let ?xs = "[Place [3] (Some [30]), ClearPrefix [1], KillChild demo_child]"
  have info: "\<forall>sk c. RBT.lookup (st_children demo_storage) sk = Some c \<longrightarrow> sc_child_info c = demo_info sk"
    by (simp add: demo_storage_def)
  have emp: "overlay_is_empty overlay_empty"
    by (simp add: overlay_is_empty_def overlay_empty_def change_set_empty_def change_set_is_empty_def)
  have "basic_next_storage_key (fold (basic_apply demo_info) ?xs demo_storage) [] = Some [3]"
    by code_simp
  then show ?thesis using ext_agrees_with_basic [OF info emp refl refl refl, of demo_hashing ?xs "[]"] by simp
qed

section \<open>Transactions\<close>

lemma committed_commit:
  "vals (ocs_top (committed (commit_prospective ov))) = overlay_storage ov"
  "vals (child_map (committed (commit_prospective ov)) sk) = overlay_child_storage ov sk"
  by (simp_all add: fun_eq_iff vals_committed_commit)

text \<open>
  C11 (discard_rolls_back): committing the prospective changes does not change any read; whatever writes follow,
  discarding them afterwards brings back every read, at the top level and in the children.
\<close>

theorem discard_rolls_back:
  "let e1 = e\<lparr>overlay := commit_prospective (overlay e)\<rparr>;
       e2 = fold (ext_apply H b ci_of) xs e1;
       e3 = e2\<lparr>overlay := discard_prospective (overlay e2)\<rparr>
   in (ext_storage b e1, ext_child_view b ci_of e1) = (ext_storage b e, ext_child_view b ci_of e)
    \<and> (ext_storage b e3, ext_child_view b ci_of e3) = (ext_storage b e, ext_child_view b ci_of e)"
proof -
  let ?e1 = "e\<lparr>overlay := commit_prospective (overlay e)\<rparr>"
  let ?e2 = "fold (ext_apply H b ci_of) xs ?e1"
  have "view b ci_of (?e2\<lparr>overlay := discard_prospective (overlay ?e2)\<rparr>) = view b ci_of e"
    unfolding view_discard committed_run
    by (simp add: view_def ext_storage_over ext_child_view_def [abs_def] ext_child_storage_over committed_commit)
  then show ?thesis using view_commit [of b ci_of e] by (simp add: view_def Let_def)
qed

text \<open>
  C2 (transaction_commits): from any overlay with known children, whatever writes and root queries follow, no \<open>expect\<close>
  fails; the transaction, applied to the backend, leaves in it what the raw storage has after the same
  writes, at every ordinary key and in every child; the entry of each changed child is the root of its
  contents, or missing when that is the empty root; and the root returned is the root of the new top level.
\<close>

theorem transaction_commits:
  fixes H :: "'h hashing" and ov :: "'c overlayed_changes"
  assumes "overlay_ok ci_of ov" and "list_all call_valid xs"
  shows "\<exists>e tx root e1 b' t c.
      ext_calls H b ci_of xs (ext_new ov) = Some e \<and> ext_transaction H b e = Some ((tx, root), e1)
    \<and> b' = in_memory_update tx b
    \<and> (t, c) = fold spec_op (writes xs) (view b ci_of (ext_new ov :: ('c, 'h) ext))
    \<and> (\<forall>k. \<not> is_child_storage_key k \<longrightarrow> backend_storage b' k = t k)
    \<and> (\<forall>sk. backend_child_storage b' sk (ci_of sk) = c sk)
    \<and> (\<forall>sk \<in> set (touched (overlay e)). backend_storage b' sk = root_entry H sk (c sk))
    \<and> root = trie_root H (backend_storage b')"
proof -
  let ?e0 = "ext_new ov :: ('c, 'h) ext"
  obtain e where e: "ext_calls H b ci_of xs ?e0 = Some e" "ext_ok H b ci_of e"
      "agree (view b ci_of e) (fold spec_op (writes xs) (view b ci_of ?e0))"
    using ext_calls_ok [OF ext_new_ok [OF assms(1)] assms(2) agree_refl, of H b] by blast
  let ?T = "overlay_transaction H b ci_of (overlay e)"
  let ?b = "in_memory_update (fst ?T) b"
  obtain t c where w: "(t, c) = fold spec_op (writes xs) (view b ci_of ?e0)"
    by (cases "fold spec_op (writes xs) (view b ci_of ?e0)") simp
  have t: "\<not> is_child_storage_key k \<Longrightarrow> ext_storage b e k = t k" and c: "ext_child_view b ci_of e = c" for k
    using e(3) [folded w] by (simp_all add: agree_def view_def [of _ _ e])
  have touched: "is_child_storage_key sk" if "sk \<in> set (touched (overlay e))" for sk
    using touched_valid [OF _ that] e(2) valid_is_child by (auto simp: ext_ok_def)
  have 1: "\<not> is_child_storage_key k \<Longrightarrow> backend_storage ?b k = t k" for k
    using touched [of k] t [of k] by (auto simp: overlay_transaction_top)
  have 2: "backend_child_storage ?b sk (ci_of sk) = c sk" for sk
    using c by (simp add: overlay_transaction_child)
  have 3: "backend_storage ?b sk = root_entry H sk (c sk)" if "sk \<in> set (touched (overlay e))" for sk
    using that c by (simp add: overlay_transaction_top)
  have 4: "ext_transaction H b e = Some ((fst ?T, snd ?T), e\<lparr>storage_transaction := None\<rparr>)"
    by (simp add: ext_transaction_ok [OF e(2)])
  show ?thesis
    by (rule exI [of _ e], rule exI [of _ "fst ?T"], rule exI [of _ "snd ?T"], rule exI, rule exI [of _ ?b],
        rule exI [of _ t], rule exI [of _ c])
       (intro conjI allI impI ballI, rule e(1), rule 4, rule refl, rule w, erule 1, rule 2, erule 3,
        rule overlay_transaction_root)
qed

theorem transaction_commits_witness:
  "\<exists>e tx root e1.
      ext_calls demo_hashing Map.empty demo_info [Write (PlaceChild demo_child [1] (Some [5])), AskRoot]
        (ext_new overlay_empty) = Some e
    \<and> ext_transaction demo_hashing Map.empty e = Some ((tx, root), e1)
    \<and> backend_child_storage (in_memory_update tx Map.empty) demo_child (demo_info demo_child) [1] = Some [5]"
proof -
  let ?xs = "[Write (PlaceChild demo_child [1] (Some [5])), AskRoot]"
  have v: "list_all call_valid ?xs" using demo_child_valid by simp
  have "snd (fold spec_op (writes ?xs) w) demo_child [1] = Some [5]" for w
    by (cases w) (simp add: write_raw_update)
  then show ?thesis
    using transaction_commits [OF overlay_empty_ok v, of demo_hashing Map.empty]
    by (metis snd_conv)
qed

text \<open>
  After any writes and root queries the cached transaction and root are those that would be
  computed from the current changes.
\<close>

theorem cached_root_current:
  assumes "overlay_ok ci_of ov" and "list_all call_valid xs"
    and "ext_calls H b ci_of xs (ext_new ov) = Some e" and "storage_transaction e = Some t"
  shows "\<exists>r. ext_storage_root H b (mark_dirty e) = Some (r, e)"
proof -
  obtain e' where "ext_calls H b ci_of xs (ext_new ov) = Some e'" "ext_ok H b ci_of e'"
    using ext_calls_ok [OF ext_new_ok [OF assms(1)] assms(2) agree_refl, of H b] by blast
  then have ok: "ext_ok H b ci_of e" using assms(3) by simp
  then have "ext_ok H b ci_of (mark_dirty e)" by (simp add: ext_ok_def mark_dirty_def)
  from ext_storage_root_ok [OF this] show ?thesis
    using ok assms(4) by (cases e) (simp add: ext_ok_def mark_dirty_def)
qed

theorem cached_root_current_witness:
  "\<exists>e r. ext_calls demo_hashing Map.empty demo_info [Write (Place [1] (Some [5])), AskRoot] (ext_new overlay_empty) = Some e
     \<and> ext_storage_root demo_hashing Map.empty (mark_dirty e) = Some (r, e)"
proof -
  let ?xs = "[Write (Place [1] (Some [5])), AskRoot]"
  let ?e = "the (ext_calls demo_hashing Map.empty demo_info ?xs (ext_new overlay_empty))"
  have v: "list_all call_valid ?xs" by simp
  have "\<not> Option.is_none (ext_calls demo_hashing Map.empty demo_info ?xs (ext_new overlay_empty))"
    and s: "storage_transaction ?e = Some (the (storage_transaction ?e))"
    by code_simp+
  then have e: "ext_calls demo_hashing Map.empty demo_info ?xs (ext_new overlay_empty) = Some ?e"
    by (simp add: Option.is_none_def)
  show ?thesis using cached_root_current [OF overlay_empty_ok v e s] e by blast
qed

section \<open>Roots and hashes that are not those of the contents\<close>

text \<open>
  C36 (child_root_stale): the root of a changed child depends on the order of the queries.  Asked for before the root of
  the state, it is the root of the contents of the child; asked for after it, it is the entry the top
  level has for the child, which the query for the root of the state does not update.
\<close>

theorem child_root_stale:
  assumes "overlay_ok ci_of (overlay e)" and "storage_transaction e = None" and "overlay_child_info (overlay e) sk \<noteq> None"
  shows "fst (ext_child_storage_root H b sk e) = enc_hash H (child_trie_root H sk (ext_child_view b ci_of e sk))
    \<and> (\<exists>r e1. ext_storage_root H b e = Some (r, e1)
          \<and> fst (ext_child_storage_root H b sk e1) = stored_child_root H b e sk)"
proof -
  have "sk \<in> set (touched (overlay e))" using untouched(2) [of sk "overlay e"] assms(3) by blast
  then have i: "overlay_child_info (overlay e) sk = Some (ci_of sk)" by (rule touched_info [OF assms(1)])
  have "fst (ext_child_storage_root H b sk e) = enc_hash H (child_trie_root H sk (ext_child_view b ci_of e sk))"
    using assms(2) i
    by (simp add: ext_child_storage_root_def backend_child_storage_root_def Let_def child_delta_def [symmetric]
          apply_child_delta ext_child_view_def ext_child_storage_over del: apply_delta_append)
  then show ?thesis
    using ext_storage_root_compute [OF assms(1,2), of H b]
    by (simp add: ext_child_storage_root_def stored_child_root_def ext_storage_def)
qed

theorem child_root_stale_witness:
  "\<exists>e r e1. ext_calls demo_hashing Map.empty demo_info [Write (PlaceChild demo_child [1] (Some [5]))] (ext_new overlay_empty) = Some e
     \<and> ext_storage_root demo_hashing Map.empty e = Some (r, e1)
     \<and> fst (ext_child_storage_root demo_hashing Map.empty demo_child e) = [9, 5]
     \<and> fst (ext_child_storage_root demo_hashing Map.empty demo_child e1) = []"
proof -
  let ?e = "ext_apply demo_hashing Map.empty demo_info (PlaceChild demo_child [1] (Some [5])) (ext_new overlay_empty)"
  have ok: "overlay_ok demo_info (overlay ?e)"
    using ext_apply_ok [OF ext_new_ok [OF overlay_empty_ok], of "PlaceChild demo_child [1] (Some [5])" demo_hashing Map.empty demo_info] demo_child_valid
    by (simp add: ext_ok_def)
  have st: "storage_transaction ?e = None" and info: "overlay_child_info (overlay ?e) demo_child \<noteq> None"
    by code_simp+
  have "enc_hash demo_hashing (child_trie_root demo_hashing demo_child (ext_child_view Map.empty demo_info ?e demo_child)) = [9, 5]"
    "stored_child_root demo_hashing Map.empty ?e demo_child = []"
    by code_simp+
  then show ?thesis using child_root_stale [OF ok st info, of demo_hashing Map.empty] by auto
qed

text \<open>
  The hash of a child value that no change covers is taken from the top level, not from the child.
\<close>

theorem child_hash_of_top:
  assumes "overlay_child_storage (overlay e) sk k = None"
  shows "ext_child_storage_hash H b e sk ci k = map_option (\<lambda>v. enc_hash H (hash_value H v)) (backend_storage b k)
    \<and> ext_child_storage b e sk ci k = backend_child_storage b sk ci k"
  using assms
  by (simp add: ext_child_storage_hash_def ext_child_storage_def backend_storage_hash_def option.map_comp o_def)

theorem child_hash_of_top_witness:
  "let b = in_memory_of_storage demo_storage; e = ext_new overlay_empty
   in ext_child_storage b e demo_child (demo_info demo_child) [2] = Some [20]
    \<and> ext_child_storage_hash demo_hashing b e demo_child (demo_info demo_child) [2] = None
    \<and> ext_child_storage_hash demo_hashing b e demo_child (demo_info demo_child) [1] = Some [7, 10]"
proof -
  let ?b = "in_memory_of_storage demo_storage" and ?e = "ext_new overlay_empty :: (unit, bytes) ext"
  have n: "overlay_child_storage (overlay ?e) demo_child k = None" for k
    by (simp add: ext_new_def overlay_vals overlay_empty_def)
  have "backend_storage ?b [2] = None" "backend_storage ?b [1] = Some [10]"
    "backend_child_storage ?b demo_child (demo_info demo_child) [2] = Some [20]"
    by code_simp+
  then show ?thesis
    using child_hash_of_top [OF n, where H = demo_hashing and b = ?b and ci = "demo_info demo_child"]
    by (simp add: Let_def demo_hashing_def)
qed

text \<open>
  The root of the plain map is the root of its top level as stored: whatever the
  children contain, it is the same, though the loop before has worked out the top level with their roots.
\<close>

theorem basic_root_ignores_children:
  assumes "\<forall>sk \<in> set (RBT.keys (st_children s)). is_child_trie_key_valid sk"
  shows "basic_storage_root H s = Some (enc_hash H (trie_root H (basic_storage s)))"
proof -
  have "basic_top_with_roots H s ks t \<noteq> None" if "set ks \<subseteq> set (RBT.keys (st_children s))" for ks t
    using that assms by (induction ks arbitrary: t) (auto simp: Let_def)
  then obtain t where "basic_top_with_roots H s (RBT.keys (st_children s)) (st_top s) = Some t" by blast
  then show ?thesis by (simp add: basic_storage_root_def basic_storage_def [abs_def])
qed

theorem basic_root_ignores_children_witness:
  "basic_storage_root demo_hashing demo_storage = basic_storage_root demo_hashing (demo_storage\<lparr>st_children := RBT.empty\<rparr>)"
proof -
  have a: "\<forall>sk \<in> set (RBT.keys (st_children demo_storage)). is_child_trie_key_valid sk"
    and c: "\<forall>sk \<in> set (RBT.keys (st_children (demo_storage\<lparr>st_children := RBT.empty\<rparr>))). is_child_trie_key_valid sk"
    by code_simp+
  show ?thesis
    unfolding basic_root_ignores_children [OF a] basic_root_ignores_children [OF c] by (simp add: basic_storage_def [abs_def])
qed

end
