(* ===== verification/State_Machine_Properties.thy ===== *)
theory State_Machine_Properties
  imports State_Machine Externalities_Properties
begin

text \<open>
  What a call leaves behind under each execution strategy.  The executor is assumed to work on the state
  only through the operations of the externalities, and to ignore the native call when it runs Wasm.
\<close>

section \<open>Assumptions on the executor\<close>

definition works_through ::
  "'h hashing \<Rightarrow> in_memory \<Rightarrow> (bytes \<Rightarrow> owned_child_info) \<Rightarrow> ('c, 'h, 'n, 'e, 'r) executor \<Rightarrow> bool" where
  "works_through H b ci_of exec \<longleftrightarrow>
     (\<forall>un nc e. \<exists>xs. list_all call_valid xs \<and> ext_calls H b ci_of xs e = Some (snd (exec un nc e)))"

definition wasm_ignores_call :: "('c, 'h, 'n, 'e, 'r) executor \<Rightarrow> bool" where
  "wasm_ignores_call exec \<longleftrightarrow> (\<forall>nc e. exec False nc e = exec False None e)"

section \<open>What calls keep\<close>

lemma config_write [simp]:
  "changes_trie_config (overlay_put dec k v ov) = changes_trie_config ov"
  "changes_trie_config (set_child_storage dec sk ci k v ov) = changes_trie_config ov"
  "changes_trie_config (clear_child_storage dec sk ci ov) = changes_trie_config ov"
  "changes_trie_config (overlay_clear_prefix dec p ov) = changes_trie_config ov"
  "changes_trie_config (overlay_clear_child_prefix dec sk ci p ov) = changes_trie_config ov"
  by (simp_all add: overlay_put_def set_child_storage_def clear_child_storage_def overlay_clear_prefix_def
        overlay_clear_child_prefix_def Let_def case_prod_beta)

lemma config_folds [simp]:
  "changes_trie_config (fold (\<lambda>key. overlay_put dec key None) ks ov) = changes_trie_config ov"
  "changes_trie_config (fold (\<lambda>key. set_child_storage dec sk ci key None) ks ov) = changes_trie_config ov"
  by (induction ks arbitrary: ov) auto

lemma config_apply: "changes_trie_config (overlay (ext_apply H b ci_of x e)) = changes_trie_config (overlay e)"
  by (cases x)
     (simp_all add: ext_apply_def ext_place_storage_def ext_place_child_storage_def ext_kill_child_storage_def
        ext_clear_prefix_def ext_clear_child_prefix_def Let_def)

lemma ext_call_keeps:
  assumes "ext_call H b ci_of x e = Some e'"
  shows "committed (overlay e') = committed (overlay e) \<and> changes_trie_config (overlay e') = changes_trie_config (overlay e)"
proof (cases x)
  case (Write y)
  then show ?thesis using assms config_apply committed_apply by fastforce
next
  case AskRoot
  then show ?thesis using assms
    by (auto simp: ext_storage_root_def Let_def case_prod_beta split: option.splits)
next
  case (AskChildRoot sk)
  then show ?thesis using assms
    by (auto simp: ext_child_storage_root_def Let_def case_prod_beta split: option.splits)
qed

lemma ext_calls_keep:
  "ext_calls H b ci_of xs e = Some e' \<Longrightarrow>
     committed (overlay e') = committed (overlay e) \<and> changes_trie_config (overlay e') = changes_trie_config (overlay e)"
proof (induction xs arbitrary: e)
  case (Cons x xs)
  then obtain e1 where "ext_call H b ci_of x e = Some e1" "ext_calls H b ci_of xs e1 = Some e'"
    by (auto split: option.splits)
  then show ?case using ext_call_keeps Cons.IH by metis
qed simp

text \<open>One run of the executor: the overlay it leaves, and the transaction of that overlay.\<close>

lemma execute_aux_result:
  assumes "works_through H b ci_of exec" and "overlay_ok ci_of ov"
  shows "execute_aux H b exec compute_tx un nc ov =
      Some ((fst (fst (exec un nc (ext_new ov))), snd (fst (exec un nc (ext_new ov))),
             if compute_tx then Some (overlay_transaction H b ci_of (overlay (snd (exec un nc (ext_new ov))))) else None),
            overlay (snd (exec un nc (ext_new ov))))"
    and "overlay_ok ci_of (overlay (snd (exec un nc (ext_new ov))))"
    and "(overlay (snd (exec un nc (ext_new ov))))\<lparr>prospective := prospective ov\<rparr> = ov"
proof -
  let ?e = "snd (exec un nc (ext_new ov))"
  obtain xs where xs: "list_all call_valid xs" "ext_calls H b ci_of xs (ext_new ov) = Some ?e"
    using assms(1) unfolding works_through_def by blast
  have ok: "ext_ok H b ci_of ?e"
    using ext_calls_ok [OF ext_new_ok [OF assms(2)] xs(1) agree_refl, of H b] xs(2) by auto
  show "overlay_ok ci_of (overlay ?e)" using ok by (simp add: ext_ok_def)
  show "(overlay ?e)\<lparr>prospective := prospective ov\<rparr> = ov"
    using ext_calls_keep [OF xs(2)] by (cases ov; cases "overlay ?e") (simp add: ext_new_def)
  show "execute_aux H b exec compute_tx un nc ov =
      Some ((fst (fst (exec un nc (ext_new ov))), snd (fst (exec un nc (ext_new ov))),
             if compute_tx then Some (overlay_transaction H b ci_of (overlay ?e)) else None), overlay ?e)"
    by (simp add: execute_aux_def case_prod_beta ext_transaction_ok [OF ok])
qed

lemma overlay_ok_config [simp]: "overlay_ok ci_of (ov\<lparr>changes_trie_config := x\<rparr>) = overlay_ok ci_of ov"
  by (simp add: overlay_ok_def)

lemma init_overlay_cases:
  assumes "P ov" and "\<And>x. P (ov\<lparr>changes_trie_config := x\<rparr>)"
  shows "P (snd (init_overlay dec_config b fc ov))"
  using assms
  by (simp add: init_overlay_def overlay_set_config_def set_changes_trie_config_def split: option.split sum.split bool.split)

lemma init_overlay_ok: "overlay_ok ci_of ov \<Longrightarrow> overlay_ok ci_of (snd (init_overlay dec_config b fc ov))"
  by (rule init_overlay_cases) simp_all

lemma overlay_config [simp]:
  "overlay_storage (ov\<lparr>changes_trie_config := x\<rparr>) = overlay_storage ov"
  "overlay_child_storage (ov\<lparr>changes_trie_config := x\<rparr>) = overlay_child_storage ov"
  by (simp_all add: fun_eq_iff overlay_vals)

lemma overlay_transaction_config [simp]:
  "overlay_transaction H b ci_of (ov\<lparr>changes_trie_config := x\<rparr>) = overlay_transaction H b ci_of ov"
  by (simp add: overlay_transaction_def top_delta_def child_delta_def touched_def)

lemma overlay_transaction_init [simp]:
  "overlay_transaction H b ci_of (snd (init_overlay dec_config b' fc ov)) = overlay_transaction H b ci_of ov"
  by (rule init_overlay_cases) simp_all

section \<open>Concrete executors for the witnesses\<close>

text \<open>
  Native code writes one value and Wasm another; the results are given.
\<close>

definition demo_executor ::
  "(nat, u8) call_result \<Rightarrow> (nat, u8) call_result \<Rightarrow> (unit, bytes, unit, nat, u8) executor" where
  "demo_executor native_result wasm_result un nc e =
     (if un then ((native_result, True), ext_apply demo_hashing Map.empty demo_info (Place [1] (Some [5])) e)
      else ((wasm_result, False), ext_apply demo_hashing Map.empty demo_info (Place [1] (Some [6])) e))"

definition demo_result :: "bytes \<Rightarrow> u8 option" where
  "demo_result b = (case b of [x] \<Rightarrow> Some x | _ \<Rightarrow> None)"

definition no_config :: "bytes \<Rightarrow> unit option" where
  "no_config = (\<lambda>_. None)"

lemma demo_works_through: "works_through demo_hashing Map.empty demo_info (demo_executor r w)"
  unfolding works_through_def
proof (intro allI)
  fix un nc e
  show "\<exists>xs. list_all call_valid xs \<and>
      ext_calls demo_hashing Map.empty demo_info xs e = Some (snd (demo_executor r w un nc e))"
    by (rule exI [of _ "[Write (Place [1] (Some (if un then [5] else [6])))]"]) (simp add: demo_executor_def)
qed

lemma demo_ignores_call: "wasm_ignores_call (demo_executor r w)"
  by (simp add: wasm_ignores_call_def demo_executor_def)

section \<open>Strategies\<close>

lemma manager_run:
  assumes "works_through H b ci_of exec" and "overlay_ok ci_of ov" and "strategy_of manager \<noteq> Both"
    and "execute_with_manager dec_result H b exec manager True nc ov = Some ((x, d), ov')"
  shows "overlay_ok ci_of ov' \<and> d = Some (overlay_transaction H b ci_of ov')"
proof -
  note aux = execute_aux_result [OF assms(1)]
  show ?thesis
    using assms(3,4)
    by (cases manager)
       (auto simp: execute_with_manager_def execute_call_with_native_else_wasm_strategy_def Let_def aux(1) [OF assms(2)]
          aux(2) [OF assms(2)] aux(3) [OF assms(2)] split: if_splits)
qed

text \<open>A call that gets past the two checks of the configuration.\<close>

lemma execute_Inr:
  assumes "execute_using_consensus_failure_handler dec_config dec_result H b exec manager c nc ov = Some (Inr (r, d), ov')"
  obtains ov2 where
    "execute_with_manager dec_result H b exec manager c nc (snd (init_overlay dec_config b False ov)) = Some ((Inr r, d), ov2)"
    "ov' = snd (init_overlay dec_config b True ov2)"
proof -
  obtain u ov1 where i: "init_overlay dec_config b False ov = (u, ov1)" by (cases "init_overlay dec_config b False ov")
  show thesis
    using assms that i
    by (auto simp: execute_using_consensus_failure_handler_def split: sum.splits option.splits prod.splits)
qed

text \<open>
  C37 (transaction_matches_overlay): when a call succeeds under any strategy but \<open>Both\<close>, the transaction it returns is the one
  of the changes it leaves in the overlay: applied to the backend it gives every ordinary key and every child
  the value the overlay shows, and the root returned is the root of the result.
\<close>

theorem transaction_matches_overlay:
  fixes H :: "'h hashing" and ov' :: "'c overlayed_changes"
  assumes "works_through H b ci_of exec" and "overlay_ok ci_of ov" and "strategy_of manager \<noteq> Both"
    and "execute_using_consensus_failure_handler dec_config dec_result H b exec manager True nc ov = Some (Inr (r, Some (tx, root)), ov')"
  shows "(\<forall>k. \<not> is_child_storage_key k \<longrightarrow>
        backend_storage (in_memory_update tx b) k = ext_storage b (ext_new ov' :: ('c, 'h) ext) k)
    \<and> (\<forall>sk. backend_child_storage (in_memory_update tx b) sk (ci_of sk) = ext_child_view b ci_of (ext_new ov' :: ('c, 'h) ext) sk)
    \<and> root = trie_root H (backend_storage (in_memory_update tx b))"
proof -
  obtain ov2 where run: "execute_with_manager dec_result H b exec manager True nc (snd (init_overlay dec_config b False ov)) =
        Some ((Inr r, Some (tx, root)), ov2)" and ov': "ov' = snd (init_overlay dec_config b True ov2)"
    using execute_Inr [OF assms(4)] by blast
  have 2: "overlay_ok ci_of ov2" "Some (tx, root) = Some (overlay_transaction H b ci_of ov2)"
    using manager_run [OF assms(1) init_overlay_ok [OF assms(2)] assms(3) run] by blast+
  have ok: "overlay_ok ci_of ov'" unfolding ov' by (rule init_overlay_ok [OF 2(1)])
  have T: "overlay_transaction H b ci_of ov' = (tx, root)" using 2(2) by (simp add: ov')
  let ?e = "ext_new ov' :: ('c, 'h) ext"
  have e: "overlay ?e = ov'" by (simp add: ext_new_def)
  have "is_child_storage_key k" if "k \<in> set (touched ov')" for k
    using touched_valid [OF ok that] by (rule valid_is_child)
  then have "\<not> is_child_storage_key k \<Longrightarrow> backend_storage (in_memory_update tx b) k = ext_storage b ?e k" for k
    using overlay_transaction_top [of H b ci_of ?e k] by (auto simp: e T)
  then show ?thesis
    using overlay_transaction_child [of H b ci_of ?e] overlay_transaction_root [of H b ci_of ov'] by (simp add: e T)
qed

theorem transaction_matches_overlay_witness:
  "\<exists>r tx root ov'. execute_using_consensus_failure_handler no_config demo_result demo_hashing Map.empty (demo_executor (Inl 0) (Inr (Encoded [7])))
        Manager_NativeElseWasm True None overlay_empty = Some (Inr (r, Some (tx, root)), ov')
     \<and> r = Encoded [7] \<and> backend_storage (in_memory_update tx Map.empty) [1] = ext_storage Map.empty (ext_new ov' :: (unit, bytes) ext) [1]"
proof -
  let ?x = "execute_using_consensus_failure_handler no_config demo_result demo_hashing Map.empty (demo_executor (Inl 0) (Inr (Encoded [7])))
        Manager_NativeElseWasm True None overlay_empty"
  have "case ?x of Some (Inr (r, Some t), ov') \<Rightarrow> r = Encoded [7] | _ \<Rightarrow> False"
    by code_simp
  then obtain tx root ov' where x: "?x = Some (Inr (Encoded [7], Some (tx, root)), ov')"
    by (auto split: option.splits sum.splits prod.splits)
  have "\<not> is_child_storage_key [1]" by code_simp
  then show ?thesis
    using transaction_matches_overlay [OF demo_works_through overlay_empty_ok _ x] x by auto
qed



text \<open>
  C39 (both_compares_results_only): under \<open>Both\<close>, when native code and Wasm return the same value as the comparison sees it, no failure
  is reported, whatever they wrote: the transaction is that of the native run and the overlay is left as the Wasm run made it.
\<close>

theorem both_compares_results_only:
  assumes "works_through H b ci_of exec" and "wasm_ignores_call exec" and "overlay_ok ci_of ov"
    and "exec True nc (ext_new ov) = ((Inr r, True), native)" and "exec False nc (ext_new ov) = ((Inr r', w), wasm)"
    and "native_or_encoded_eq dec_result r r'"
  shows "execute_with_manager dec_result H b exec (Manager_Both handler) True nc ov =
    Some ((Inr r, Some (overlay_transaction H b ci_of (overlay native))), overlay wasm)"
proof -
  note aux = execute_aux_result(1,3) [OF assms(1,3)]
  have call: "exec False None e = exec False nc e" for e using assms(2) unfolding wasm_ignores_call_def by metis
  show ?thesis
    using aux(2) [of True nc]
    by (simp add: execute_with_manager_def execute_call_with_both_strategy_def Let_def aux(1) call assms(4-6) is_ok_def)
qed

theorem both_compares_results_only_witness:
  "\<exists>tx root ov'. execute_with_manager demo_result demo_hashing Map.empty (demo_executor (Inr (Native 7)) (Inr (Encoded [7]))) (Manager_Both (\<lambda>w n. w)) True None overlay_empty
      = Some ((Inr (Native 7), Some (tx, root)), ov')
    \<and> backend_storage (in_memory_update tx Map.empty) [1] = Some [5]
    \<and> ext_storage Map.empty (ext_new ov' :: (unit, bytes) ext) [1] = Some [6]"
proof -
  let ?n = "ext_apply demo_hashing Map.empty demo_info (Place [1] (Some [5])) (ext_new overlay_empty)"
  let ?w = "ext_apply demo_hashing Map.empty demo_info (Place [1] (Some [6])) (ext_new overlay_empty)"
  have "demo_executor (Inr (Native 7)) (Inr (Encoded [7])) True None (ext_new overlay_empty) = ((Inr (Native 7), True), ?n)"
    "demo_executor (Inr (Native 7)) (Inr (Encoded [7])) False None (ext_new overlay_empty) = ((Inr (Encoded [7]), False), ?w)"
    by (simp_all add: demo_executor_def)
  note x = both_compares_results_only [OF demo_works_through demo_ignores_call overlay_empty_ok this, of demo_result "\<lambda>w n. w"]
  have "backend_storage (in_memory_update (fst (overlay_transaction demo_hashing Map.empty demo_info (overlay ?n))) Map.empty) [1] = Some [5]"
    "ext_storage Map.empty (ext_new (overlay ?w) :: (unit, bytes) ext) [1] = Some [6]"
    by code_simp+
  moreover have "native_or_encoded_eq demo_result (Native 7) (Encoded [7])" by (simp add: demo_result_def)
  ultimately show ?thesis using x by (cases "overlay_transaction demo_hashing Map.empty demo_info (overlay ?n)") auto
qed

text \<open>
  C40 (failed_call_keeps_changes): a call that fails in the executor leaves its changes in the overlay, under Wasm and under native
  code alike.
\<close>

theorem failed_call_keeps_changes:
  assumes "works_through H b ci_of exec" and "overlay_ok ci_of ov"
    and "init_overlay dec_config b False ov = (Inr (), ov1)" and "exec un nc (ext_new ov1) = ((Inl err, w), e)"
  shows "execute_using_consensus_failure_handler dec_config dec_result H b exec
      (if un then Manager_NativeWhenPossible else Manager_AlwaysWasm t) c nc ov = Some (Inl (Executor_error err), overlay e)"
proof -
  have ok: "overlay_ok ci_of ov1" using init_overlay_ok [OF assms(2), of dec_config b False] assms(3) by simp
  show ?thesis
    using assms(4)
    by (cases un) (simp_all add: execute_using_consensus_failure_handler_def execute_with_manager_def Let_def assms(3)
        execute_aux_result(1) [OF assms(1) ok])
qed

theorem failed_call_keeps_changes_witness:
  "\<exists>ov'. execute_using_consensus_failure_handler no_config demo_result demo_hashing Map.empty (demo_executor (Inl 0) (Inl 1))
      (Manager_AlwaysWasm Trusted) True None overlay_empty = Some (Inl (Executor_error 1), ov')
    \<and> overlay_storage ov' [1] = Some (Some [6])"
proof -
  let ?w = "ext_apply demo_hashing Map.empty demo_info (Place [1] (Some [6])) (ext_new overlay_empty)"
  have i: "init_overlay no_config Map.empty False overlay_empty = (Inr (), overlay_empty)"
    by (simp add: init_overlay_def try_read_overlay_value_def overlay_storage_def overlay_empty_def change_set_empty_def
          backend_storage_def overlay_set_config_def)
  have w: "demo_executor (Inl 0) (Inl 1) False None (ext_new overlay_empty) = ((Inl 1, False), ?w)"
    by (simp add: demo_executor_def)
  have "overlay_storage (overlay ?w) [1] = Some (Some [6])"
    by code_simp
  then show ?thesis
    using failed_call_keeps_changes [OF demo_works_through overlay_empty_ok i w, where t = Trusted and c = True] by simp
qed

end
