(* ===== verification/Spec2Isabelle.thy ===== *)
theory Spec2Isabelle
  imports Offchain_Storage Storage_Maps Linked_Map Block_Lifecycle Balances_Properties Account_Nonces
    Fork_Tree_Properties State_Machine_Properties
begin

text \<open>
  A verification development for the offchain-storage chain, a Substrate node whose runtime has a
  module that keeps data in an external store.  All source paths below are relative to \<open>src/\<close>.

  \<^bold>\<open>The program.\<close>  A runtime is a set of modules over one key-value storage.  The storage
  generators of \<open>frame/support\<close> turn the raw storage into values, maps and linked maps.  The system
  module (\<open>frame/system\<close>) opens and closes blocks, records events and extrinsics, and has the signed
  extensions that check weight, length, nonce and era of a transaction.  The balances module
  (\<open>frame/balances\<close>) keeps the accounts, and removes the nonce of an account it reaps.  The
  offchain-storage module (\<open>frame/offchain-storage\<close>) keeps one entry per data id and hands the data to
  an external store.  Outside the runtime, the state machine (\<open>primitives/state-machine\<close>) runs a
  runtime call over changes that are layered on a backend, and turns the changes into a transaction
  with a storage root.  The client keeps the tree of blocks with its best chain and its leaves
  (\<open>client/src\<close>, \<open>primitives/blockchain\<close>), and consensus code tracks pending data of forks in a fork
  tree (\<open>utils/fork-tree\<close>) that asks the client who descends from whom.

  \<^bold>\<open>Conventions.\<close>  A dispatchable is a function from a state to a result and a state.  Errors are
  values of sum types.  A panic or a failed \<open>expect\<close> is \<open>None\<close> of an outer option.  Machine integers
  are words of their width, with \<open>checked\<close> and \<open>saturating\<close> operations defined through them;
  plain \<open>+\<close> wraps, as in a release build.  Loops are structural recursion, or \<open>function\<close> with a
  termination proof; where the source may not return (the enumeration of a linked map, the walks over
  headers) \<open>partial_function\<close> is used, so that not returning is \<open>None\<close>, and the properties state that a
  result is returned.  No fuel is needed.  Codecs, hashers, trie roots, the executor and the
  operating system are not part of the repository; they are parameters, and what is relied on is a
  named predicate with a concrete instance in a witness.

  \<^bold>\<open>Theories.\<close>
  \<^item> \<open>Substrate_Prelude\<close>: words, checked and saturating arithmetic, sums over finite supports, and
    the locale of transition systems with an invariant, \<open>guarded_system\<close>, which every component with
    histories interprets.
  \<^item> \<open>Raw_Storage\<close>, \<open>Storage_Maps\<close>: \<open>storage/unhashed.rs\<close>, \<open>generator/value.rs\<close>, \<open>generator/map.rs\<close>.
    Any interleaving of operations on two maps over one raw storage answers as two separate finite
    maps do.
  \<^item> \<open>Linked_Map\<close>: \<open>generator/linked_map.rs\<close>.  Enumeration after any operations ends and gives the
    association list the operations build.
  \<^item> \<open>Frame_System\<close>, \<open>Per_Things\<close>, \<open>Transaction_Era\<close>, \<open>Signed_Extensions\<close>: \<open>frame/system/src/lib.rs\<close>,
    \<open>primitives/arithmetic/src/per_things.rs\<close>, \<open>primitives/runtime/src/generic/era.rs\<close>.
  \<^item> \<open>Block_Lifecycle\<close>: chains of blocks as a step relation.  Resource limits hold in every block, the
    block-hash window is exact, \<open>CheckWeight\<close> accepts exactly what fits, and a mortal transaction is
    checked against the hash of its birth block while its era lasts.
  \<^item> \<open>Balances\<close>, \<open>Balances_Laws\<close>, \<open>Balances_Accounting\<close>, \<open>Balances_Steps\<close>, \<open>Balances_Properties\<close>:
    \<open>frame/balances/src/lib.rs\<close> and the currency traits.  A ledger abstracts a state; each operation
    changes it as the imbalance it returns says; the module as a transition system with held
    imbalances stays solvent; transfers are exact, locks restrain and persist, reservations lose dust.
  \<^item> \<open>Account_Nonces\<close>: replay protection over the three writers of \<open>AccountNonce\<close>, two modules apart.
  \<^item> \<open>Offchain_Storage\<close>: \<open>frame/offchain-storage/src/lib.rs\<close>.  The trait of the external store is a
    record of functions and its contract a locale, interpreted on the file store of the module's
    tests.  Written data is read back, panics are confined, and access control is not what the
    documentation says.
  \<^item> \<open>Header_Metadata\<close>, \<open>Header_Chain\<close>, \<open>Leaf_Set\<close>, \<open>In_Mem_Chain\<close>, \<open>In_Mem_Properties\<close>:
    \<open>primitives/blockchain/src/header_metadata.rs\<close>, \<open>client/api/src/lib.rs\<close>, \<open>client/src/leaves.rs\<close>,
    \<open>client/src/in_mem.rs\<close>.  Lowest common ancestors, routes and the ancestry check are right on every
    backend that meets a locale, and the in-memory chain meets it; the canonical chain is the branch
    of the best block, with the exception that is proved.
  \<^item> \<open>Fork_Tree\<close>, \<open>Fork_Tree_Laws\<close>, \<open>Fork_Tree_Properties\<close>: the fork tree, alone and together with the
    in-memory chain that answers its questions.
  \<^item> \<open>Overlayed_Changes\<close>, \<open>Overlay_Laws\<close>, \<open>State_Backend\<close>, \<open>Externalities\<close>, \<open>Basic_Externalities\<close>,
    \<open>Externalities_Laws\<close>, \<open>Externalities_Contract\<close>, \<open>Externalities_Roots\<close>, \<open>Externalities_Properties\<close>:
    \<open>overlayed_changes.rs\<close>, \<open>backend.rs\<close>, \<open>ext.rs\<close>, \<open>basic.rs\<close>.  The layered changes answer as the raw storage
    and as the plain map, discarding rolls back, and the transaction applied to the backend gives
    what was written.
  \<^item> \<open>State_Machine\<close>, \<open>State_Machine_Properties\<close>: \<open>primitives/state-machine/src/lib.rs\<close>.  What a call leaves
    behind under each execution strategy.

  \<^bold>\<open>Bounds.\<close>  Block numbers and nonces are 32-bit words, and histories that would wrap them are
  excluded by a hypothesis.  In the balances, the total issuance stays one existential deposit below
  \<open>2\<^sup>128\<close>: the code adds unchecked there, and beyond the bound \<open>set_balance\<close> is proved to break the books.
  The limits of \<open>CheckWeight\<close> are below the largest word, since its additions
  saturate.

  \<^bold>\<open>Not modelled.\<close>  The database, the network, consensus, the transaction pool, remote calls and the
  binaries are I/O and concurrency.  Tries, signatures and the Wasm engine are other packages.
  The macros of \<open>frame/support\<close> are modelled by what they generate for the modules above.  Changes tries,
  proofs, \<open>from_fraction\<close> on floating-point numbers, and the storage operations that edit encoded
  vectors in place are left out.  So are the other runtime modules.
\<close>

end
